(* ===== verification/Prelude.thy ===== *)
theory Prelude
  imports Complex_Main "HOL-Library.Sublist" "HOL-Library.Monad_Syntax"
begin

text \<open>
  Shared vocabulary of the development: the error type and the result type of the
  Rust code, machine arithmetic on \<open>usize\<close>, decimal rendering as \<open>format!\<close> does
  it, \<open>str::contains\<close>, and the list lemmas the components share.
\<close>

section \<open>Collections of facts\<close>

named_theorems usize_simps \<open>wrap-around arithmetic that does not overflow\<close>
named_theorems schema_simps \<open>what a rewriting keeps of a plan's schema\<close>

section \<open>Results\<close>

text \<open>
  \<open>DataFusionError\<close>, restricted to the variants the modelled code raises, and two
  values for the ways a thread stops without returning a \<open>Result\<close>: a panic and an
  out-of-bounds index (which is a panic too, named apart because it is the commonest).
\<close>

datatype df_error =
    Plan string
  | Internal string
  | ResourcesExhausted string
  | ArrowError string
  | NotImplemented string
  | External string
  | Execution string
  | Panic string
  | IndexOutOfBounds

type_synonym 'a res = "df_error + 'a"

fun bind_res :: "'a res \<Rightarrow> ('a \<Rightarrow> 'b res) \<Rightarrow> 'b res" where
  "bind_res (Inl e) f = Inl e"
| "bind_res (Inr x) f = f x"

text \<open>\<open>iter().map(f).collect::<Result<Vec<_>>>()\<close>: the first error stops the iteration.\<close>

fun collect_res :: "'a res list \<Rightarrow> 'a list res" where
  "collect_res [] = Inr []"
| "collect_res (Inl e # rs) = Inl e"
| "collect_res (Inr x # rs) = (case collect_res rs of Inl e \<Rightarrow> Inl e | Inr xs \<Rightarrow> Inr (x # xs))"

lemma bind_res_Inr_iff [simp]:
  "bind_res r f = Inr y \<longleftrightarrow> (\<exists>x. r = Inr x \<and> f x = Inr y)"
  by (cases r) auto

lemma bind_res_cong [fundef_cong]:
  "r = r' \<Longrightarrow> (\<And>x. r' = Inr x \<Longrightarrow> f x = f' x) \<Longrightarrow> bind_res r f = bind_res r' f'"
  by (cases r') auto

lemma collect_res_Inr_iff:
  "collect_res rs = Inr xs \<longleftrightarrow> rs = map Inr xs"
proof
  show "collect_res rs = Inr xs \<Longrightarrow> rs = map Inr xs"
    by (induction rs arbitrary: xs rule: collect_res.induct) (auto split: sum.splits)
  show "rs = map Inr xs \<Longrightarrow> collect_res rs = Inr xs"
    by (induction xs arbitrary: rs) auto
qed

lemma collect_res_map_Inr [simp]: "collect_res (map Inr xs) = Inr xs"
  by (simp add: collect_res_Inr_iff)

lemma collect_res_length: "collect_res rs = Inr xs \<Longrightarrow> length xs = length rs"
  by (simp add: collect_res_Inr_iff)

text \<open>An answer of a function that may not return: none, an error, or a value.\<close>

fun bind_run :: "'a res option \<Rightarrow> ('a \<Rightarrow> 'b res option) \<Rightarrow> 'b res option" where
  "bind_run None f = None"
| "bind_run (Some (Inl e)) f = Some (Inl e)"
| "bind_run (Some (Inr x)) f = f x"

lemma bind_run_cong [fundef_cong]:
  "r = r' \<Longrightarrow> (\<And>x. r' = Some (Inr x) \<Longrightarrow> f x = f' x) \<Longrightarrow> bind_run r f = bind_run r' f'"
  by (induction r' f' rule: bind_run.induct) auto

section \<open>Machine integers\<close>

text \<open>
  \<open>usize\<close> is 64 bits wide; values are natural numbers below \<open>usize_mod\<close> and the
  release profile's wrap-around is written out where the code can reach it.
\<close>

definition usize_mod :: nat where
  "usize_mod = 2 ^ 64"

definition wadd :: "nat \<Rightarrow> nat \<Rightarrow> nat" where
  "wadd a b = (a + b) mod usize_mod"

definition wsub :: "nat \<Rightarrow> nat \<Rightarrow> nat" where
  "wsub a b = (if b \<le> a then a - b else a + usize_mod - b) mod usize_mod"

definition wmul :: "nat \<Rightarrow> nat \<Rightarrow> nat" where
  "wmul a b = (a * b) mod usize_mod"

text \<open>\<open>x as usize\<close> for a signed integer: two's complement, sign extended.\<close>

definition as_usize :: "int \<Rightarrow> nat" where
  "as_usize i = nat (i mod 2 ^ 64)"

definition checked_sub :: "nat \<Rightarrow> nat \<Rightarrow> nat option" where
  "checked_sub a b = (if b \<le> a then Some (a - b) else None)"

lemma wadd_small [usize_simps]: "a + b < usize_mod \<Longrightarrow> wadd a b = a + b"
  by (simp add: wadd_def)

lemma wsub_small [usize_simps]: "b \<le> a \<Longrightarrow> a < usize_mod \<Longrightarrow> wsub a b = a - b"
  by (simp add: wsub_def)

lemma wadd_bound: "wadd a b < usize_mod"
  by (simp add: wadd_def usize_mod_def)

lemma wsub_bound: "wsub a b < usize_mod"
  by (simp add: wsub_def usize_mod_def)

lemma wsub_wadd: "a < usize_mod \<Longrightarrow> b < usize_mod \<Longrightarrow> wsub (wadd a b) b = a"
  by (auto simp: wsub_def wadd_def mod_if usize_mod_def split: if_splits)

lemma int_wadd: "int (wadd a b) = (int a + int b) mod int usize_mod"
  by (simp add: wadd_def zmod_int)

lemma int_wsub:
  assumes "b < usize_mod"
  shows "int (wsub a b) = (int a - int b) mod int usize_mod"
proof (cases "b \<le> a")
  case False
  with assms have "int (a + usize_mod - b) = int a - int b + int usize_mod" by linarith
  then have "int (wsub a b) = (int a - int b + int usize_mod) mod int usize_mod"
    using False by (simp only: wsub_def if_False zmod_int)
  then show ?thesis by simp
qed (simp add: wsub_def zmod_int of_nat_diff)

lemma as_usize_nonneg: "0 \<le> i \<Longrightarrow> i < 2 ^ 64 \<Longrightarrow> as_usize i = nat i"
  by (simp add: as_usize_def)

lemma as_usize_minus_one: "as_usize (- 1) = 2 ^ 64 - 1"
  by (simp add: as_usize_def)

section \<open>Decimal rendering\<close>

definition digit_char :: "nat \<Rightarrow> char" where
  "digit_char d = ''0123456789'' ! d"

fun show_nat :: "nat \<Rightarrow> string" where
  "show_nat n = (if n < 10 then [digit_char n] else show_nat (n div 10) @ [digit_char (n mod 10)])"

declare show_nat.simps [simp del]

definition show_int :: "int \<Rightarrow> string" where
  "show_int i = (if i < 0 then CHR ''-'' # show_nat (nat (- i)) else show_nat (nat i))"

definition is_digit :: "char \<Rightarrow> bool" where
  "is_digit c \<longleftrightarrow> 48 \<le> (of_char c :: nat) \<and> (of_char c :: nat) \<le> 57"

text \<open>The value of a digit string: the inverse of \<^const>\<open>show_nat\<close>.\<close>

definition digits_val :: "string \<Rightarrow> nat" where
  "digits_val s = foldl (\<lambda>acc c. 10 * acc + (of_char c - 48)) 0 s"

lemma of_char_digit [simp]:
  assumes "d < 10"
  shows "(of_char (digit_char d) :: nat) = 48 + d"
proof -
  have "d \<in> {0, 1, 2, 3, 4, 5, 6, 7, 8, 9}" using assms by auto
  then show ?thesis by (auto simp: digit_char_def)
qed

lemma show_nat_digits: "\<forall>c \<in> set (show_nat n). is_digit c"
proof (induction n rule: show_nat.induct)
  case (1 n)
  then show ?case
    by (subst show_nat.simps) (auto simp: is_digit_def)
qed

lemma show_nat_nonempty [simp]: "show_nat n \<noteq> []"
  by (subst show_nat.simps) simp

lemma digits_val_show_nat [simp]: "digits_val (show_nat n) = n"
proof (induction n rule: show_nat.induct)
  case (1 n)
  then show ?case
    by (subst show_nat.simps) (auto simp: digits_val_def)
qed

lemma show_nat_inj [simp]: "show_nat m = show_nat n \<longleftrightarrow> m = n"
  by (metis digits_val_show_nat)

lemma show_nat_no_minus: "hd (show_nat n) \<noteq> CHR ''-''"
proof -
  have "is_digit (hd (show_nat n))"
    using show_nat_digits [of n] by (simp add: hd_in_set)
  then show ?thesis
    by (auto simp: is_digit_def)
qed

lemma show_int_inj: "show_int i = show_int j \<longleftrightarrow> i = j"
proof -
  have "i = j" if "show_int i = show_int j"
    using that show_nat_no_minus [of "nat i"] show_nat_no_minus [of "nat j"]
    by (auto simp: show_int_def split: if_splits) (metis list.sel(1))+
  then show ?thesis by blast
qed

section \<open>Strings\<close>

text \<open>\<open>haystack.contains(needle)\<close>: some contiguous part of the haystack is the needle.\<close>

fun str_contains :: "string \<Rightarrow> string \<Rightarrow> bool" where
  "str_contains [] needle = (needle = [])"
| "str_contains (c # cs) needle = (prefix needle (c # cs) \<or> str_contains cs needle)"

lemma str_contains_sublist: "str_contains hay needle \<longleftrightarrow> sublist needle hay"
  by (induction hay) (auto simp: sublist_Cons_right)

lemma str_contains_append: "str_contains (a @ needle @ b) needle"
  by (simp add: str_contains_sublist)

text \<open>A rendering with a separator that does not occur in the suffix determines both parts.\<close>

lemma split_at_first:
  "c \<notin> set u \<Longrightarrow> c \<notin> set v \<Longrightarrow> u @ c # p = v @ c # q \<longleftrightarrow> u = v \<and> p = q"
proof (induction u arbitrary: v)
  case Nil
  then show ?case by (cases v) auto
next
  case (Cons x u)
  then show ?case by (cases v) auto
qed

lemma append_sep_inj:
  assumes "a @ c # s = b @ c # t" and "c \<notin> set s" and "c \<notin> set t"
  shows "a = b \<and> s = t"
proof -
  have "rev (a @ c # s) = rev (b @ c # t)"
    using assms(1) by simp
  then have "rev s @ c # rev a = rev t @ c # rev b"
    by simp
  with assms(2,3) show ?thesis
    using split_at_first [of c "rev s" "rev t"] by simp
qed

section \<open>Lists\<close>

text \<open>\<open>iter().position(p)\<close>.\<close>

fun position :: "('a \<Rightarrow> bool) \<Rightarrow> 'a list \<Rightarrow> nat option" where
  "position P [] = None"
| "position P (x # xs) = (if P x then Some 0 else map_option Suc (position P xs))"

lemma position_Some:
  "position P xs = Some i \<Longrightarrow> i < length xs \<and> P (xs ! i) \<and> (\<forall>j < i. \<not> P (xs ! j))"
proof (induction xs arbitrary: i)
  case (Cons x xs)
  then show ?case by (auto simp: less_Suc_eq_0_disj split: if_splits)
qed simp

lemma position_None: "position P xs = None \<longleftrightarrow> (\<forall>x \<in> set xs. \<not> P x)"
  by (induction xs) auto

lemma position_find: "map_option ((!) xs) (position P xs) = List.find P xs"
  by (induction xs) (auto simp: option.map_comp comp_def split: option.splits)

lemma find_map_Some_iff:
  "List.find P xs = Some x \<Longrightarrow> x \<in> set xs \<and> P x"
  by (auto simp: find_Some_iff)

lemma sum_list_map_filter_le:
  fixes f :: "'a \<Rightarrow> nat"
  shows "sum_list (map f (filter P xs)) \<le> sum_list (map f xs)"
  by (induction xs) auto

end
