(* ===== verification/JoinType.thy ===== *)
theory JoinType
  imports Prelude
begin

text \<open>
  \<open>common/src/join_type.rs\<close>: the join types, their swap, which side an ON filter may be
  pushed to, and their text form. Strings are byte strings, so \<open>to_uppercase\<close> is the
  ASCII one.
\<close>

datatype join_type =
    Inner | Left | Right | Full
  | LeftSemi | RightSemi | LeftAnti | RightAnti | LeftMark | RightMark

datatype join_constraint = On | Using

datatype join_side = SideLeft | SideRight | SideNone

definition is_outer :: "join_type \<Rightarrow> bool" where
  "is_outer t \<longleftrightarrow> t = Left \<or> t = Right \<or> t = Full"

fun swap :: "join_type \<Rightarrow> join_type" where
  "swap Inner = Inner"
| "swap Full = Full"
| "swap Left = Right"
| "swap Right = Left"
| "swap LeftSemi = RightSemi"
| "swap RightSemi = LeftSemi"
| "swap LeftAnti = RightAnti"
| "swap RightAnti = LeftAnti"
| "swap LeftMark = RightMark"
| "swap RightMark = LeftMark"

fun on_lr_is_preserved :: "join_type \<Rightarrow> bool \<times> bool" where
  "on_lr_is_preserved Inner = (True, True)"
| "on_lr_is_preserved Left = (False, True)"
| "on_lr_is_preserved Right = (True, False)"
| "on_lr_is_preserved Full = (False, False)"
| "on_lr_is_preserved LeftSemi = (True, True)"
| "on_lr_is_preserved RightSemi = (True, True)"
| "on_lr_is_preserved LeftAnti = (False, True)"
| "on_lr_is_preserved RightAnti = (True, False)"
| "on_lr_is_preserved LeftMark = (False, True)"
| "on_lr_is_preserved RightMark = (True, False)"

definition supports_swap :: "join_type \<Rightarrow> bool" where
  "supports_swap t \<longleftrightarrow>
     t \<in> {Inner, Left, Right, Full, LeftSemi, RightSemi, LeftAnti, RightAnti, LeftMark, RightMark}"

fun show_join_type :: "join_type \<Rightarrow> string" where
  "show_join_type Inner = ''Inner''"
| "show_join_type Left = ''Left''"
| "show_join_type Right = ''Right''"
| "show_join_type Full = ''Full''"
| "show_join_type LeftSemi = ''LeftSemi''"
| "show_join_type RightSemi = ''RightSemi''"
| "show_join_type LeftAnti = ''LeftAnti''"
| "show_join_type RightAnti = ''RightAnti''"
| "show_join_type LeftMark = ''LeftMark''"
| "show_join_type RightMark = ''RightMark''"

definition to_upper_char :: "char \<Rightarrow> char" where
  "to_upper_char c =
     (if 97 \<le> (of_char c :: nat) \<and> (of_char c :: nat) \<le> 122 then char_of ((of_char c :: nat) - 32) else c)"

definition join_type_from_str :: "string \<Rightarrow> join_type res" where
  "join_type_from_str str =
     (let s = map to_upper_char str in
      if s = ''INNER'' then Inr Inner
      else if s = ''LEFT'' then Inr Left
      else if s = ''RIGHT'' then Inr Right
      else if s = ''FULL'' then Inr Full
      else if s = ''LEFTSEMI'' then Inr LeftSemi
      else if s = ''RIGHTSEMI'' then Inr RightSemi
      else if s = ''LEFTANTI'' then Inr LeftAnti
      else if s = ''RIGHTANTI'' then Inr RightAnti
      else if s = ''LEFTMARK'' then Inr LeftMark
      else if s = ''RIGHTMARK'' then Inr RightMark
      else Inl (NotImplemented (''The join type '' @ s @ '' does not exist or is not implemented'')))"

fun negate_side :: "join_side \<Rightarrow> join_side" where
  "negate_side SideLeft = SideRight"
| "negate_side SideRight = SideLeft"
| "negate_side SideNone = SideNone"

fun show_join_side :: "join_side \<Rightarrow> string" where
  "show_join_side SideLeft = ''left''"
| "show_join_side SideRight = ''right''"
| "show_join_side SideNone = ''none''"

section \<open>The upper-case names\<close>

fun upper_name :: "join_type \<Rightarrow> string" where
  "upper_name Inner = ''INNER''"
| "upper_name Left = ''LEFT''"
| "upper_name Right = ''RIGHT''"
| "upper_name Full = ''FULL''"
| "upper_name LeftSemi = ''LEFTSEMI''"
| "upper_name RightSemi = ''RIGHTSEMI''"
| "upper_name LeftAnti = ''LEFTANTI''"
| "upper_name RightAnti = ''RIGHTANTI''"
| "upper_name LeftMark = ''LEFTMARK''"
| "upper_name RightMark = ''RIGHTMARK''"

lemma show_join_type_upper: "map to_upper_char (show_join_type t) = upper_name t"
  by (cases t; simp only: show_join_type.simps upper_name.simps; code_simp)

section \<open>Properties\<close>

text \<open>Parsing the printed name of a join type gives the join type back, printing after
  parsing gives the same name up to case, and the parse depends on the letters only up to
  case.\<close>

theorem join_type_roundtrip:
  "join_type_from_str (show_join_type t) = Inr t
   \<and> (join_type_from_str str = Inr t \<longleftrightarrow> map to_upper_char str = map to_upper_char (show_join_type t))"
proof (intro conjI)
  show "join_type_from_str (show_join_type t) = Inr t"
    unfolding join_type_from_str_def show_join_type_upper Let_def by (cases t) simp_all
  show "join_type_from_str str = Inr t \<longleftrightarrow> map to_upper_char str = map to_upper_char (show_join_type t)"
    unfolding join_type_from_str_def show_join_type_upper Let_def by (cases t) auto
qed

text \<open>Swapping the inputs is its own inverse, is always supported, mirrors the sides to
  which an ON filter may be pushed, and keeps outer joins outer.\<close>

theorem swap_mirrors:
  "swap (swap t) = t \<and> supports_swap t \<and> is_outer (swap t) = is_outer t
   \<and> on_lr_is_preserved (swap t) = (snd (on_lr_is_preserved t), fst (on_lr_is_preserved t))"
  by (cases t) (simp_all add: supports_swap_def is_outer_def)

end
