(* ===== verification/Plan.thy ===== *)
theory Plan
  imports JoinType
begin

text \<open>
  Physical plans as the transfer rule sees them. A plan is a hash join
  (\<open>physical-plan/src/joins/hash_join/exec.rs\<close>), one of the two Bloom filter operators,
  or any other \<open>ExecutionPlan\<close>, which the rule uses through the trait only: its
  children, its schema, whether \<open>with_new_children\<close> accepts new children, and what it
  computes from its inputs. Record batches are Arrow's, row by row: the column types and
  the cells.
\<close>

section \<open>Schemas and batches\<close>

datatype data_type = Int32 | Int64 | Utf8 | Boolean | OtherType nat

record field =
  field_name :: string
  field_type :: data_type
  nullable :: bool

record schema =
  schema_fields :: "field list"
  metadata :: "string \<rightharpoonup> string"

datatype cell = CNull | CInt int | CStr string | CBool bool | COther nat

type_synonym row = "cell list"

record batch =
  col_types :: "data_type list"
  rows :: "row list"

definition num_rows :: "batch \<Rightarrow> nat" where
  "num_rows b = length (rows b)"

definition flat_rows :: "batch list \<Rightarrow> row list" where
  "flat_rows bs = concat (map rows bs)"

text \<open>A cell conforms to a column type; a batch conforms to a schema.\<close>

fun cell_ok :: "data_type \<Rightarrow> cell \<Rightarrow> bool" where
  "cell_ok t CNull = True"
| "cell_ok Int32 c = (\<exists>i. c = CInt i)"
| "cell_ok Int64 c = (\<exists>i. c = CInt i)"
| "cell_ok Utf8 c = (\<exists>s. c = CStr s)"
| "cell_ok Boolean c = (\<exists>b. c = CBool b)"
| "cell_ok (OtherType _) c = (\<exists>n. c = COther n)"

definition batch_ok :: "schema \<Rightarrow> batch \<Rightarrow> bool" where
  "batch_ok sch b \<longleftrightarrow>
     col_types b = map field_type (schema_fields sch) \<and>
     (\<forall>r \<in> set (rows b). list_all2 cell_ok (col_types b) r)"

abbreviation batches_ok :: "schema \<Rightarrow> batch list \<Rightarrow> bool" where
  "batches_ok sch bs \<equiv> list_all (batch_ok sch) bs"

section \<open>Physical expressions\<close>

text \<open>
  A column reference, \<open>physical-expr/src/expressions/column.rs\<close>, or any other expression:
  its printed form, the columns it reads and its value on a row.
\<close>

datatype pexpr = Column string nat | OtherExpr string "(string \<times> nat) list" "row \<Rightarrow> cell"

fun show_pexpr :: "pexpr \<Rightarrow> string" where
  "show_pexpr (Column n i) = n @ ''@'' @ show_nat i"
| "show_pexpr (OtherExpr d cols ev) = d"

fun eval_pexpr :: "pexpr \<Rightarrow> row \<Rightarrow> cell" where
  "eval_pexpr (Column n i) r = r ! i"
| "eval_pexpr (OtherExpr d cols ev) r = ev r"

fun collect_columns :: "pexpr \<Rightarrow> (string \<times> nat) list" where
  "collect_columns (Column n i) = [(n, i)]"
| "collect_columns (OtherExpr d cols ev) = cols"

section \<open>Plans\<close>

datatype null_equality = NullEqualsNothing | NullEqualsNull

datatype partition_mode = Partitioned | CollectLeft | Auto

record join_info =
  ji_on :: "(pexpr \<times> pexpr) list"
  ji_filter :: "row \<Rightarrow> row \<Rightarrow> bool"
  ji_type :: join_type
  ji_mode :: partition_mode
  ji_projection :: "nat list option"
  ji_null_equality :: null_equality
  ji_null_aware :: bool
  ji_fetch :: "nat option"

record exec_op =
  op_name :: string
  op_schema :: "schema list \<Rightarrow> schema"
  op_rebuild :: "schema list \<Rightarrow> df_error option"
  op_run :: "batch list list \<Rightarrow> batch list"

datatype plan =
    HashJoinExec join_info plan plan
  | BloomFilterBuildExec plan string nat
  | BloomFilterProbeExec plan string nat
  | OtherExec exec_op "plan list"

fun children :: "plan \<Rightarrow> plan list" where
  "children (HashJoinExec ji l r) = [l, r]"
| "children (BloomFilterBuildExec p c ch) = [p]"
| "children (BloomFilterProbeExec p c ch) = [p]"
| "children (OtherExec op ps) = ps"

section \<open>Join schemas\<close>

definition output_join_field :: "field \<Rightarrow> join_type \<Rightarrow> bool \<Rightarrow> field" where
  "output_join_field f t is_left =
     (let force_nullable = (case t of
          Inner \<Rightarrow> False | Left \<Rightarrow> \<not> is_left | Right \<Rightarrow> is_left | Full \<Rightarrow> True
        | LeftSemi \<Rightarrow> False | RightSemi \<Rightarrow> False | LeftAnti \<Rightarrow> False | RightAnti \<Rightarrow> False
        | LeftMark \<Rightarrow> False | RightMark \<Rightarrow> False)
      in if force_nullable then f\<lparr>nullable := True\<rparr> else f)"

type_synonym column_index = "nat \<times> join_side"

definition side_fields :: "schema \<Rightarrow> join_type \<Rightarrow> bool \<Rightarrow> (field \<times> column_index) list" where
  "side_fields sch t is_left =
     map (\<lambda>(i, f). (output_join_field f t is_left, (i, if is_left then SideLeft else SideRight)))
         (enumerate 0 (schema_fields sch))"

definition mark_field :: "field \<times> column_index" where
  "mark_field = (\<lparr>field_name = ''mark'', field_type = Boolean, nullable = False\<rparr>, (0, SideNone))"

definition build_join_schema :: "schema \<Rightarrow> schema \<Rightarrow> join_type \<Rightarrow> schema \<times> column_index list" where
  "build_join_schema left right t =
     (let left_fields = side_fields left t True;
          right_fields = side_fields right t False;
          fs = (if t \<in> {Inner, Left, Full, Right} then left_fields @ right_fields
                else if t \<in> {LeftSemi, LeftAnti} then left_fields
                else if t = LeftMark then left_fields @ [mark_field]
                else if t \<in> {RightSemi, RightAnti} then right_fields
                else right_fields @ [mark_field]);
          md = (if t \<in> {Right, RightSemi, RightAnti, RightMark}
                then metadata left ++ metadata right else metadata right ++ metadata left)
      in (\<lparr>schema_fields = map fst fs, metadata = md\<rparr>, map snd fs))"

fun can_project :: "schema \<Rightarrow> nat list option \<Rightarrow> unit res" where
  "can_project sch None = Inr ()"
| "can_project sch (Some columns) =
     (if columns \<noteq> [] \<and> length (schema_fields sch) \<le> fold max columns 0
      then Inl (ArrowError (''project index '' @ show_nat (fold max columns 0) @
                  '' out of bounds, max field '' @ show_nat (length (schema_fields sch))))
      else Inr ())"

fun project_schema :: "schema \<Rightarrow> nat list option \<Rightarrow> schema" where
  "project_schema sch None = sch"
| "project_schema sch (Some columns) = sch\<lparr>schema_fields := map (\<lambda>i. schema_fields sch ! i) columns\<rparr>"

definition hash_join_schema :: "join_info \<Rightarrow> schema \<Rightarrow> schema \<Rightarrow> schema" where
  "hash_join_schema ji ls rs =
     project_schema (fst (build_join_schema ls rs (ji_type ji))) (ji_projection ji)"

fun plan_schema :: "plan \<Rightarrow> schema" where
  "plan_schema (HashJoinExec ji l r) = hash_join_schema ji (plan_schema l) (plan_schema r)"
| "plan_schema (BloomFilterBuildExec p c ch) = plan_schema p"
| "plan_schema (BloomFilterProbeExec p c ch) = plan_schema p"
| "plan_schema (OtherExec op ps) = op_schema op (map plan_schema ps)"

section \<open>Rebuilding a plan over new children\<close>

text \<open>
  \<open>check_join_is_valid\<close>: every column of \<open>on\<close> is a column of its side, name and index.
\<close>

definition schema_columns :: "schema \<Rightarrow> (string \<times> nat) list" where
  "schema_columns sch = map (\<lambda>(i, f). (field_name f, i)) (enumerate 0 (schema_fields sch))"

definition check_join_is_valid :: "schema \<Rightarrow> schema \<Rightarrow> (pexpr \<times> pexpr) list \<Rightarrow> unit res" where
  "check_join_is_valid left right on =
     (let left_missing = set (concat (map (collect_columns \<circ> fst) on)) - set (schema_columns left);
          right_missing = set (concat (map (collect_columns \<circ> snd) on)) - set (schema_columns right)
      in if left_missing \<noteq> {} \<or> right_missing \<noteq> {}
         then Inl (Plan ''The left or right side of the join does not have all columns on \"on\"'')
         else Inr ())"

text \<open>
  \<open>HashJoinExecBuilder::build\<close> after \<open>with_new_children\<close>. When the children's properties are
  the same objects as before, the code returns the rebuilt node without the checks from
  \<open>on.is_empty()\<close> on; the node is the same.
\<close>

definition hash_join_build :: "join_info \<Rightarrow> plan \<Rightarrow> plan \<Rightarrow> plan res" where
  "hash_join_build ji l r =
     (if ji_null_aware ji \<and> ji_type ji \<noteq> LeftAnti
      then Inl (Plan (''null_aware can only be true for LeftAnti joins, got '' @ show_join_type (ji_type ji)))
      else if ji_null_aware ji \<and> length (ji_on ji) \<noteq> 1
      then Inl (Plan (''null_aware anti join only supports single column join key, got '' @
                 show_nat (length (ji_on ji)) @ '' columns''))
      else if ji_on ji = [] then Inl (Plan ''On constraints in HashJoinExec should be non-empty'')
      else bind_res (check_join_is_valid (plan_schema l) (plan_schema r) (ji_on ji)) (\<lambda>_.
           bind_res (can_project (fst (build_join_schema (plan_schema l) (plan_schema r) (ji_type ji)))
                       (ji_projection ji)) (\<lambda>_.
           Inr (HashJoinExec ji l r))))"

fun with_new_children :: "plan \<Rightarrow> plan list \<Rightarrow> plan res" where
  "with_new_children (HashJoinExec ji l r) ps =
     (case ps of
        [l', r'] \<Rightarrow> hash_join_build ji l' r'
      | _ \<Rightarrow> Inl (Internal ''wrong number of children passed into `HashJoinExecBuilder`''))"
| "with_new_children (BloomFilterBuildExec p c ch) ps =
     (case ps of [] \<Rightarrow> Inl IndexOutOfBounds | p' # _ \<Rightarrow> Inr (BloomFilterBuildExec p' c ch))"
| "with_new_children (BloomFilterProbeExec p c ch) ps =
     (case ps of [] \<Rightarrow> Inl IndexOutOfBounds | p' # _ \<Rightarrow> Inr (BloomFilterProbeExec p' c ch))"
| "with_new_children (OtherExec op ps) ps' =
     (case op_rebuild op (map plan_schema ps') of Some e \<Rightarrow> Inl e | None \<Rightarrow> Inr (OtherExec op ps'))"

text \<open>A plan that was built by these constructors: rebuilding it over its own children works.\<close>

fun valid_plan :: "plan \<Rightarrow> bool" where
  "valid_plan (HashJoinExec ji l r) =
     (hash_join_build ji l r = Inr (HashJoinExec ji l r) \<and> valid_plan l \<and> valid_plan r)"
| "valid_plan (BloomFilterBuildExec p c ch) = valid_plan p"
| "valid_plan (BloomFilterProbeExec p c ch) = valid_plan p"
| "valid_plan (OtherExec op ps) =
     (op_rebuild op (map plan_schema ps) = None \<and> list_all valid_plan ps)"

lemma hash_join_build_Inr:
  "hash_join_build ji l r = Inr q \<Longrightarrow> q = HashJoinExec ji l r"
  by (auto simp: hash_join_build_def split: if_splits)

text \<open>Rebuilding depends on the schemas of the children only.\<close>

lemma hash_join_build_schema_cong:
  assumes "plan_schema l' = plan_schema l" "plan_schema r' = plan_schema r"
    and "hash_join_build ji l r = Inr (HashJoinExec ji l r)"
  shows "hash_join_build ji l' r' = Inr (HashJoinExec ji l' r')"
  using assms by (auto simp: hash_join_build_def split: if_splits)

lemma fields_Inner [simp]:
  "map fst (side_fields sch Inner b) = schema_fields sch"
  by (simp add: side_fields_def output_join_field_def comp_def case_prod_unfold)

lemma build_join_schema_Inner [simp]:
  "schema_fields (fst (build_join_schema l r Inner)) = schema_fields l @ schema_fields r"
  by (simp add: build_join_schema_def Let_def)

end
