(* ===== verification/F64.thy ===== *)
theory F64
  imports Prelude
begin

text \<open>
  IEEE 754 binary64, as far as the code uses it: \<open>+\<close>, \<open>-\<close>, \<open>*\<close>, \<open>/\<close>, the
  comparisons, \<open>max\<close>, \<open>as\<close> casts and \<open>{:.n}\<close> formatting. A finite value is a
  sign and a rational magnitude; every operation is the exact rational operation
  followed by rounding to nearest, ties to even, with 53 bits of precision, gradual
  underflow below \<open>2^-1022\<close> and overflow to infinity. The one library function that
  IEEE 754 does not determine, \<open>exp\<close>, is a parameter wherever it is used.
\<close>

section \<open>Values and rounding\<close>

datatype f64 = NaN | Inf bool | Fin bool rat

fun fval :: "f64 \<Rightarrow> rat" where
  "fval (Fin s m) = (if s then - m else m)"
| "fval _ = 0"

fun is_nan :: "f64 \<Rightarrow> bool" where
  "is_nan NaN = True"
| "is_nan _ = False"

text \<open>The binary exponent of a positive rational: \<open>2^e \<le> x < 2^(e+1)\<close>.\<close>

function ilog2 :: "rat \<Rightarrow> int" where
  "ilog2 x =
     (if x \<le> 0 then 0
      else if x < 1 then ilog2 (2 * x) - 1
      else if 2 \<le> x then ilog2 (x / 2) + 1
      else 0)"
  by pat_completeness auto
termination
proof (relation "measure (\<lambda>x. nat \<lceil>x\<rceil> + 2 * nat \<lceil>1 / x\<rceil>)")
  show "wf (measure (\<lambda>x :: rat. nat \<lceil>x\<rceil> + 2 * nat \<lceil>1 / x\<rceil>))" by simp
next
  fix x :: rat
  assume x: "\<not> x \<le> 0" "x < 1"
  have a: "\<lceil>x\<rceil> = 1" using x by (simp add: ceiling_eq_iff)
  have b: "\<lceil>2 * x\<rceil> \<le> 2" using x by (simp add: ceiling_le_iff)
  have c: "1 < 1 / x" using x by (simp add: field_simps)
  show "(2 * x, x) \<in> measure (\<lambda>x. nat \<lceil>x\<rceil> + 2 * nat \<lceil>1 / x\<rceil>)"
  proof (cases "2 * x \<le> 1")
    case True
    then have "2 \<le> 1 / x" using x by (simp add: field_simps)
    then have "1 / (2 * x) \<le> 1 / x - 1" using x by (simp add: field_simps)
    then have "\<lceil>1 / (2 * x)\<rceil> \<le> \<lceil>1 / x\<rceil> - 1"
      by (metis ceiling_diff_one ceiling_mono)
    moreover have "\<lceil>2 * x\<rceil> = 1" using True x by (simp add: ceiling_eq_iff)
    moreover have "0 < \<lceil>1 / (2 * x)\<rceil>" using x by simp
    ultimately show ?thesis using a by simp
  next
    case False
    then have "1 / (2 * x) < 1" using x by (simp add: field_simps)
    then have d: "\<lceil>1 / (2 * x)\<rceil> \<le> 1" by (simp add: ceiling_le_iff)
    have "2 \<le> \<lceil>1 / x\<rceil>" using c by (simp add: le_ceiling_iff)
    with a b d show ?thesis unfolding in_measure by linarith
  qed
next
  fix x :: rat
  assume x: "\<not> x \<le> 0" "\<not> x < 1" "2 \<le> x"
  have "x / 2 \<le> x - 1" using x by simp
  then have "\<lceil>x / 2\<rceil> \<le> \<lceil>x\<rceil> - 1" by (metis ceiling_diff_one ceiling_mono)
  moreover have "0 < \<lceil>x / 2\<rceil>" using x by simp
  moreover have "\<lceil>1 / (x / 2)\<rceil> = 1" using x by (simp add: ceiling_eq_iff field_simps)
  moreover have "\<lceil>1 / x\<rceil> = 1" using x by (simp add: ceiling_eq_iff field_simps)
  ultimately show "(x / 2, x) \<in> measure (\<lambda>x. nat \<lceil>x\<rceil> + 2 * nat \<lceil>1 / x\<rceil>)"
    by simp
qed

declare ilog2.simps [simp del]

lemma ilog2_bounds: "0 < x \<Longrightarrow> 2 powi ilog2 x \<le> x \<and> x < 2 powi (ilog2 x + 1)"
proof (induction x rule: ilog2.induct)
  case (1 x)
  consider "x < 1" | "2 \<le> x" | "1 \<le> x" "x < 2" by linarith
  then show ?case
  proof cases
    case 1
    then have "2 powi ilog2 (2 * x) \<le> 2 * x \<and> 2 * x < 2 powi (ilog2 (2 * x) + 1)"
      using "1.IH"(1) "1.prems" by simp
    with 1 "1.prems" show ?thesis
      by (simp add: ilog2.simps [of x] power_int_diff power_int_add field_simps)
  next
    case 2
    then have "2 powi ilog2 (x / 2) \<le> x / 2 \<and> x / 2 < 2 powi (ilog2 (x / 2) + 1)"
      using "1.IH"(2) "1.prems" by simp
    with 2 show ?thesis
      by (simp add: ilog2.simps [of x] power_int_add field_simps)
  next
    case 3
    then show ?thesis by (simp add: ilog2.simps [of x])
  qed
qed

lemma ilog2_mono:
  assumes "0 < x" "x \<le> y"
  shows "ilog2 x \<le> ilog2 y"
proof (rule ccontr)
  assume "\<not> ilog2 x \<le> ilog2 y"
  then have "(2 :: rat) powi (ilog2 y + 1) \<le> 2 powi ilog2 x"
    by (intro power_int_increasing) auto
  moreover have "y < 2 powi (ilog2 y + 1)" using ilog2_bounds [of y] assms by simp
  moreover have "2 powi ilog2 x \<le> x" using ilog2_bounds [of x] assms by simp
  ultimately show False using assms by linarith
qed

text \<open>Round to the nearest integer, ties to the even one.\<close>

definition rne :: "rat \<Rightarrow> int" where
  "rne x =
     (let f = \<lfloor>x\<rfloor>; d = x - of_int f
      in if d < 1 / 2 then f else if 1 / 2 < d then f + 1 else if even f then f else f + 1)"

lemma rne_bounds: "\<lfloor>x\<rfloor> \<le> rne x \<and> rne x \<le> \<lfloor>x\<rfloor> + 1"
  by (auto simp: rne_def Let_def)

lemma rne_mono:
  assumes "x \<le> y"
  shows "rne x \<le> rne y"
proof (cases "\<lfloor>x\<rfloor> = \<lfloor>y\<rfloor>")
  case True
  with assms show ?thesis by (auto simp: rne_def Let_def)
next
  case False
  with floor_mono [OF assms] have "\<lfloor>x\<rfloor> + 1 \<le> \<lfloor>y\<rfloor>" by simp
  then show ?thesis using rne_bounds [of x] rne_bounds [of y] by linarith
qed

lemma rne_of_int [simp]: "rne (of_int n) = n"
  by (simp add: rne_def)

lemma rne_zero [simp]: "rne 0 = 0"
  using rne_of_int [of 0] by simp

text \<open>
  The weight of the last bit of a magnitude: 52 bits below its leading bit, and never
  below \<open>2^-1074\<close> (the subnormal range).
\<close>

definition ulp_exp :: "rat \<Rightarrow> int" where
  "ulp_exp x = max (ilog2 x - 52) (- 1074)"

definition rnd_mag :: "rat \<Rightarrow> rat" where
  "rnd_mag x = of_int (rne (x / 2 powi ulp_exp x)) * 2 powi ulp_exp x"

definition max_mag :: rat where
  "max_mag = 2 ^ 1024"

lemma rnd_mag_nonneg: "0 \<le> x \<Longrightarrow> 0 \<le> rnd_mag x"
proof -
  assume "0 \<le> x"
  then have "rne 0 \<le> rne (x / 2 powi ulp_exp x)"
    by (intro rne_mono) simp
  then show ?thesis by (simp add: rnd_mag_def)
qed

lemma rne_le_pow2:
  assumes "x \<le> 2 powi k" "0 \<le> k"
  shows "of_int (rne x) \<le> (2 :: rat) powi k"
proof -
  have k: "(2 :: rat) powi k = of_int (2 ^ nat k)" using assms(2) by (simp add: power_int_def)
  then have "rne x \<le> rne (of_int (2 ^ nat k))" using assms(1) by (intro rne_mono) simp
  then show ?thesis by (metis k of_int_le_iff rne_of_int)
qed

lemma rne_ge_pow2:
  assumes "2 powi k \<le> x" "0 \<le> k"
  shows "(2 :: rat) powi k \<le> of_int (rne x)"
proof -
  have k: "(2 :: rat) powi k = of_int (2 ^ nat k)" using assms(2) by (simp add: power_int_def)
  then have "rne (of_int (2 ^ nat k)) \<le> rne x" using assms(1) by (intro rne_mono) simp
  then show ?thesis by (metis k of_int_le_iff rne_of_int)
qed

text \<open>Rounding never crosses a power of two that is a multiple of the last bit.\<close>

lemma rnd_mag_le_pow2:
  assumes "x \<le> 2 powi k" "ulp_exp x \<le> k"
  shows "rnd_mag x \<le> 2 powi k"
proof -
  have "x / 2 powi ulp_exp x \<le> 2 powi (k - ulp_exp x)"
    using assms(1) by (simp add: power_int_diff divide_right_mono)
  then have "of_int (rne (x / 2 powi ulp_exp x)) \<le> (2 :: rat) powi (k - ulp_exp x)"
    using assms(2) by (intro rne_le_pow2) auto
  then show ?thesis
    by (simp add: rnd_mag_def power_int_diff field_simps)
qed

lemma rnd_mag_ge_pow2:
  assumes "2 powi k \<le> x" "ulp_exp x \<le> k"
  shows "2 powi k \<le> rnd_mag x"
proof -
  have "2 powi (k - ulp_exp x) \<le> x / 2 powi ulp_exp x"
    using assms(1) by (simp add: power_int_diff divide_right_mono)
  then have "(2 :: rat) powi (k - ulp_exp x) \<le> of_int (rne (x / 2 powi ulp_exp x))"
    using assms(2) by (intro rne_ge_pow2) auto
  then show ?thesis
    by (simp add: rnd_mag_def power_int_diff field_simps)
qed

lemma rnd_mag_mono:
  assumes "0 < x" "x \<le> y"
  shows "rnd_mag x \<le> rnd_mag y"
proof (cases "ulp_exp x = ulp_exp y")
  case True
  then have "rne (x / 2 powi ulp_exp x) \<le> rne (y / 2 powi ulp_exp x)"
    using assms by (intro rne_mono divide_right_mono) simp_all
  with True show ?thesis by (simp add: rnd_mag_def)
next
  case False
  have e: "ilog2 x \<le> ilog2 y" using assms by (rule ilog2_mono)
  with False have q: "ulp_exp y = ilog2 y - 52" "ulp_exp x \<le> ilog2 y" "ilog2 x < ilog2 y"
    by (auto simp: ulp_exp_def max_def split: if_splits)
  have "x \<le> 2 powi ilog2 y"
  proof -
    have "x < 2 powi (ilog2 x + 1)" using ilog2_bounds [of x] assms by simp
    also have "(2 :: rat) powi (ilog2 x + 1) \<le> 2 powi ilog2 y"
      using q(3) by (intro power_int_increasing) auto
    finally show ?thesis by simp
  qed
  then have "rnd_mag x \<le> 2 powi ilog2 y" using q(2) by (rule rnd_mag_le_pow2)
  also have "2 powi ilog2 y \<le> rnd_mag y"
    using ilog2_bounds [of y] assms q(1) by (intro rnd_mag_ge_pow2) auto
  finally show ?thesis .
qed

section \<open>Operations\<close>

text \<open>Round an exact result; \<open>z\<close> is the sign of an exact zero.\<close>

definition fround :: "bool \<Rightarrow> rat \<Rightarrow> f64" where
  "fround z r =
     (if r = 0 then Fin z 0
      else let m = rnd_mag \<bar>r\<bar> in if max_mag \<le> m then Inf (r < 0) else Fin (r < 0) m)"

text \<open>A decimal literal of the source: the nearest value.\<close>

abbreviation flit :: "rat \<Rightarrow> f64" where
  "flit r \<equiv> fround False r"

abbreviation fzero :: f64 where
  "fzero \<equiv> Fin False 0"

fun fneg :: "f64 \<Rightarrow> f64" where
  "fneg NaN = NaN"
| "fneg (Inf s) = Inf (\<not> s)"
| "fneg (Fin s m) = Fin (\<not> s) m"

fun fadd :: "f64 \<Rightarrow> f64 \<Rightarrow> f64" where
  "fadd NaN _ = NaN"
| "fadd _ NaN = NaN"
| "fadd (Inf s) (Inf t) = (if s = t then Inf s else NaN)"
| "fadd (Inf s) (Fin _ _) = Inf s"
| "fadd (Fin _ _) (Inf t) = Inf t"
| "fadd (Fin s m) (Fin t n) = fround (s \<and> t) (fval (Fin s m) + fval (Fin t n))"

definition fsub :: "f64 \<Rightarrow> f64 \<Rightarrow> f64" where
  "fsub a b = fadd a (fneg b)"

fun fmul :: "f64 \<Rightarrow> f64 \<Rightarrow> f64" where
  "fmul NaN _ = NaN"
| "fmul _ NaN = NaN"
| "fmul (Inf s) (Inf t) = Inf (s \<noteq> t)"
| "fmul (Inf s) (Fin t n) = (if n = 0 then NaN else Inf (s \<noteq> t))"
| "fmul (Fin s m) (Inf t) = (if m = 0 then NaN else Inf (s \<noteq> t))"
| "fmul (Fin s m) (Fin t n) = fround (s \<noteq> t) (fval (Fin s m) * fval (Fin t n))"

fun fdiv :: "f64 \<Rightarrow> f64 \<Rightarrow> f64" where
  "fdiv NaN _ = NaN"
| "fdiv _ NaN = NaN"
| "fdiv (Inf s) (Inf t) = NaN"
| "fdiv (Inf s) (Fin t n) = Inf (s \<noteq> t)"
| "fdiv (Fin s m) (Inf t) = Fin (s \<noteq> t) 0"
| "fdiv (Fin s m) (Fin t n) =
     (if n = 0 then (if m = 0 then NaN else Inf (s \<noteq> t))
      else fround (s \<noteq> t) (fval (Fin s m) / fval (Fin t n)))"

text \<open>The comparisons are false on NaN, and the two zeros are equal.\<close>

fun fle :: "f64 \<Rightarrow> f64 \<Rightarrow> bool" where
  "fle NaN _ = False"
| "fle _ NaN = False"
| "fle (Inf s) (Inf t) = (s \<or> \<not> t)"
| "fle (Inf s) (Fin _ _) = s"
| "fle (Fin _ _) (Inf t) = (\<not> t)"
| "fle (Fin s m) (Fin t n) = (fval (Fin s m) \<le> fval (Fin t n))"

definition flt :: "f64 \<Rightarrow> f64 \<Rightarrow> bool" where
  "flt a b \<longleftrightarrow> fle a b \<and> \<not> fle b a"

text \<open>\<open>f64::max\<close>: a NaN operand is ignored.\<close>

definition fmax :: "f64 \<Rightarrow> f64 \<Rightarrow> f64" where
  "fmax a b = (if is_nan a then b else if is_nan b then a else if fle a b then b else a)"

text \<open>\<open>n as f64\<close> for an unsigned integer, and the saturating \<open>x as usize\<close>.\<close>

definition f64_of_usize :: "nat \<Rightarrow> f64" where
  "f64_of_usize n = fround False (of_nat n)"

fun usize_of_f64 :: "f64 \<Rightarrow> nat" where
  "usize_of_f64 NaN = 0"
| "usize_of_f64 (Inf s) = (if s then 0 else 2 ^ 64 - 1)"
| "usize_of_f64 (Fin s m) = (if s then 0 else min (nat \<lfloor>m\<rfloor>) (2 ^ 64 - 1))"

text \<open>\<open>{:.p}\<close>: exactly \<open>p\<close> digits after the point, the exact value rounded half to even.\<close>

fun pad_zeros :: "nat \<Rightarrow> string \<Rightarrow> string" where
  "pad_zeros n s = replicate (n - length s) (CHR ''0'') @ s"

fun fmt_fixed :: "nat \<Rightarrow> f64 \<Rightarrow> string" where
  "fmt_fixed p NaN = ''NaN''"
| "fmt_fixed p (Inf s) = (if s then ''-inf'' else ''inf'')"
| "fmt_fixed p (Fin s m) =
     (let k = nat (rne (m * 10 ^ p)); w = show_nat (k div 10 ^ p); f = show_nat (k mod 10 ^ p)
      in (if s then ''-'' else []) @ w @ (if p = 0 then [] else CHR ''.'' # pad_zeros p f))"

section \<open>Evaluation\<close>

lemma floor_rat_numeral [simp]:
  "\<lfloor>numeral a / numeral b :: rat\<rfloor> = numeral a div numeral b"
  using floor_divide_of_int_eq [of "numeral a" "numeral b"] by simp

lemma floor_rat_one_numeral [simp]:
  "\<lfloor>1 / numeral b :: rat\<rfloor> = 1 div numeral b"
  using floor_divide_of_int_eq [of 1 "numeral b"] by simp

lemmas f64_eval =
  fround_def rnd_mag_def ulp_exp_def ilog2.simps rne_def max_mag_def Let_def

section \<open>Order and monotonicity\<close>

lemma fle_refl: "\<not> is_nan a \<Longrightarrow> fle a a"
  by (cases a) auto

lemma fle_trans: "fle a b \<Longrightarrow> fle b c \<Longrightarrow> fle a c"
  by (cases a; cases b; cases c) auto

lemma fle_total: "\<not> is_nan a \<Longrightarrow> \<not> is_nan b \<Longrightarrow> fle a b \<or> fle b a"
  by (cases a; cases b) auto

lemma fle_not_nan: "fle a b \<Longrightarrow> \<not> is_nan a \<and> \<not> is_nan b"
  by (cases a; cases b) auto

lemma flt_irrefl [simp]: "\<not> flt a a"
  by (simp add: flt_def)

lemma not_flt: "\<not> is_nan a \<Longrightarrow> \<not> is_nan b \<Longrightarrow> \<not> flt a b \<longleftrightarrow> fle b a"
  using fle_total [of a b] by (auto simp: flt_def)

lemma fround_not_nan [simp]: "\<not> is_nan (fround z r)"
  by (auto simp: fround_def Let_def)

lemma fround_pos_nonneg: "0 \<le> r \<Longrightarrow> fle fzero (fround z r)"
  by (auto simp: fround_def Let_def rnd_mag_nonneg)

lemma fround_neg_nonpos: "r \<le> 0 \<Longrightarrow> fle (fround z r) (Fin z' 0)"
  by (auto simp: fround_def Let_def rnd_mag_nonneg)

lemma fround_mono:
  assumes "r \<le> q"
  shows "fle (fround z r) (fround z' q)"
proof -
  consider "0 < r" | "q < 0" | "r \<le> 0" "0 \<le> q" by linarith
  then show ?thesis
  proof cases
    case 1
    with rnd_mag_mono [of r q] assms show ?thesis
      by (auto simp: fround_def Let_def)
  next
    case 2
    with rnd_mag_mono [of "- q" "- r"] assms show ?thesis
      by (auto simp: fround_def Let_def)
  next
    case 3
    then show ?thesis
      using fle_trans [OF fround_neg_nonpos fround_pos_nonneg] by blast
  qed
qed

text \<open>
  Rounded addition is monotone in each operand wherever both sums are numbers: the fact
  the dynamic programme over \<open>f64\<close> values rests on.
\<close>

lemma fle_Inf [simp]: "\<not> is_nan a \<Longrightarrow> fle (Inf True) a" "\<not> is_nan a \<Longrightarrow> fle a (Inf False)"
  by (cases a; simp)+

lemma fadd_mono:
  assumes "fle a b" "\<not> is_nan (fadd a c)" "\<not> is_nan (fadd b c)"
  shows "fle (fadd a c) (fadd b c)"
  using assms by (cases a; cases b; cases c) (auto intro: fround_mono split: if_splits)

text \<open>An increasing operand can turn a sum into NaN only when the sum was the least value.\<close>

lemma fadd_nan_right:
  assumes "fle a b" "\<not> is_nan (fadd a c)" "is_nan (fadd b c)"
  shows "fadd a c = Inf True"
  using assms by (cases a; cases b; cases c) (auto split: if_splits)

lemma fadd_nan_iff_const: "is_nan (fadd a c) \<longleftrightarrow>
    is_nan a \<or> is_nan c \<or> (\<exists>s. a = Inf s \<and> c = Inf (\<not> s))"
  by (cases a; cases c) auto

end
