(* ===== verification/BloomExec.thy ===== *)
theory BloomExec
  imports Plan F64
begin

text \<open>
  The operators of \<open>physical-optimizer/src/bloom_filter_transfer.rs\<close>: the payload a build
  sends, \<open>BloomFilterBuildExec\<close> and \<open>BloomFilterProbeExec\<close> as functions on streams, and
  the metrics a probe writes. A stream is the list of items it yields. The crates the
  operators call are parameters: the Bloom filter (\<open>bloomfilter\<close>) and Arrow's
  \<open>filter_record_batch\<close>; the clock and what \<open>recv\<close> returned are arguments.
\<close>

section \<open>Parameters\<close>

record 'bf externals =
  bf_new :: "nat \<Rightarrow> f64 \<Rightarrow> 'bf option"
  bf_set :: "'bf \<Rightarrow> string \<Rightarrow> 'bf"
  bf_check :: "'bf \<Rightarrow> string \<Rightarrow> bool"
  filter_record_batch :: "batch \<Rightarrow> bool list \<Rightarrow> string + batch"

text \<open>
  What the crates document. A Bloom filter has no false negatives: what was set is found,
  and setting more loses nothing; a filter for at least one item at a rate between 0 and 1
  can be made. \<open>filter_record_batch\<close> keeps the rows whose mask bit is set, when mask and
  batch have the same length.
\<close>

definition filter_batch :: "batch \<Rightarrow> bool list \<Rightarrow> batch" where
  "filter_batch b keep = b\<lparr>rows := map fst (filter snd (zip (rows b) keep))\<rparr>"

definition bloom_spec :: "'bf externals \<Rightarrow> bool" where
  "bloom_spec ext \<longleftrightarrow>
     (\<forall>n. 0 < n \<longrightarrow> bf_new ext n (flit (1 / 100)) \<noteq> None) \<and>
     (\<forall>b x. bf_check ext (bf_set ext b x) x) \<and>
     (\<forall>b x y. bf_check ext b x \<longrightarrow> bf_check ext (bf_set ext b y) x)"

definition filter_spec :: "'bf externals \<Rightarrow> bool" where
  "filter_spec ext \<longleftrightarrow>
     (\<forall>b keep. length keep = num_rows b \<longrightarrow> filter_record_batch ext b keep = Inr (filter_batch b keep))"

section \<open>Payload and metrics\<close>

record 'bf bloom_payload =
  bp_filter :: 'bf
  bp_build_cardinality :: nat
  bp_distinct_estimate :: nat
  bp_filter_size_bytes :: nat
  bp_build_time_ms :: f64

record filter_metrics =
  query_id :: string
  col_name :: string
  build_cardinality :: nat
  distinct_estimate :: nat
  filter_size_bytes :: nat
  build_time_ms :: f64
  probe_batches :: nat
  rows_in :: nat
  rows_out :: nat
  rows_eliminated :: nat
  probe_time_ms :: f64

definition elimination_rate :: "filter_metrics \<Rightarrow> f64" where
  "elimination_rate m =
     (if rows_in m = 0 then flit 0
      else fdiv (f64_of_usize (rows_eliminated m)) (f64_of_usize (rows_in m)))"

definition net_benefit_ms :: "filter_metrics \<Rightarrow> f64" where
  "net_benefit_ms m =
     (let scan_ms_per_row = flit (1 / 1000);
          saved_ms = fmul (f64_of_usize (rows_eliminated m)) scan_ms_per_row
      in fsub (fsub saved_ms (build_time_ms m)) (probe_time_ms m))"

definition was_beneficial :: "filter_metrics \<Rightarrow> nat" where
  "was_beneficial m = (if flt (flit 0) (net_benefit_ms m) then 1 else 0)"

definition newline :: char where
  "newline = CHR 0x0A"

fun join_with :: "char \<Rightarrow> string list \<Rightarrow> string" where
  "join_with sep [] = []"
| "join_with sep [s] = s"
| "join_with sep (s # t # ss) = s @ sep # join_with sep (t # ss)"

definition csv_fields :: "filter_metrics \<Rightarrow> string list" where
  "csv_fields m =
     [query_id m, col_name m, show_nat (build_cardinality m), show_nat (distinct_estimate m),
      show_nat (filter_size_bytes m), fmt_fixed 4 (build_time_ms m), show_nat (probe_batches m),
      show_nat (rows_in m), show_nat (rows_out m), show_nat (rows_eliminated m),
      fmt_fixed 4 (probe_time_ms m), fmt_fixed 4 (net_benefit_ms m), show_nat (was_beneficial m)]"

definition to_csv_row :: "filter_metrics \<Rightarrow> string" where
  "to_csv_row m = join_with (CHR '','') (csv_fields m) @ [newline]"

definition metrics_header :: string where
  "metrics_header =
     ''query_id,col_name,build_cardinality,distinct_estimate,filter_size_bytes,build_time_ms,probe_batches,rows_in,rows_out,rows_eliminated,probe_time_ms,net_benefit_ms,was_beneficial''
     @ [newline]"

text \<open>The metrics file: absent, or its contents; it is opened in append mode.\<close>

definition write_metrics :: "filter_metrics \<Rightarrow> string option \<Rightarrow> string option" where
  "write_metrics m file =
     (let write_header = (case file of None \<Rightarrow> True | Some content \<Rightarrow> content = []);
          old = (case file of None \<Rightarrow> [] | Some content \<Rightarrow> content)
      in Some (old @ (if write_header then metrics_header else []) @ to_csv_row m))"

section \<open>Keys\<close>

text \<open>
  \<open>arr.value(i).to_string()\<close> for the three array types the code downcasts to; other types
  give nothing.
\<close>

fun key_string :: "data_type \<Rightarrow> cell \<Rightarrow> string option" where
  "key_string Int32 (CInt i) = Some (show_int i)"
| "key_string Int64 (CInt i) = Some (show_int i)"
| "key_string Utf8 (CStr s) = Some s"
| "key_string _ _ = None"

definition batch_values :: "nat \<Rightarrow> batch \<Rightarrow> string list" where
  "batch_values k b = List.map_filter (\<lambda>r. key_string (col_types b ! k) (r ! k)) (rows b)"

section \<open>BloomFilterBuildExec\<close>

fun build_collect ::
  "nat \<Rightarrow> batch res list \<Rightarrow> string list \<Rightarrow> batch list \<Rightarrow> (string list \<times> batch list) res" where
  "build_collect k [] vs bs = Inr (vs, bs)"
| "build_collect k (Inl e # items) vs bs = Inl e"
| "build_collect k (Inr b # items) vs bs =
     (if k < length (col_types b) then build_collect k items (vs @ batch_values k b) (bs @ [b])
      else Inl IndexOutOfBounds)"

definition build_payload :: "'bf externals \<Rightarrow> f64 \<Rightarrow> string list \<Rightarrow> 'bf \<Rightarrow> 'bf bloom_payload" where
  "build_payload ext elapsed_s all_values bf0 =
     \<lparr>bp_filter = foldl (bf_set ext) bf0 all_values,
      bp_build_cardinality = length all_values,
      bp_distinct_estimate = card (set all_values),
      bp_filter_size_bytes = wmul (length all_values) 2,
      bp_build_time_ms = fmul elapsed_s (flit 1000)\<rparr>"

text \<open>
  The stream: on an input error it yields the error and ends; otherwise it sends the
  payload and then yields the batches it held back. The second component is what was sent.
\<close>

definition build_stream ::
  "'bf externals \<Rightarrow> nat \<Rightarrow> f64 \<Rightarrow> batch res list \<Rightarrow> batch res list \<times> 'bf bloom_payload option" where
  "build_stream ext key_column elapsed_s input =
     (case build_collect key_column input [] [] of
        Inl e \<Rightarrow> ([Inl e], None)
      | Inr (all_values, batches) \<Rightarrow>
          (case bf_new ext (max (length all_values) 1) (flit (1 / 100)) of
             None \<Rightarrow> ([Inl (Panic ''called `Result::unwrap()` on an `Err` value'')], None)
           | Some bf0 \<Rightarrow> (map Inr batches, Some (build_payload ext elapsed_s all_values bf0))))"

definition key_position :: "schema \<Rightarrow> string \<Rightarrow> nat option" where
  "key_position sch key = position (\<lambda>f. field_name f = key) (schema_fields sch)"

definition build_execute ::
  "'bf externals \<Rightarrow> schema \<Rightarrow> string \<Rightarrow> f64 \<Rightarrow> batch res list res
    \<Rightarrow> (batch res list \<times> 'bf bloom_payload option) res" where
  "build_execute ext sch key_column_name elapsed_s input_execute =
     (case key_position sch key_column_name of
        None \<Rightarrow> Inl (Plan (''BloomFilterBuildExec: column '' @ CHR 0x27 # key_column_name @ CHR 0x27 # '' not found''))
      | Some key_column \<Rightarrow>
          bind_res input_execute (\<lambda>input. Inr (build_stream ext key_column elapsed_s input)))"

section \<open>BloomFilterProbeExec\<close>

definition probe_row :: "'bf externals \<Rightarrow> 'bf \<Rightarrow> data_type \<Rightarrow> cell \<Rightarrow> bool" where
  "probe_row ext bf ty c =
     (if c = CNull then False
      else case key_string ty c of None \<Rightarrow> True | Some v \<Rightarrow> bf_check ext bf v)"

definition probe_keep :: "'bf externals \<Rightarrow> 'bf \<Rightarrow> nat \<Rightarrow> batch \<Rightarrow> bool list" where
  "probe_keep ext bf k b = map (\<lambda>r. probe_row ext bf (col_types b ! k) (r ! k)) (rows b)"

record probe_counts =
  pc_batches :: nat
  pc_rows_in :: nat
  pc_rows_out :: nat

text \<open>
  The probe loop: an error of the input is passed on and the loop goes on; an error of the
  filter kernel is passed on too. \<open>None\<close> in the second component: the loop panicked.
\<close>

fun probe_loop ::
  "'bf externals \<Rightarrow> 'bf \<Rightarrow> nat \<Rightarrow> batch res list \<Rightarrow> probe_counts
    \<Rightarrow> batch res list \<times> probe_counts option" where
  "probe_loop ext bf k [] pc = ([], Some pc)"
| "probe_loop ext bf k (Inl e # items) pc =
     (let (out, r) = probe_loop ext bf k items pc in (Inl e # out, r))"
| "probe_loop ext bf k (Inr b # items) pc =
     (if length (col_types b) \<le> k then ([Inl IndexOutOfBounds], None)
      else case filter_record_batch ext b (probe_keep ext bf k b) of
        Inr filtered \<Rightarrow>
          (let pc' = \<lparr>pc_batches = wadd (pc_batches pc) 1,
                      pc_rows_in = wadd (pc_rows_in pc) (num_rows b),
                      pc_rows_out = wadd (pc_rows_out pc) (num_rows filtered)\<rparr>;
               (out, r) = probe_loop ext bf k items pc'
           in (Inr filtered # out, r))
      | Inl e \<Rightarrow>
          (let (out, r) = probe_loop ext bf k items pc in (Inl (ArrowError e) # out, r)))"

definition probe_metrics ::
  "string \<Rightarrow> string \<Rightarrow> 'bf bloom_payload \<Rightarrow> probe_counts \<Rightarrow> f64 \<Rightarrow> filter_metrics" where
  "probe_metrics qid col payload pc elapsed_s =
     \<lparr>query_id = qid, col_name = col,
      build_cardinality = bp_build_cardinality payload,
      distinct_estimate = bp_distinct_estimate payload,
      filter_size_bytes = bp_filter_size_bytes payload,
      build_time_ms = bp_build_time_ms payload,
      probe_batches = pc_batches pc, rows_in = pc_rows_in pc, rows_out = pc_rows_out pc,
      rows_eliminated = wsub (pc_rows_in pc) (pc_rows_out pc),
      probe_time_ms = fmul elapsed_s (flit 1000)\<rparr>"

text \<open>
  The stream: \<open>recv\<close> failing (the receiver lagged, or the channel closed) lets the whole
  input through; otherwise the payload's filter is applied and the metrics are written.
\<close>

definition probe_stream ::
  "'bf externals \<Rightarrow> (string \<Rightarrow> string option) \<Rightarrow> nat \<Rightarrow> string \<Rightarrow> 'bf bloom_payload option
    \<Rightarrow> f64 \<Rightarrow> batch res list \<Rightarrow> batch res list \<times> filter_metrics option" where
  "probe_stream ext env key_column key_column_name recv elapsed_s input =
     (case recv of
        None \<Rightarrow> (input, None)
      | Some payload \<Rightarrow>
          (let (out, r) = probe_loop ext (bp_filter payload) key_column input
                            \<lparr>pc_batches = 0, pc_rows_in = 0, pc_rows_out = 0\<rparr>;
               qid = (case env ''BF_QUERY_ID'' of None \<Rightarrow> ''unknown'' | Some q \<Rightarrow> q)
           in (out, map_option (\<lambda>pc. probe_metrics qid key_column_name payload pc elapsed_s) r)))"

definition probe_execute ::
  "'bf externals \<Rightarrow> (string \<Rightarrow> string option) \<Rightarrow> schema \<Rightarrow> string \<Rightarrow> 'bf bloom_payload option
    \<Rightarrow> f64 \<Rightarrow> batch res list res \<Rightarrow> (batch res list \<times> filter_metrics option) res" where
  "probe_execute ext env sch key_column_name recv elapsed_s input_execute =
     (case key_position sch key_column_name of
        None \<Rightarrow> Inl (Plan (''BloomFilterProbeExec: column '' @ CHR 0x27 # key_column_name @ CHR 0x27 # '' not found''))
      | Some key_column \<Rightarrow>
          bind_res input_execute (\<lambda>input.
            Inr (probe_stream ext env key_column key_column_name recv elapsed_s input)))"

section \<open>The build loop\<close>

lemma build_collect_ok:
  "\<forall>b \<in> set bs. k < length (col_types b) \<Longrightarrow>
     build_collect k (map Inr bs) vs acc = Inr (vs @ concat (map (batch_values k) bs), acc @ bs)"
  by (induction bs arbitrary: vs acc) auto

lemma build_collect_error:
  "\<forall>b \<in> set bs. k < length (col_types b) \<Longrightarrow>
     build_collect k (map Inr bs @ Inl e # items) vs acc = Inl e"
  by (induction bs arbitrary: vs acc) auto

lemma bloom_set_all:
  assumes "bloom_spec ext" "x \<in> set xs \<or> bf_check ext b x"
  shows "bf_check ext (foldl (bf_set ext) b xs) x"
  using assms(2)
proof (induction xs arbitrary: b)
  case (Cons y xs)
  with assms(1) show ?case by (fastforce simp: bloom_spec_def)
qed simp

lemma in_batch_values:
  "v \<in> set (batch_values k b) \<longleftrightarrow> (\<exists>r \<in> set (rows b). key_string (col_types b ! k) (r ! k) = Some v)"
  by (force simp: batch_values_def map_filter_def)

lemma build_stream_ok:
  assumes "bloom_spec ext" "\<forall>b \<in> set bs. k < length (col_types b)"
  obtains bf0 where
    "build_stream ext k t (map Inr bs) =
       (map Inr bs, Some (build_payload ext t (concat (map (batch_values k) bs)) bf0))"
proof -
  let ?vs = "concat (map (batch_values k) bs)"
  obtain bf0 where "bf_new ext (max (length ?vs) 1) (flit (1 / 100)) = Some bf0"
    using assms(1) by (fastforce simp: bloom_spec_def)
  then have "build_stream ext k t (map Inr bs) = (map Inr bs, Some (build_payload ext t ?vs bf0))"
    using build_collect_ok [OF assms(2), of "[]" "[]"] by (simp add: build_stream_def)
  then show ?thesis by (rule that)
qed

section \<open>The probe loop\<close>

definition probe_batch :: "'bf externals \<Rightarrow> 'bf \<Rightarrow> nat \<Rightarrow> batch \<Rightarrow> batch" where
  "probe_batch ext bf k b =
     b\<lparr>rows := filter (\<lambda>r. probe_row ext bf (col_types b ! k) (r ! k)) (rows b)\<rparr>"

lemma filter_batch_keep: "filter_batch b (probe_keep ext bf k b) = probe_batch ext bf k b"
proof -
  have "map fst (filter snd (zip xs (map P xs))) = filter P xs" for P and xs :: "row list"
    by (induction xs) auto
  then show ?thesis by (simp add: filter_batch_def probe_batch_def probe_keep_def)
qed

lemma filter_record_batch_keep:
  "filter_spec ext \<Longrightarrow>
     filter_record_batch ext b (probe_keep ext bf k b) = Inr (probe_batch ext bf k b)"
  using filter_batch_keep [of b ext bf k] by (simp add: filter_spec_def probe_keep_def num_rows_def)

text \<open>Every item of the input gives one item of the output, in order.\<close>

lemma probe_loop_items:
  assumes "filter_spec ext" "\<forall>b. Inr b \<in> set items \<longrightarrow> k < length (col_types b)"
  shows "fst (probe_loop ext bf k items pc) = map (map_sum id (probe_batch ext bf k)) items"
  using assms(2)
proof (induction items arbitrary: pc)
  case (Cons it items)
  show ?case
  proof (cases it)
    case (Inl e)
    with Cons show ?thesis by (simp add: case_prod_unfold Let_def)
  next
    case (Inr b)
    with Cons.prems have "k < length (col_types b)" by simp
    with Inr Cons show ?thesis
      by (simp add: filter_record_batch_keep [OF assms(1)] case_prod_unfold Let_def)
  qed
qed simp

abbreviation total_rows :: "batch list \<Rightarrow> nat" where
  "total_rows bs \<equiv> sum_list (map num_rows bs)"

lemma probe_batch_num_rows: "num_rows (probe_batch ext bf k b) \<le> num_rows b"
  by (simp add: num_rows_def probe_batch_def)

lemma probe_loop_counts:
  assumes "filter_spec ext" "\<forall>b \<in> set bs. k < length (col_types b)"
    and "pc_batches pc + length bs < usize_mod" "pc_rows_in pc + total_rows bs < usize_mod"
    and "pc_rows_out pc \<le> pc_rows_in pc"
  shows "snd (probe_loop ext bf k (map Inr bs) pc) =
           Some \<lparr>pc_batches = pc_batches pc + length bs,
                 pc_rows_in = pc_rows_in pc + total_rows bs,
                 pc_rows_out = pc_rows_out pc + total_rows (map (probe_batch ext bf k) bs)\<rparr>"
  using assms(2-)
proof (induction bs arbitrary: pc)
  case (Cons b bs)
  let ?pc = "\<lparr>pc_batches = wadd (pc_batches pc) 1, pc_rows_in = wadd (pc_rows_in pc) (num_rows b),
               pc_rows_out = wadd (pc_rows_out pc) (num_rows (probe_batch ext bf k b))\<rparr>"
  have w: "wadd (pc_batches pc) (Suc 0) = Suc (pc_batches pc)"
    "wadd (pc_rows_in pc) (num_rows b) = pc_rows_in pc + num_rows b"
    "wadd (pc_rows_out pc) (num_rows (probe_batch ext bf k b)) = pc_rows_out pc + num_rows (probe_batch ext bf k b)"
    using Cons.prems probe_batch_num_rows [of ext bf k b] by (simp_all add: usize_simps)
  have "snd (probe_loop ext bf k (map Inr bs) ?pc) =
          Some \<lparr>pc_batches = pc_batches ?pc + length bs, pc_rows_in = pc_rows_in ?pc + total_rows bs,
                pc_rows_out = pc_rows_out ?pc + total_rows (map (probe_batch ext bf k) bs)\<rparr>"
    using Cons.prems probe_batch_num_rows [of ext bf k b] by (intro Cons.IH) (auto simp: w)
  with Cons.prems show ?case
    by (simp add: filter_record_batch_keep [OF assms(1)] case_prod_unfold Let_def w)
qed simp

section \<open>Properties\<close>

text \<open>A filter without false positives or negatives: the set itself.\<close>

definition set_filter :: "string list externals" where
  "set_filter = \<lparr>bf_new = (\<lambda>n p. Some []), bf_set = (\<lambda>b x. x # b), bf_check = (\<lambda>b x. x \<in> set b),
                 filter_record_batch = (\<lambda>b keep. Inr (filter_batch b keep))\<rparr>"

lemma set_filter_specs: "bloom_spec set_filter" "filter_spec set_filter"
  by (simp_all add: bloom_spec_def filter_spec_def set_filter_def)

definition demo_batch :: batch where
  "demo_batch = \<lparr>col_types = [Int64, Utf8],
                 rows = [[CInt 1, CStr ''x''], [CInt 2, CNull], [CNull, CStr ''y''], [CInt 2, CStr ''z'']]\<rparr>"

text \<open>C24. The build operator is transparent and complete. On an error-free input it yields
  exactly the batches it read, and the filter it sends answers yes for the key of every
  row whose key is not null and of a supported type; the payload counts these keys, and
  its distinct count never exceeds that number.\<close>

theorem build_stream_transparent:
  assumes "bloom_spec ext" and "\<forall>b \<in> set bs. k < length (col_types b)"
  shows "\<exists>payload. build_stream ext k elapsed (map Inr bs) = (map Inr bs, Some payload)
           \<and> (\<forall>b \<in> set bs. \<forall>r \<in> set (rows b). \<forall>v. key_string (col_types b ! k) (r ! k) = Some v
                \<longrightarrow> bf_check ext (bp_filter payload) v)
           \<and> bp_build_cardinality payload = length (concat (map (batch_values k) bs))
           \<and> bp_distinct_estimate payload \<le> bp_build_cardinality payload"
proof -
  let ?vs = "concat (map (batch_values k) bs)"
  obtain bf0 where s: "build_stream ext k elapsed (map Inr bs) =
       (map Inr bs, Some (build_payload ext elapsed ?vs bf0))"
    using build_stream_ok [OF assms] by metis
  have "bf_check ext (foldl (bf_set ext) bf0 ?vs) v"
    if "b \<in> set bs" "r \<in> set (rows b)" "key_string (col_types b ! k) (r ! k) = Some v" for b r v
    using that by (intro bloom_set_all assms(1)) (auto simp: in_batch_values)
  moreover have "card (set ?vs) \<le> length ?vs" by (rule card_length)
  ultimately show ?thesis
    using s by (intro exI [of _ "build_payload ext elapsed ?vs bf0"]) (simp add: build_payload_def)
qed

theorem build_stream_transparent_witness:
  "\<exists>payload. build_stream set_filter 0 fzero (map Inr [demo_batch]) = (map Inr [demo_batch], Some payload)
     \<and> (\<forall>b \<in> set [demo_batch]. \<forall>r \<in> set (rows b). \<forall>v. key_string (col_types b ! 0) (r ! 0) = Some v
          \<longrightarrow> bf_check set_filter (bp_filter payload) v)
     \<and> bp_build_cardinality payload = length (concat (map (batch_values 0) [demo_batch]))
     \<and> bp_distinct_estimate payload \<le> bp_build_cardinality payload"
  by (rule build_stream_transparent) (simp_all add: set_filter_specs demo_batch_def)

text \<open>A build whose input fails yields that error and nothing else, and sends no filter:
  the batches read before the error are dropped.\<close>

theorem build_stream_error:
  assumes "\<forall>b \<in> set bs. k < length (col_types b)"
  shows "build_stream ext k elapsed (map Inr bs @ Inl e # items) = ([Inl e], None)"
  using build_collect_error [OF assms] by (simp add: build_stream_def)

theorem build_stream_error_witness:
  "build_stream set_filter 0 fzero (map Inr [demo_batch] @ Inl (External ''io'') # [Inr demo_batch])
   = ([Inl (External ''io'')], None)"
  by (rule build_stream_error) (simp add: demo_batch_def)

text \<open>C25. The probe operator with a filter: it yields one item for each item of its input, in
  order, an error unchanged and a batch with exactly the rows kept whose key is not null
  and passes the filter, or is of a type the filter does not cover. Without a filter (the
  receive failed) the input passes unchanged and no metrics are written.\<close>

theorem probe_stream_items:
  assumes "filter_spec ext" and "\<forall>b. Inr b \<in> set items \<longrightarrow> k < length (col_types b)"
  shows "fst (probe_stream ext env k col (Some payload) elapsed items)
           = map (map_sum id (probe_batch ext (bp_filter payload) k)) items
         \<and> probe_stream ext env k col None elapsed items = (items, None)"
  using probe_loop_items [OF assms] by (simp add: probe_stream_def case_prod_unfold Let_def)

theorem probe_stream_items_witness:
  "fst (probe_stream set_filter (\<lambda>_. None) 0 ''c'' (Some (build_payload set_filter fzero [''2''] [])) fzero
          [Inl (External ''io''), Inr demo_batch])
     = map (map_sum id (probe_batch set_filter
             (bp_filter (build_payload set_filter fzero [''2''] [])) 0)) [Inl (External ''io''), Inr demo_batch]
   \<and> probe_stream set_filter (\<lambda>_. None) 0 ''c'' None fzero [Inl (External ''io''), Inr demo_batch]
     = ([Inl (External ''io''), Inr demo_batch], None)"
  by (rule probe_stream_items) (auto simp: set_filter_specs demo_batch_def)

text \<open>C30. The metrics of a probe add up: over an error-free input they count every batch and
  every row that came in, every row that went out, and rows eliminated is exactly the
  difference.\<close>

theorem probe_metrics_add_up:
  assumes "filter_spec ext" and "\<forall>b \<in> set bs. k < length (col_types b)"
    and "length bs < usize_mod" and "total_rows bs < usize_mod"
  shows "\<exists>m. snd (probe_stream ext env k col (Some payload) elapsed (map Inr bs)) = Some m
           \<and> probe_batches m = length bs \<and> rows_in m = total_rows bs
           \<and> rows_out m = total_rows (map (probe_batch ext (bp_filter payload) k) bs)
           \<and> rows_in m = rows_out m + rows_eliminated m"
proof -
  let ?pb = "probe_batch ext (bp_filter payload) k"
  have le: "total_rows (map ?pb bs) \<le> total_rows bs"
    by (simp add: comp_def probe_batch_num_rows sum_list_mono)
  then have "wsub (total_rows bs) (total_rows (map ?pb bs)) = total_rows bs - total_rows (map ?pb bs)"
    using assms(4) by (rule usize_simps)
  with le probe_loop_counts [OF assms(1,2), of "\<lparr>pc_batches = 0, pc_rows_in = 0, pc_rows_out = 0\<rparr>"
      "bp_filter payload"] assms(3,4)
  show ?thesis by (simp add: probe_stream_def probe_metrics_def case_prod_unfold Let_def)
qed

theorem probe_metrics_add_up_witness:
  "\<exists>m. snd (probe_stream set_filter (\<lambda>_. None) 0 ''c'' (Some (build_payload set_filter fzero [''2''] []))
            fzero (map Inr [demo_batch])) = Some m
     \<and> probe_batches m = length [demo_batch] \<and> rows_in m = total_rows [demo_batch]
     \<and> rows_out m = total_rows (map (probe_batch set_filter
            (bp_filter (build_payload set_filter fzero [''2''] [])) 0) [demo_batch])
     \<and> rows_in m = rows_out m + rows_eliminated m"
  by (rule probe_metrics_add_up)
     (simp_all add: set_filter_specs demo_batch_def num_rows_def usize_mod_def)

section \<open>The metrics file\<close>

lemma write_metrics_append:
  "content \<noteq> [] \<Longrightarrow> write_metrics m (Some content) = Some (content @ to_csv_row m)"
  by (simp add: write_metrics_def)

lemma to_csv_row_nonempty [simp]: "to_csv_row m \<noteq> []"
  by (simp add: to_csv_row_def)

lemma write_metrics_more:
  "content \<noteq> [] \<Longrightarrow>
     fold write_metrics ms (Some content) = Some (content @ concat (map to_csv_row ms))"
  by (induction ms arbitrary: content) (simp_all add: write_metrics_append)

text \<open>The metrics file is an append-only log with one header: after any number of probes,
  a file that was absent or empty holds the header once and then one row for each probe in
  order, and a file that had contents keeps them and gains the rows.\<close>

theorem write_metrics_log:
  assumes "ms \<noteq> []"
  shows "fold write_metrics ms None = Some (metrics_header @ concat (map to_csv_row ms))
         \<and> fold write_metrics ms (Some []) = Some (metrics_header @ concat (map to_csv_row ms))
         \<and> (content \<noteq> [] \<longrightarrow>
              fold write_metrics ms (Some content) = Some (content @ concat (map to_csv_row ms)))"
  using assms write_metrics_more [of content ms]
    write_metrics_more [of "metrics_header @ to_csv_row (hd ms)" "tl ms"]
  by (cases ms) (simp_all add: write_metrics_def Let_def)

definition demo_metrics :: filter_metrics where
  "demo_metrics = \<lparr>query_id = ''q9'', col_name = ''l_partkey'', build_cardinality = 3,
     distinct_estimate = 2, filter_size_bytes = 6, build_time_ms = flit (1 / 4), probe_batches = 1,
     rows_in = 4000, rows_out = 1000, rows_eliminated = 3000, probe_time_ms = flit (1 / 2)\<rparr>"

theorem write_metrics_log_witness:
  "fold write_metrics [demo_metrics] None = Some (metrics_header @ concat (map to_csv_row [demo_metrics]))
   \<and> fold write_metrics [demo_metrics] (Some []) = Some (metrics_header @ concat (map to_csv_row [demo_metrics]))
   \<and> fold write_metrics [demo_metrics] (Some ''x'') = Some (''x'' @ concat (map to_csv_row [demo_metrics]))"
  using write_metrics_log [of "[demo_metrics]" "''x''"] by simp

lemma f64_of_usize_fin:
  assumes "0 < n" "n < 2 ^ 64"
  shows "\<exists>x \<ge> 1. f64_of_usize n = Fin False x"
proof -
  have "rat_of_nat n \<le> rat_of_nat (2 ^ 64)"
    using assms(2) by (intro of_nat_mono) simp
  then have n: "1 \<le> rat_of_nat n" "rat_of_nat n \<le> 2 ^ 64"
    using assms(1) by simp_all
  have one: "flit 1 = Fin False 1" and top: "flit 18446744073709551616 = Fin False 18446744073709551616"
    by (simp_all add: f64_eval)
  have "fle (Fin False 1) (f64_of_usize n)" "fle (f64_of_usize n) (Fin False (2 ^ 64))"
    using fround_mono [OF n(1), of False False] fround_mono [OF n(2), of False False]
    by (simp_all add: f64_of_usize_def one top)
  moreover have "f64_of_usize n = Fin s x \<Longrightarrow> \<not> s" for s x
    using assms by (auto simp: f64_of_usize_def fround_def Let_def split: if_splits)
  ultimately show ?thesis by (cases "f64_of_usize n") auto
qed

text \<open>The elimination rate is a number between 0 and 1 whenever no more rows were
  eliminated than came in, for every row count a \<open>usize\<close> can hold.\<close>

theorem elimination_rate_unit:
  assumes "rows_eliminated m \<le> rows_in m" and "rows_in m < 2 ^ 64"
  shows "fle (flit 0) (elimination_rate m) \<and> fle (elimination_rate m) (flit 1)"
proof (cases "rows_eliminated m = 0 \<or> rows_in m = 0")
  case True
  moreover have "fle (flit 0) (flit 0)" "fle (flit 0) (flit 1)" by (auto intro: fround_mono)
  moreover obtain x where "1 \<le> x" "rows_in m \<noteq> 0 \<longrightarrow> f64_of_usize (rows_in m) = Fin False x"
    using f64_of_usize_fin assms by (metis gr0I order_refl)
  ultimately show ?thesis using assms(1) by (auto simp: elimination_rate_def f64_of_usize_def fround_def)
next
  case False
  obtain x where x: "1 \<le> x" "f64_of_usize (rows_eliminated m) = Fin False x"
    using f64_of_usize_fin [of "rows_eliminated m"] assms False by auto
  obtain y where y: "1 \<le> y" "f64_of_usize (rows_in m) = Fin False y"
    using f64_of_usize_fin [of "rows_in m"] assms False by auto
  have "fle (f64_of_usize (rows_eliminated m)) (f64_of_usize (rows_in m))"
    unfolding f64_of_usize_def using assms(1) by (intro fround_mono) simp
  then have "x \<le> y" using x y by simp
  then have "0 \<le> x / y" "x / y \<le> 1" using x y by simp_all
  with x y False show ?thesis
    by (auto simp: elimination_rate_def intro!: fround_mono)
qed

theorem elimination_rate_unit_witness:
  "fle (flit 0) (elimination_rate demo_metrics) \<and> fle (elimination_rate demo_metrics) (flit 1)"
  by (rule elimination_rate_unit) (simp_all add: demo_metrics_def)

end
