(* ===== verification/BfModel.thy ===== *)
theory BfModel
  imports F64
begin

text \<open>
  The gradient-boosted-tree policy model, \<open>physical-optimizer/src/bf_model.rs\<close>: the
  deserialised structures, the process-wide write-once cache, the walk of one tree and
  the prediction. The walk follows indices read from a file, so it may leave the node
  vector (a panic) or never reach a leaf: the loop is a partial function whose value
  \<open>None\<close> means that it does not return.
\<close>

section \<open>Data\<close>

record node =
  node_feature :: int
  node_threshold :: "f64 option"
  node_left :: int
  node_right :: int
  node_value :: "f64 option"

record gbt_model =
  feature_names :: "string list"
  n_estimators :: nat
  learning_rate :: f64
  init_score :: f64
  trees :: "node list list"

section \<open>The write-once model cache\<close>

text \<open>
  \<open>OnceLock<Option<GbtModel>>\<close>: empty, or filled for the rest of the process.
  Reading a file and \<open>serde_json::from_str\<close> are parameters.
\<close>

type_synonym model_cache = "gbt_model option option"

definition load_model_once ::
  "(string \<Rightarrow> string option) \<Rightarrow> (string \<Rightarrow> gbt_model option) \<Rightarrow> string \<Rightarrow> model_cache
    \<Rightarrow> gbt_model option \<times> model_cache" where
  "load_model_once read_to_string from_str path cell =
     (case cell of
        Some m \<Rightarrow> (m, cell)
      | None \<Rightarrow>
          let m = (case read_to_string path of None \<Rightarrow> None | Some txt \<Rightarrow> from_str txt)
          in (m, Some m))"

section \<open>Inference\<close>

definition feature_value :: "f64 list \<Rightarrow> int \<Rightarrow> f64" where
  "feature_value features i =
     (if as_usize i < length features then features ! as_usize i else fzero)"

definition next_index :: "node \<Rightarrow> f64 list \<Rightarrow> nat" where
  "next_index nd features =
     (if fle (feature_value features (node_feature nd))
             (case node_threshold nd of None \<Rightarrow> fzero | Some t \<Rightarrow> t)
      then as_usize (node_left nd)
      else as_usize (node_right nd))"

definition leaf_value :: "node \<Rightarrow> f64" where
  "leaf_value nd = (case node_value nd of None \<Rightarrow> fzero | Some v \<Rightarrow> v)"

partial_function (option) walk_loop :: "node list \<Rightarrow> f64 list \<Rightarrow> nat \<Rightarrow> f64 res option" where
  "walk_loop nodes features idx =
     (if length nodes \<le> idx then Some (Inl IndexOutOfBounds)
      else if node_feature (nodes ! idx) = - 1 then Some (Inr (leaf_value (nodes ! idx)))
      else walk_loop nodes features (next_index (nodes ! idx) features))"

definition walk_tree :: "node list \<Rightarrow> f64 list \<Rightarrow> f64 res option" where
  "walk_tree nodes features = walk_loop nodes features 0"

text \<open>The accumulation over the trees: a panic or a loop in one tree is one of the whole.\<close>

fun score_trees :: "f64 \<Rightarrow> f64 list \<Rightarrow> f64 \<Rightarrow> node list list \<Rightarrow> f64 res option" where
  "score_trees rate features score [] = Some (Inr score)"
| "score_trees rate features score (t # ts) =
     (case walk_tree t features of
        None \<Rightarrow> None
      | Some (Inl e) \<Rightarrow> Some (Inl e)
      | Some (Inr v) \<Rightarrow> score_trees rate features (fadd score (fmul rate v)) ts)"

definition sigmoid :: "(f64 \<Rightarrow> f64) \<Rightarrow> f64 \<Rightarrow> f64" where
  "sigmoid expf score = fdiv (flit 1) (fadd (flit 1) (expf (fneg score)))"

definition predict_proba :: "(f64 \<Rightarrow> f64) \<Rightarrow> f64 list \<Rightarrow> gbt_model \<Rightarrow> f64 res option" where
  "predict_proba expf features model =
     (case score_trees (learning_rate model) features (init_score model) (trees model) of
        None \<Rightarrow> None
      | Some (Inl e) \<Rightarrow> Some (Inl e)
      | Some (Inr s) \<Rightarrow> Some (Inr (sigmoid expf s)))"

section \<open>Well-formed trees\<close>

text \<open>
  What the exporter writes: every split node's children come later in the vector, so the
  walk moves forward until it meets a leaf.
\<close>

definition wf_node :: "nat \<Rightarrow> nat \<Rightarrow> node \<Rightarrow> bool" where
  "wf_node n i nd \<longleftrightarrow>
     node_feature nd = - 1 \<or>
     (int i < node_left nd \<and> node_left nd < int n \<and> int i < node_right nd \<and> node_right nd < int n)"

definition wf_tree :: "node list \<Rightarrow> bool" where
  "wf_tree nodes \<longleftrightarrow>
     nodes \<noteq> [] \<and> length nodes < 2 ^ 31 \<and>
     list_all (\<lambda>(i, nd). wf_node (length nodes) i nd) (zip [0..<length nodes] nodes)"

definition wf_model :: "gbt_model \<Rightarrow> bool" where
  "wf_model m \<longleftrightarrow> list_all wf_tree (trees m)"

lemma wf_tree_node:
  "wf_tree nodes \<Longrightarrow> i < length nodes \<Longrightarrow> wf_node (length nodes) i (nodes ! i)"
  by (force simp: wf_tree_def list_all_iff set_zip)

lemma next_index_forward:
  assumes "wf_tree nodes" "i < length nodes" "node_feature (nodes ! i) \<noteq> - 1"
  shows "i < next_index (nodes ! i) features \<and> next_index (nodes ! i) features < length nodes"
proof -
  have len: "int (length nodes) < 2 ^ 31" using assms(1) by (simp add: wf_tree_def)
  have "as_usize k = nat k" if "int i < k" "k < int (length nodes)" for k
    using that len by (intro as_usize_nonneg) auto
  with wf_tree_node [OF assms(1,2)] assms(3) show ?thesis
    by (auto simp: next_index_def wf_node_def)
qed

text \<open>From any index of a well-formed tree the walk returns the value of one of its leaves.\<close>

lemma walk_loop_returns:
  assumes "wf_tree nodes" "idx < length nodes"
  shows "\<exists>nd \<in> set nodes. node_feature nd = - 1 \<and>
           walk_loop nodes features idx = Some (Inr (leaf_value nd))"
  using assms(2)
proof (induction "length nodes - idx" arbitrary: idx rule: less_induct)
  case less
  show ?case
  proof (cases "node_feature (nodes ! idx) = - 1")
    case True
    with less.prems show ?thesis by (auto simp: walk_loop.simps)
  next
    case False
    let ?next = "next_index (nodes ! idx) features"
    have n: "idx < ?next" "?next < length nodes"
      using next_index_forward [OF assms(1) less.prems False, of features] by simp_all
    have "length nodes - ?next < length nodes - idx"
      using n less.prems by simp
    from less.hyps [OF this n(2)] False less.prems show ?thesis
      by (simp add: walk_loop.simps [of nodes features idx])
  qed
qed

lemma walk_tree_returns:
  "wf_tree nodes \<Longrightarrow>
     \<exists>nd \<in> set nodes. node_feature nd = - 1 \<and> walk_tree nodes features = Some (Inr (leaf_value nd))"
  unfolding walk_tree_def by (rule walk_loop_returns) (simp_all add: wf_tree_def)

lemma score_trees_returns:
  "list_all wf_tree ts \<Longrightarrow> \<exists>s. score_trees rate features score ts = Some (Inr s)"
proof (induction ts arbitrary: score)
  case (Cons t ts)
  then show ?case using walk_tree_returns [of t features] by fastforce
qed simp

section \<open>The sigmoid\<close>

lemma flit_one: "flit 1 = Fin False 1"
  by (simp add: f64_eval)

lemma one_plus_nonneg:
  assumes "fle fzero e"
  shows "fadd (Fin False 1) e = Inf False \<or> (\<exists>n \<ge> 1. fadd (Fin False 1) e = Fin False n)"
proof (cases e)
  case (Fin s m)
  with assms have "1 \<le> 1 + fval e" by simp
  from fround_mono [OF this, of False False]
  have "fle (Fin False 1) (fround False (1 + fval e))" by (simp add: flit_one)
  with Fin assms show ?thesis
    by (cases "fround False (1 + fval e)") (auto simp: fround_def Let_def split: if_splits)
qed (use assms in auto)

lemma reciprocal_unit:
  assumes "1 \<le> n"
  shows "fle fzero (fdiv (Fin False 1) (Fin False n)) \<and> fle (fdiv (Fin False 1) (Fin False n)) (Fin False 1)"
proof -
  have "0 \<le> 1 / n" "1 / n \<le> 1" using assms by simp_all
  then show ?thesis
    using fround_pos_nonneg [of "1 / n" False] fround_mono [of "1 / n" 1 False False] assms
    by (simp add: flit_one)
qed

lemma sigmoid_unit:
  assumes "fle fzero (expf (fneg s))"
  shows "fle fzero (sigmoid expf s) \<and> fle (sigmoid expf s) (Fin False 1)"
  using one_plus_nonneg [OF assms] reciprocal_unit
  by (auto simp: sigmoid_def flit_one)

lemma reciprocal_antimono:
  assumes "1 \<le> m" "m \<le> n"
  shows "fle (fdiv (Fin False 1) (Fin False n)) (fdiv (Fin False 1) (Fin False m))"
proof -
  have "1 / n \<le> 1 / m" using assms by (simp add: field_simps)
  then show ?thesis using fround_mono [of "1 / n" "1 / m" False False] assms by simp
qed

lemma sigmoid_mono_exp:
  assumes "fle fzero (expf (fneg t))" "fle (expf (fneg t)) (expf (fneg s))"
  shows "fle (sigmoid expf s) (sigmoid expf t)"
proof -
  let ?a = "fadd (Fin False 1) (expf (fneg s))" and ?b = "fadd (Fin False 1) (expf (fneg t))"
  have s: "fle fzero (expf (fneg s))" using assms fle_trans by blast
  have "\<not> is_nan ?a" "\<not> is_nan ?b"
    using one_plus_nonneg [OF s] one_plus_nonneg [OF assms(1)] by auto
  then have "fle ?b ?a"
    using assms(2) by (cases "expf (fneg t)"; cases "expf (fneg s)") (auto intro: fround_mono)
  then show ?thesis
    using one_plus_nonneg [OF s] one_plus_nonneg [OF assms(1)] reciprocal_antimono reciprocal_unit
    by (auto simp: sigmoid_def flit_one)
qed

lemma fneg_antimono: "fle a b \<Longrightarrow> fle (fneg b) (fneg a)"
  by (cases a; cases b) auto

section \<open>Properties\<close>

text \<open>The repository's own fixture, \<open>tests/fixtures/bf_model_test.json\<close>.\<close>

definition leaf :: "f64 \<Rightarrow> node" where
  "leaf v = \<lparr>node_feature = - 1, node_threshold = None, node_left = - 1, node_right = - 1,
             node_value = Some v\<rparr>"

definition fixture_model :: gbt_model where
  "fixture_model =
     \<lparr>feature_names = [''build_cardinality'', ''distinct_estimate'', ''filter_size_bytes'',
                       ''build_time_ms'', ''distinctness_ratio''],
      n_estimators = 2, learning_rate = flit (1 / 10), init_score = fzero,
      trees =
        [[\<lparr>node_feature = 0, node_threshold = Some (flit 100), node_left = 1, node_right = 2,
            node_value = None\<rparr>, leaf (flit (1 / 2)), leaf (flit (- 1 / 2))],
         [\<lparr>node_feature = 1, node_threshold = Some (flit 60), node_left = 1, node_right = 2,
            node_value = None\<rparr>, leaf (flit (4 / 5)), leaf (flit (- 4 / 5))]]\<rparr>"

definition fixture_features :: "f64 list" where
  "fixture_features = [flit 50, flit 50, flit 100, flit 5, flit 1]"

text \<open>A stand-in for \<open>f64::exp\<close> with its documented limits: \<open>exp(-inf) = 0\<close>, \<open>exp(inf) = inf\<close>.\<close>

fun exp_limits :: "f64 \<Rightarrow> f64" where
  "exp_limits NaN = NaN"
| "exp_limits (Inf s) = (if s then fzero else Inf False)"
| "exp_limits (Fin s m) = Fin False 1"

lemma wf_fixture: "wf_model fixture_model"
  by (simp add: wf_model_def fixture_model_def wf_tree_def wf_node_def leaf_def upt_rec)

lemma exp_limits_nonneg: "\<not> is_nan x \<Longrightarrow> fle fzero (exp_limits x)"
  by (cases x) auto

text \<open>C27. Inference on a well-formed model returns, without panicking: the walk of every
  tree ends in a leaf, and the prediction is a probability, between 0 and 1, unless the
  accumulated score itself is NaN. The only fact used about the library's exponential is
  that it is never negative.\<close>

theorem predict_proba_in_unit:
  assumes "wf_model model"
    and "\<And>x. \<not> is_nan x \<Longrightarrow> fle fzero (expf x)"
  shows "\<exists>s p. score_trees (learning_rate model) features (init_score model) (trees model) = Some (Inr s)
           \<and> predict_proba expf features model = Some (Inr p)
           \<and> (is_nan s \<or> fle fzero p \<and> fle p (flit 1))"
proof -
  obtain s where s: "score_trees (learning_rate model) features (init_score model) (trees model) = Some (Inr s)"
    using score_trees_returns assms(1) by (fastforce simp: wf_model_def)
  have "is_nan s \<or> fle fzero (sigmoid expf s) \<and> fle (sigmoid expf s) (flit 1)"
    using sigmoid_unit [of expf s] assms(2) [of "fneg s"] by (cases s) (auto simp: flit_one)
  with s show ?thesis by (simp add: predict_proba_def)
qed

theorem predict_proba_in_unit_witness:
  "\<exists>s p. score_trees (learning_rate fixture_model) fixture_features (init_score fixture_model)
             (trees fixture_model) = Some (Inr s)
       \<and> predict_proba exp_limits fixture_features fixture_model = Some (Inr p)
       \<and> (is_nan s \<or> fle fzero p \<and> fle p (flit 1))"
  by (rule predict_proba_in_unit [OF wf_fixture exp_limits_nonneg])

text \<open>A higher score never predicts a lower probability: on one model, if the scores of
  two feature vectors are ordered, so are the predictions, for any exponential that is
  monotone and not negative on numbers.\<close>

theorem predict_proba_monotone:
  assumes "score_trees (learning_rate model) xs (init_score model) (trees model) = Some (Inr s)"
    and "score_trees (learning_rate model) ys (init_score model) (trees model) = Some (Inr t)"
    and "fle s t"
    and "\<And>x. \<not> is_nan x \<Longrightarrow> fle fzero (expf x)"
    and "\<And>x y. fle x y \<Longrightarrow> fle (expf x) (expf y)"
  shows "\<exists>p q. predict_proba expf xs model = Some (Inr p)
           \<and> predict_proba expf ys model = Some (Inr q) \<and> fle p q"
proof -
  have "\<not> is_nan (fneg t)"
    using fle_not_nan [OF fneg_antimono [OF assms(3)]] by simp
  then have "fle (sigmoid expf s) (sigmoid expf t)"
    by (intro sigmoid_mono_exp assms(4) assms(5) fneg_antimono assms(3))
  with assms(1,2) show ?thesis by (simp add: predict_proba_def)
qed

lemma exp_limits_mono: "fle x y \<Longrightarrow> fle (exp_limits x) (exp_limits y)"
  by (cases x; cases y) auto

lemma fixture_score:
  "score_trees (learning_rate fixture_model) fixture_features (init_score fixture_model)
     (trees fixture_model) = Some (Inr (flit (13 / 100)))"
  by (simp add: fixture_model_def fixture_features_def leaf_def walk_tree_def walk_loop.simps
      next_index_def feature_value_def leaf_value_def as_usize_def f64_eval)

lemma fixture_score_high:
  "score_trees (learning_rate fixture_model) [flit 200, flit 50, flit 100, flit 5, flit 1]
     (init_score fixture_model) (trees fixture_model) = Some (Inr (Fin False (2161727821137839 / 72057594037927936)))"
  by (simp add: fixture_model_def fixture_features_def leaf_def walk_tree_def walk_loop.simps
      next_index_def feature_value_def leaf_value_def as_usize_def f64_eval)

theorem predict_proba_monotone_witness:
  "\<exists>p q. predict_proba exp_limits [flit 200, flit 50, flit 100, flit 5, flit 1] fixture_model = Some (Inr p)
       \<and> predict_proba exp_limits fixture_features fixture_model = Some (Inr q) \<and> fle p q"
  by (rule predict_proba_monotone [OF fixture_score_high fixture_score _
        exp_limits_nonneg exp_limits_mono]) (simp add: f64_eval)

text \<open>The model cache is write-once: whatever the first call finds, a model or a failed
  read or parse, every later call returns that same result, for any path and whatever the
  file system holds by then.\<close>

theorem load_model_once_sticky:
  "let (m, cell') = load_model_once read_to_string from_str path cell
   in load_model_once read_to_string' from_str' path' cell' = (m, cell')
      \<and> (case cell of None \<Rightarrow> m = (case read_to_string path of None \<Rightarrow> None | Some txt \<Rightarrow> from_str txt)
         | Some m0 \<Rightarrow> m = m0)"
  by (simp add: load_model_once_def Let_def split: option.splits)

text \<open>C37. Nothing validates the parsed tree: a split node that names itself as both children
  makes the walk run forever, whatever the features.\<close>

theorem walk_tree_diverges_on_cycle:
  assumes "node_feature nd \<noteq> - 1" and "node_left nd = 0" and "node_right nd = 0"
  shows "walk_tree (nd # nodes) features = None"
proof (rule ccontr)
  assume "walk_tree (nd # nodes) features \<noteq> None"
  then obtain r where r: "walk_loop (nd # nodes) features 0 = Some r"
    by (auto simp: walk_tree_def)
  have "nodes' = nd # nodes \<longrightarrow> idx \<noteq> 0" if "walk_loop nodes' features' idx = Some r" for nodes' features' idx
  proof (rule walk_loop.raw_induct [where P = "\<lambda>nodes' features' idx r. nodes' = nd # nodes \<longrightarrow> idx \<noteq> 0", OF _ that])
    fix f nodes' features' idx r'
    assume IH: "\<And>nodes' features' idx r. f nodes' features' idx = Some r \<Longrightarrow> nodes' = nd # nodes \<longrightarrow> idx \<noteq> 0"
      and eq: "(if length nodes' \<le> idx then Some (Inl IndexOutOfBounds)
         else if node_feature (nodes' ! idx) = - 1 then Some (Inr (leaf_value (nodes' ! idx)))
         else f nodes' features' (next_index (nodes' ! idx) features')) = Some r'"
    show "nodes' = nd # nodes \<longrightarrow> idx \<noteq> 0"
      using eq IH assms by (fastforce simp: next_index_def as_usize_def split: if_splits)
  qed
  with r show False by blast
qed

theorem walk_tree_diverges_on_cycle_witness:
  "walk_tree [\<lparr>node_feature = 0, node_threshold = None, node_left = 0, node_right = 0,
               node_value = None\<rparr>] [flit 1] = None"
  by (rule walk_tree_diverges_on_cycle) simp_all

end
