(* ===== verification/Knapsack.thy ===== *)
theory Knapsack
  imports F64
begin

text \<open>
  The budget policy of \<open>physical-optimizer/src/bloom_filter_transfer.rs\<close>:
  \<open>MlCandidate\<close> and \<open>knapsack_select\<close>, a 0/1 knapsack over \<open>f64\<close> values with
  weights scaled to kilobytes, a rolling row \<open>dp\<close> filled from the largest capacity
  down, a matrix \<open>chosen\<close> and a traceback. Values are IEEE doubles, so "optimal" is
  stated for the sums as the machine computes them.
\<close>

section \<open>Definitions\<close>

record ml_candidate =
  cand_key :: string
  build_col :: string
  probe_col :: string
  weight_bytes :: nat
  pred_prob :: f64

definition to_kb :: "nat \<Rightarrow> nat" where
  "to_kb b = max (b div 1024) 1"

text \<open>One assignment of the inner loop, at capacity \<open>w\<close>.\<close>

fun knap_cell :: "nat \<Rightarrow> f64 \<Rightarrow> nat \<Rightarrow> f64 list \<times> bool list \<Rightarrow> f64 list \<times> bool list" where
  "knap_cell wi v w (dp, row) =
     (let candidate = fadd (dp ! (w - wi)) v
      in if flt (dp ! w) candidate then (dp[w := candidate], row[w := True]) else (dp, row))"

text \<open>\<open>for w in (ws[i]..=w_cap).rev()\<close>, on the row \<open>chosen[i]\<close>, all false before.\<close>

definition knap_row :: "nat \<Rightarrow> nat \<Rightarrow> f64 \<Rightarrow> f64 list \<Rightarrow> f64 list \<times> bool list" where
  "knap_row w_cap wi v dp =
     fold (knap_cell wi v) (rev [wi..<Suc w_cap]) (dp, replicate (Suc w_cap) False)"

text \<open>\<open>for i in 0..n\<close>.\<close>

definition knap_item ::
  "nat \<Rightarrow> f64 list \<times> bool list list \<Rightarrow> ml_candidate \<Rightarrow> f64 list \<times> bool list list" where
  "knap_item w_cap st c =
     (let (dp', row) = knap_row w_cap (to_kb (weight_bytes c)) (pred_prob c) (fst st)
      in (dp', snd st @ [row]))"

definition knap_table :: "nat \<Rightarrow> ml_candidate list \<Rightarrow> f64 list \<times> bool list list" where
  "knap_table w_cap cs = foldl (knap_item w_cap) (replicate (Suc w_cap) fzero, []) cs"

text \<open>\<open>for i in (0..n).rev()\<close>: the candidates met, last index first.\<close>

fun knap_trace :: "nat \<Rightarrow> (bool list \<times> ml_candidate) list \<Rightarrow> ml_candidate list" where
  "knap_trace w [] = []"
| "knap_trace w ((row, c) # rest) =
     (if row ! w then c # knap_trace (w - to_kb (weight_bytes c)) rest else knap_trace w rest)"

definition knap_chosen :: "nat \<Rightarrow> ml_candidate list \<Rightarrow> ml_candidate list" where
  "knap_chosen w_cap cs = rev (knap_trace w_cap (rev (zip (snd (knap_table w_cap cs)) cs)))"

definition knapsack_select :: "ml_candidate list \<Rightarrow> nat \<Rightarrow> string set" where
  "knapsack_select cs budget =
     (if cs = [] \<or> budget = 0 then {} else cand_key ` set (knap_chosen (to_kb budget) cs))"

section \<open>What a selection is worth and costs\<close>

text \<open>The value of a selection: its probabilities added in index order, from \<open>0.0\<close>.\<close>

definition fsum :: "ml_candidate list \<Rightarrow> f64" where
  "fsum cs = foldl fadd fzero (map pred_prob cs)"

definition kb_weight :: "ml_candidate list \<Rightarrow> nat" where
  "kb_weight cs = sum_list (map (to_kb \<circ> weight_bytes) cs)"

lemma fsum_Nil [simp]: "fsum [] = fzero"
  by (simp add: fsum_def)

lemma fsum_snoc [simp]: "fsum (cs @ [c]) = fadd (fsum cs) (pred_prob c)"
  by (simp add: fsum_def)

lemma kb_weight_simps [simp]:
  "kb_weight [] = 0" "kb_weight (cs @ [c]) = kb_weight cs + to_kb (weight_bytes c)"
  by (simp_all add: kb_weight_def)

lemma to_kb_pos [simp]: "0 < to_kb b"
  by (simp add: to_kb_def)

section \<open>The inner loop\<close>

text \<open>
  Because capacities are visited downwards and every weight is positive, each cell reads
  the row as it was before the item.
\<close>

definition knap_takes :: "nat \<Rightarrow> f64 \<Rightarrow> f64 list \<Rightarrow> nat \<Rightarrow> bool" where
  "knap_takes wi v dp w \<longleftrightarrow> wi \<le> w \<and> flt (dp ! w) (fadd (dp ! (w - wi)) v)"

definition knap_after :: "nat \<Rightarrow> f64 \<Rightarrow> f64 list \<Rightarrow> nat \<Rightarrow> f64" where
  "knap_after wi v dp w = (if knap_takes wi v dp w then fadd (dp ! (w - wi)) v else dp ! w)"

lemma knap_row_from:
  assumes "0 < wi" "wi \<le> k" "k \<le> Suc cap" "length dp = Suc cap"
  shows "fold (knap_cell wi v) (rev [k..<Suc cap]) (dp, replicate (Suc cap) False) =
           (map (\<lambda>w. if k \<le> w then knap_after wi v dp w else dp ! w) [0..<Suc cap],
            map (\<lambda>w. k \<le> w \<and> knap_takes wi v dp w) [0..<Suc cap])"
  using assms(3,2)
proof (induction k rule: inc_induct)
  case base
  have "map (\<lambda>w. if Suc cap \<le> w then knap_after wi v dp w else dp ! w) [0..<Suc cap] = dp"
    using assms(4) by (intro nth_equalityI) (auto simp del: upt_Suc)
  moreover have "map (\<lambda>w. Suc cap \<le> w \<and> knap_takes wi v dp w) [0..<Suc cap] = replicate (Suc cap) False"
    by (intro nth_equalityI) (auto simp del: upt_Suc replicate_Suc)
  ultimately show ?case by simp
next
  case (step k)
  let ?dp = "map (\<lambda>w. if Suc k \<le> w then knap_after wi v dp w else dp ! w) [0..<Suc cap]"
  let ?row = "map (\<lambda>w. Suc k \<le> w \<and> knap_takes wi v dp w) [0..<Suc cap]"
  have "fold (knap_cell wi v) (rev [k..<Suc cap]) (dp, replicate (Suc cap) False)
        = knap_cell wi v k (?dp, ?row)"
    using step by (simp add: upt_conv_Cons del: upt_Suc)
  also have "\<dots> = (map (\<lambda>w. if k \<le> w then knap_after wi v dp w else dp ! w) [0..<Suc cap],
            map (\<lambda>w. k \<le> w \<and> knap_takes wi v dp w) [0..<Suc cap])"
  proof -
    have k: "k < Suc cap" "wi \<le> k" "k - wi < Suc cap" using step by auto
    have "?dp ! j = (if Suc k \<le> j then knap_after wi v dp j else dp ! j)" if "j < Suc cap" for j
      using that by (simp del: upt_Suc)
    moreover have "\<not> Suc k \<le> k - wi" by simp
    ultimately have rd: "?dp ! k = dp ! k" "?dp ! (k - wi) = dp ! (k - wi)"
      using k by (simp_all only: if_False not_less_eq_eq [symmetric] le_refl refl simp_thms)
    have upd: "(map f [0..<Suc cap])[k := x] = map g [0..<Suc cap]"
      if "x = g k" "\<And>w. w \<noteq> k \<Longrightarrow> f w = g w" for f g :: "nat \<Rightarrow> 'b" and x
      using that k by (intro nth_equalityI) (auto simp: nth_list_update simp del: upt_Suc)
    show ?thesis
    proof (cases "knap_takes wi v dp k")
      case True
      then have "flt (dp ! k) (fadd (dp ! (k - wi)) v)" by (simp add: knap_takes_def)
      then have "knap_cell wi v k (?dp, ?row) = (?dp[k := fadd (dp ! (k - wi)) v], ?row[k := True])"
        by (simp only: knap_cell.simps rd Let_def if_True)
      with True show ?thesis
        by (auto simp only: intro!: upd) (auto simp: knap_after_def)
    next
      case False
      with k have "\<not> flt (dp ! k) (fadd (dp ! (k - wi)) v)" by (simp add: knap_takes_def)
      then have "knap_cell wi v k (?dp, ?row) = (?dp, ?row)"
        by (simp only: knap_cell.simps rd Let_def if_False)
      moreover have "(if Suc k \<le> w then knap_after wi v dp w else dp ! w)
                   = (if k \<le> w then knap_after wi v dp w else dp ! w)"
        "(Suc k \<le> w \<and> knap_takes wi v dp w) = (k \<le> w \<and> knap_takes wi v dp w)" for w
        using False by (cases "w = k"; auto simp: knap_after_def)+
      ultimately show ?thesis by simp
    qed
  qed
  finally show ?case .
qed

lemma knap_row_eq:
  assumes "0 < wi" "length dp = Suc cap"
  shows "knap_row cap wi v dp =
           (map (knap_after wi v dp) [0..<Suc cap], map (knap_takes wi v dp) [0..<Suc cap])"
proof (cases "wi \<le> Suc cap")
  case True
  have "map (\<lambda>w. if wi \<le> w then knap_after wi v dp w else dp ! w) [0..<Suc cap]
        = map (knap_after wi v dp) [0..<Suc cap]"
    by (auto simp: knap_after_def knap_takes_def)
  moreover have "map (\<lambda>w. wi \<le> w \<and> knap_takes wi v dp w) [0..<Suc cap] = map (knap_takes wi v dp) [0..<Suc cap]"
    by (auto simp: knap_takes_def)
  ultimately show ?thesis
    using knap_row_from [OF assms(1) order_refl True assms(2)] by (simp add: knap_row_def)
next
  case False
  then have "map (knap_after wi v dp) [0..<Suc cap] = dp"
    using assms(2) by (intro nth_equalityI) (auto simp: knap_after_def knap_takes_def simp del: upt_Suc)
  moreover have "map (knap_takes wi v dp) [0..<Suc cap] = replicate (Suc cap) False"
    using False by (intro nth_equalityI) (auto simp: knap_takes_def simp del: upt_Suc replicate_Suc)
  ultimately show ?thesis using False by (simp add: knap_row_def)
qed

section \<open>The table and the traceback\<close>

text \<open>
  What the table knows after the items \<open>cs\<close>: each cell is the value of the selection
  that the traceback from it collects, that selection fits the cell's capacity, and no
  other selection that fits is worth more.
\<close>

definition table_inv :: "nat \<Rightarrow> ml_candidate list \<Rightarrow> f64 list \<times> bool list list \<Rightarrow> bool" where
  "table_inv cap cs st \<longleftrightarrow>
     length (fst st) = Suc cap \<and> length (snd st) = length cs \<and>
     (\<forall>w \<le> cap.
        fle fzero (fst st ! w) \<and>
        (let S = rev (knap_trace w (rev (zip (snd st) cs)))
         in subseq S cs \<and> kb_weight S \<le> w \<and> fsum S = fst st ! w) \<and>
        (\<forall>T. subseq T cs \<longrightarrow> kb_weight T \<le> w \<longrightarrow> is_nan (fsum T) \<or> fle (fsum T) (fst st ! w)))"

lemma table_inv_init: "table_inv cap [] (replicate (Suc cap) fzero, [])"
  by (auto simp: table_inv_def simp del: replicate_Suc dest!: list_emb_Nil2)

lemma subseq_snocE:
  assumes "subseq T (cs @ [c])"
  obtains "subseq T cs" | T' where "T = T' @ [c]" "subseq T' cs"
proof -
  obtain T1 T2 where T: "T = T1 @ T2" "subseq T1 cs" "subseq T2 [c]"
    using assms by (auto simp: subseq_append_iff)
  then have "T2 = [] \<or> T2 = [c]"
    by (cases T2) (auto simp: subseq_Cons2_iff dest: list_emb_Nil2 split: if_splits)
  with T that show ?thesis by auto
qed

lemma fle_fadd_keep:
  assumes "fle fzero d" "is_nan x \<or> fle x p" "fle fzero p"
  shows "is_nan (fadd x v) \<or> fle (fadd x v) (if flt d (fadd p v) then fadd p v else d)"
proof (cases "is_nan (fadd x v)")
  case False
  then have "fle x p" using assms(2) by (cases x) auto
  have d: "\<not> is_nan d" using assms(1) fle_not_nan by blast
  show ?thesis
  proof (cases "is_nan (fadd p v)")
    case True
    with False have "fadd x v = Inf True" by (rule fadd_nan_right [OF \<open>fle x p\<close>])
    moreover have "\<not> flt d (fadd p v)" using True fle_not_nan by (auto simp: flt_def)
    ultimately show ?thesis using d by simp
  next
    case pv: False
    have "fle (fadd x v) (fadd p v)" using \<open>fle x p\<close> False pv by (rule fadd_mono)
    with not_flt [OF d pv] show ?thesis by (auto intro: fle_trans)
  qed
qed simp

lemma table_inv_step:
  assumes "table_inv cap cs st"
  shows "table_inv cap (cs @ [c]) (knap_item cap st c)"
proof -
  obtain dp rows where st: "st = (dp, rows)" by (cases st)
  define wi v where "wi = to_kb (weight_bytes c)" and "v = pred_prob c"
  define row where "row = map (knap_takes wi v dp) [0..<Suc cap]"
  define dp' where "dp' = map (knap_after wi v dp) [0..<Suc cap]"
  have len: "length dp = Suc cap" "length rows = length cs"
    using assms by (simp_all add: table_inv_def st)
  have item: "knap_item cap st c = (dp', rows @ [row])"
    using knap_row_eq [of wi dp cap v] len by (simp add: knap_item_def st wi_def v_def row_def dp'_def del: upt_Suc)
  have inv: "fle fzero (dp ! w)"
      "subseq (rev (knap_trace w (rev (zip rows cs)))) cs"
      "kb_weight (rev (knap_trace w (rev (zip rows cs)))) \<le> w"
      "fsum (rev (knap_trace w (rev (zip rows cs)))) = dp ! w"
      "\<And>T. subseq T cs \<Longrightarrow> kb_weight T \<le> w \<Longrightarrow> is_nan (fsum T) \<or> fle (fsum T) (dp ! w)"
    if "w \<le> cap" for w
    using assms that by (simp_all add: table_inv_def st Let_def)
  have cell: "dp' ! w = knap_after wi v dp w" "row ! w = knap_takes wi v dp w" if "w \<le> cap" for w
    using that by (simp_all add: dp'_def row_def del: upt_Suc)
  have zipped: "rev (zip (rows @ [row]) (cs @ [c])) = (row, c) # rev (zip rows cs)"
    using len by simp
  have "table_inv cap (cs @ [c]) (dp', rows @ [row])"
    unfolding table_inv_def fst_conv snd_conv Let_def zipped
  proof (intro conjI allI impI)
    show "length dp' = Suc cap" by (simp add: dp'_def)
    show "length (rows @ [row]) = length (cs @ [c])" using len by simp
  next
    fix w assume w: "w \<le> cap"
    then have wle: "w - wi \<le> cap" by simp
    show "fle fzero (dp' ! w)"
      using inv(1) [OF w] w fle_trans by (auto simp: cell knap_after_def knap_takes_def flt_def)
    show "subseq (rev (knap_trace w ((row, c) # rev (zip rows cs)))) (cs @ [c])"
      using inv(2) [of w] inv(2) [OF wle] w
      by (auto simp: wi_def intro: list_emb_append_mono subseq_rev_drop_many)
    show "kb_weight (rev (knap_trace w ((row, c) # rev (zip rows cs)))) \<le> w"
      using inv(3) [of w] inv(3) [OF wle] w
      by (auto simp: cell knap_takes_def wi_def [symmetric])
    show "fsum (rev (knap_trace w ((row, c) # rev (zip rows cs)))) = dp' ! w"
      using inv(4) [of w] inv(4) [OF wle] w
      by (auto simp: cell knap_after_def wi_def [symmetric] v_def)
  next
    fix w T assume w: "w \<le> cap" and T: "subseq T (cs @ [c])" "kb_weight T \<le> w"
    show "is_nan (fsum T) \<or> fle (fsum T) (dp' ! w)"
      using T(1)
    proof (rule subseq_snocE)
      assume "subseq T cs"
      with inv(5) [OF w] T(2) w show ?thesis
        by (auto simp: cell knap_after_def knap_takes_def flt_def intro: fle_trans)
    next
      fix T' assume T': "T = T' @ [c]" "subseq T' cs"
      with T(2) have fit: "wi \<le> w" "kb_weight T' \<le> w - wi" by (auto simp: wi_def)
      have "is_nan (fsum T') \<or> fle (fsum T') (dp ! (w - wi))"
        using inv(5) [of "w - wi"] w T'(2) fit(2) by simp
      from fle_fadd_keep [OF inv(1) [OF w] this inv(1), of v] w fit(1) T'(1)
      show ?thesis by (simp add: cell knap_after_def knap_takes_def v_def [symmetric] split: if_splits)
    qed
  qed
  with item show ?thesis by simp
qed

lemma table_inv_table: "table_inv cap cs (knap_table cap cs)"
proof (induction cs rule: rev_induct)
  case Nil
  show ?case using table_inv_init by (simp add: knap_table_def)
next
  case (snoc c cs)
  then show ?case using table_inv_step [of cap cs "knap_table cap cs" c] by (simp add: knap_table_def)
qed

lemma knap_chosen_facts:
  "subseq (knap_chosen cap cs) cs"
  "kb_weight (knap_chosen cap cs) \<le> cap"
  "\<not> is_nan (fsum (knap_chosen cap cs))"
  "subseq T cs \<Longrightarrow> kb_weight T \<le> cap \<Longrightarrow> is_nan (fsum T) \<or> fle (fsum T) (fsum (knap_chosen cap cs))"
  using table_inv_table [of cap cs] fle_not_nan
  by (fastforce simp: table_inv_def knap_chosen_def Let_def)+

section \<open>Properties\<close>

text \<open>C7. The policy is optimal over the doubles it is computed with: the candidates it
  selects fit the scaled budget, and no other sub-selection that fits has a greater sum of
  predicted probabilities, sums taken in index order with IEEE rounding. This covers every
  value a probability can have, NaN included.\<close>

theorem knapsack_select_optimal:
  assumes "cs \<noteq> []" and "0 < budget"
  shows "\<exists>S. subseq S cs \<and> knapsack_select cs budget = cand_key ` set S
           \<and> kb_weight S \<le> to_kb budget
           \<and> (\<forall>T. subseq T cs \<and> kb_weight T \<le> to_kb budget \<longrightarrow> \<not> flt (fsum S) (fsum T))"
proof (intro exI conjI allI impI)
  let ?S = "knap_chosen (to_kb budget) cs"
  show "subseq ?S cs" "kb_weight ?S \<le> to_kb budget" by (rule knap_chosen_facts)+
  show "knapsack_select cs budget = cand_key ` set ?S" using assms by (simp add: knapsack_select_def)
  fix T assume "subseq T cs \<and> kb_weight T \<le> to_kb budget"
  then show "\<not> flt (fsum ?S) (fsum T)"
    using knap_chosen_facts(4) [of T cs "to_kb budget"] fle_not_nan by (auto simp: flt_def)
qed

definition cand :: "string \<Rightarrow> nat \<Rightarrow> rat \<Rightarrow> ml_candidate" where
  "cand k w p = \<lparr>cand_key = k, build_col = k, probe_col = k, weight_bytes = w, pred_prob = flit p\<rparr>"

theorem knapsack_select_optimal_witness:
  "\<exists>S. subseq S [cand ''big'' 5120 (9 / 10), cand ''med1'' 4096 (7 / 10), cand ''med2'' 3072 (1 / 2)]
       \<and> knapsack_select [cand ''big'' 5120 (9 / 10), cand ''med1'' 4096 (7 / 10), cand ''med2'' 3072 (1 / 2)] 7168
          = cand_key ` set S
       \<and> kb_weight S \<le> to_kb 7168
       \<and> (\<forall>T. subseq T [cand ''big'' 5120 (9 / 10), cand ''med1'' 4096 (7 / 10), cand ''med2'' 3072 (1 / 2)]
              \<and> kb_weight T \<le> to_kb 7168 \<longrightarrow> \<not> flt (fsum S) (fsum T))"
  by (rule knapsack_select_optimal) simp_all

lemma to_kb_covers: "b \<le> 1024 * to_kb b + 1023"
  by (auto simp: to_kb_def max_def) 

lemma bytes_le_kb: "sum_list (map weight_bytes S) \<le> 1024 * kb_weight S + 1023 * length S"
proof (induction S)
  case (Cons c S)
  then show ?case using to_kb_covers [of "weight_bytes c"] by (simp add: kb_weight_def)
qed (simp add: kb_weight_def)

text \<open>What the budget bounds in bytes: the filters selected take at most the budget
  (or one kilobyte, when the budget is smaller) plus 1023 bytes for each filter, because
  every weight is rounded down to whole kilobytes.\<close>

theorem knapsack_select_bytes:
  assumes "cs \<noteq> []" and "0 < budget"
  shows "\<exists>S. subseq S cs \<and> knapsack_select cs budget = cand_key ` set S
           \<and> sum_list (map weight_bytes S) \<le> max budget 1024 + 1023 * length S"
proof (intro exI conjI)
  let ?S = "knap_chosen (to_kb budget) cs"
  show "subseq ?S cs" by (rule knap_chosen_facts)
  show "knapsack_select cs budget = cand_key ` set ?S" using assms by (simp add: knapsack_select_def)
  have "1024 * kb_weight ?S \<le> 1024 * to_kb budget" using knap_chosen_facts(2) by simp
  also have "1024 * to_kb budget \<le> max budget 1024" by (auto simp: to_kb_def max_def)
  finally show "sum_list (map weight_bytes ?S) \<le> max budget 1024 + 1023 * length ?S"
    using bytes_le_kb [of ?S] by linarith
qed

theorem knapsack_select_bytes_witness:
  "\<exists>S. subseq S [cand ''a'' 1000 (9 / 10), cand ''b'' 1500 (7 / 10)]
       \<and> knapsack_select [cand ''a'' 1000 (9 / 10), cand ''b'' 1500 (7 / 10)] 10000 = cand_key ` set S
       \<and> sum_list (map weight_bytes S) \<le> max 10000 1024 + 1023 * length S"
  by (rule knapsack_select_bytes) simp_all


end
