(* ===== verification/BloomTransfer.thy ===== *)
theory BloomTransfer
  imports BloomExec BfModel Knapsack
begin

text \<open>
  The optimizer rule of \<open>physical-optimizer/src/bloom_filter_transfer.rs\<close>: the join graph,
  the insertion of Bloom filters at every inner join, the model-guided variant that inserts
  the selected ones only, and \<open>MultiHopBloomFilterRule::optimize\<close>. A broadcast channel is
  its number; the rewriting draws fresh numbers from a counter. Printing and logging are
  left out; the prediction log is a list of lines.
\<close>

section \<open>Join graph\<close>

record join_edge =
  left_col :: string
  right_col :: string

definition join_edges_of :: "join_info \<Rightarrow> join_edge list" where
  "join_edges_of ji =
     (if ji_type ji = Inner
      then map (\<lambda>(l, r). \<lparr>left_col = show_pexpr l, right_col = show_pexpr r\<rparr>) (ji_on ji) else [])"

fun collect_recursive :: "plan \<Rightarrow> join_edge list \<Rightarrow> join_edge list" where
  "collect_recursive (HashJoinExec ji l r) edges =
     collect_recursive r (collect_recursive l (edges @ join_edges_of ji))"
| "collect_recursive (BloomFilterBuildExec p c ch) edges = collect_recursive p edges"
| "collect_recursive (BloomFilterProbeExec p c ch) edges = collect_recursive p edges"
| "collect_recursive (OtherExec op ps) edges = fold collect_recursive ps edges"

definition collect_join_edges :: "plan \<Rightarrow> join_edge list" where
  "collect_join_edges p = collect_recursive p []"

section \<open>Insertion at every join\<close>

text \<open>
  \<open>fields().iter().find(|f| name.contains(f.name()))\<close>: the first field whose name is a
  substring of the printed key expression.
\<close>

definition resolve_field :: "schema \<Rightarrow> string \<Rightarrow> string option" where
  "resolve_field sch printed =
     map_option field_name (List.find (\<lambda>f. str_contains printed (field_name f)) (schema_fields sch))"

text \<open>The loop over \<open>on\<close>: each resolvable pair wraps both sides once more.\<close>

fun wrap_all :: "(pexpr \<times> pexpr) list \<Rightarrow> plan \<Rightarrow> plan \<Rightarrow> nat \<Rightarrow> plan \<times> plan \<times> nat" where
  "wrap_all [] l r ch = (l, r, ch)"
| "wrap_all ((a, b) # on) l r ch =
     (case (resolve_field (plan_schema l) (show_pexpr a), resolve_field (plan_schema r) (show_pexpr b)) of
        (Some x, Some y) \<Rightarrow>
          wrap_all on (BloomFilterBuildExec l x ch) (BloomFilterProbeExec r y ch) (Suc ch)
      | _ \<Rightarrow> wrap_all on l r ch)"

fun insert_bloom_filters :: "join_edge list \<Rightarrow> plan \<Rightarrow> nat \<Rightarrow> (plan \<times> nat) res"
  and insert_bloom_filters_list :: "join_edge list \<Rightarrow> plan list \<Rightarrow> nat \<Rightarrow> (plan list \<times> nat) res" where
  "insert_bloom_filters edges (HashJoinExec ji l r) ch =
     (if edges = [] then Inr (HashJoinExec ji l r, ch)
      else bind_res (insert_bloom_filters edges l ch) (\<lambda>(l1, ch1).
           bind_res (insert_bloom_filters edges r ch1) (\<lambda>(r1, ch2).
             let (l2, r2, ch3) = (if ji_type ji = Inner then wrap_all (ji_on ji) l1 r1 ch2 else (l1, r1, ch2))
             in bind_res (with_new_children (HashJoinExec ji l r) [l2, r2]) (\<lambda>q. Inr (q, ch3)))))"
| "insert_bloom_filters edges (BloomFilterBuildExec p c k) ch =
     (if edges = [] then Inr (BloomFilterBuildExec p c k, ch)
      else bind_res (insert_bloom_filters edges p ch) (\<lambda>(p1, ch1).
           bind_res (with_new_children (BloomFilterBuildExec p c k) [p1]) (\<lambda>q. Inr (q, ch1))))"
| "insert_bloom_filters edges (BloomFilterProbeExec p c k) ch =
     (if edges = [] then Inr (BloomFilterProbeExec p c k, ch)
      else bind_res (insert_bloom_filters edges p ch) (\<lambda>(p1, ch1).
           bind_res (with_new_children (BloomFilterProbeExec p c k) [p1]) (\<lambda>q. Inr (q, ch1))))"
| "insert_bloom_filters edges (OtherExec op ps) ch =
     (if edges = [] \<or> ps = [] then Inr (OtherExec op ps, ch)
      else bind_res (insert_bloom_filters_list edges ps ch) (\<lambda>(ps1, ch1).
           bind_res (with_new_children (OtherExec op ps) ps1) (\<lambda>q. Inr (q, ch1))))"
| "insert_bloom_filters_list edges [] ch = Inr ([], ch)"
| "insert_bloom_filters_list edges (p # ps) ch =
     bind_res (insert_bloom_filters edges p ch) (\<lambda>(p1, ch1).
     bind_res (insert_bloom_filters_list edges ps ch1) (\<lambda>(ps1, ch2). Inr (p1 # ps1, ch2)))"

section \<open>Model-guided insertion\<close>

text \<open>
  \<open>partition_statistics(None)\<close> is the plan's own: a parameter that gives the row count's
  value, if it is known, or an error.
\<close>

definition extract_features :: "(plan \<Rightarrow> nat option res) \<Rightarrow> plan \<Rightarrow> f64 list" where
  "extract_features num_rows_stat build_side =
     (let card = (case num_rows_stat build_side of
                    Inr v \<Rightarrow> f64_of_usize (case v of None \<Rightarrow> 10000 | Some n \<Rightarrow> n)
                  | Inl _ \<Rightarrow> flit 10000);
          distinct = fmul card (flit (8 / 10));
          size = fmul card (flit 2);
          time = fmul card (flit (17 / 10000));
          ratio = fdiv distinct (fmax card (flit 1))
      in [card, distinct, size, time, ratio])"

definition add_candidate ::
  "schema \<Rightarrow> schema \<Rightarrow> nat \<Rightarrow> f64 \<Rightarrow> pexpr \<times> pexpr \<Rightarrow> ml_candidate list \<Rightarrow> ml_candidate list" where
  "add_candidate ls rs weight prob key_pair cs =
     (case (resolve_field ls (show_pexpr (fst key_pair)), resolve_field rs (show_pexpr (snd key_pair))) of
        (Some x, Some y) \<Rightarrow>
          cs @ [\<lparr>cand_key = x @ ''_'' @ show_nat (length cs), build_col = x, probe_col = y,
                 weight_bytes = weight, pred_prob = prob\<rparr>]
      | _ \<Rightarrow> cs)"

text \<open>The model enters as its prediction on a feature vector.\<close>

fun collect_ml_candidates ::
  "(plan \<Rightarrow> nat option res) \<Rightarrow> (f64 list \<Rightarrow> f64 res option) \<Rightarrow> plan \<Rightarrow> ml_candidate list
    \<Rightarrow> ml_candidate list res option"
  and collect_ml_candidates_list ::
  "(plan \<Rightarrow> nat option res) \<Rightarrow> (f64 list \<Rightarrow> f64 res option) \<Rightarrow> plan list \<Rightarrow> ml_candidate list
    \<Rightarrow> ml_candidate list res option" where
  "collect_ml_candidates stat predict (HashJoinExec ji l r) cs =
     bind_run (collect_ml_candidates stat predict l cs) (\<lambda>cs1.
     bind_run (collect_ml_candidates stat predict r cs1) (\<lambda>cs2.
       if ji_type ji = Inner
       then let features = extract_features stat l in
            bind_run (predict features) (\<lambda>prob.
              Some (Inr (fold (add_candidate (plan_schema l) (plan_schema r)
                                 (usize_of_f64 (features ! 2)) prob) (ji_on ji) cs2)))
       else Some (Inr cs2)))"
| "collect_ml_candidates stat predict (BloomFilterBuildExec p c k) cs = collect_ml_candidates stat predict p cs"
| "collect_ml_candidates stat predict (BloomFilterProbeExec p c k) cs = collect_ml_candidates stat predict p cs"
| "collect_ml_candidates stat predict (OtherExec op ps) cs = collect_ml_candidates_list stat predict ps cs"
| "collect_ml_candidates_list stat predict [] cs = Some (Inr cs)"
| "collect_ml_candidates_list stat predict (p # ps) cs =
     bind_run (collect_ml_candidates stat predict p cs) (\<lambda>cs1. collect_ml_candidates_list stat predict ps cs1)"

fun wrap_selected ::
  "(string \<times> string) set \<Rightarrow> (pexpr \<times> pexpr) list \<Rightarrow> plan \<Rightarrow> plan \<Rightarrow> nat \<Rightarrow> plan \<times> plan \<times> nat" where
  "wrap_selected sel [] l r ch = (l, r, ch)"
| "wrap_selected sel ((a, b) # on) l r ch =
     (case (resolve_field (plan_schema l) (show_pexpr a), resolve_field (plan_schema r) (show_pexpr b)) of
        (Some x, Some y) \<Rightarrow>
          if (x, y) \<in> sel
          then wrap_selected sel on (BloomFilterBuildExec l x ch) (BloomFilterProbeExec r y ch) (Suc ch)
          else wrap_selected sel on l r ch
      | _ \<Rightarrow> wrap_selected sel on l r ch)"

fun insert_bloom_filters_selected :: "(string \<times> string) set \<Rightarrow> plan \<Rightarrow> nat \<Rightarrow> (plan \<times> nat) res"
  and insert_bloom_filters_selected_list ::
    "(string \<times> string) set \<Rightarrow> plan list \<Rightarrow> nat \<Rightarrow> (plan list \<times> nat) res" where
  "insert_bloom_filters_selected sel (HashJoinExec ji l r) ch =
     (if sel = {} then Inr (HashJoinExec ji l r, ch)
      else bind_res (insert_bloom_filters_selected sel l ch) (\<lambda>(l1, ch1).
           bind_res (insert_bloom_filters_selected sel r ch1) (\<lambda>(r1, ch2).
             let (l2, r2, ch3) = (if ji_type ji = Inner then wrap_selected sel (ji_on ji) l1 r1 ch2 else (l1, r1, ch2))
             in bind_res (with_new_children (HashJoinExec ji l r) [l2, r2]) (\<lambda>q. Inr (q, ch3)))))"
| "insert_bloom_filters_selected sel (BloomFilterBuildExec p c k) ch =
     (if sel = {} then Inr (BloomFilterBuildExec p c k, ch)
      else bind_res (insert_bloom_filters_selected sel p ch) (\<lambda>(p1, ch1).
           bind_res (with_new_children (BloomFilterBuildExec p c k) [p1]) (\<lambda>q. Inr (q, ch1))))"
| "insert_bloom_filters_selected sel (BloomFilterProbeExec p c k) ch =
     (if sel = {} then Inr (BloomFilterProbeExec p c k, ch)
      else bind_res (insert_bloom_filters_selected sel p ch) (\<lambda>(p1, ch1).
           bind_res (with_new_children (BloomFilterProbeExec p c k) [p1]) (\<lambda>q. Inr (q, ch1))))"
| "insert_bloom_filters_selected sel (OtherExec op ps) ch =
     (if sel = {} \<or> ps = [] then Inr (OtherExec op ps, ch)
      else bind_res (insert_bloom_filters_selected_list sel ps ch) (\<lambda>(ps1, ch1).
           bind_res (with_new_children (OtherExec op ps) ps1) (\<lambda>q. Inr (q, ch1))))"
| "insert_bloom_filters_selected_list sel [] ch = Inr ([], ch)"
| "insert_bloom_filters_selected_list sel (p # ps) ch =
     bind_res (insert_bloom_filters_selected sel p ch) (\<lambda>(p1, ch1).
     bind_res (insert_bloom_filters_selected_list sel ps ch1) (\<lambda>(ps1, ch2). Inr (p1 # ps1, ch2)))"

definition selected_pairs :: "ml_candidate list \<Rightarrow> string set \<Rightarrow> (string \<times> string) set" where
  "selected_pairs cs keys = (\<lambda>c. (build_col c, probe_col c)) ` set (filter (\<lambda>c. cand_key c \<in> keys) cs)"

text \<open>
  \<open>write_predictions_csv\<close>: one line for each candidate, after a header when the file is new
  or empty. The files are a map from paths to contents; a path that cannot be opened for
  appending is logged and left alone.
\<close>

type_synonym files = "string \<Rightarrow> string option"

definition prediction_line :: "string \<Rightarrow> string set \<Rightarrow> ml_candidate \<Rightarrow> string" where
  "prediction_line qid keys c =
     join_with (CHR '','')
       [qid, build_col c, probe_col c, fmt_fixed 6 (pred_prob c), show_nat (weight_bytes c),
        if cand_key c \<in> keys then ''1'' else ''0''] @ [newline]"

definition write_predictions_csv ::
  "(string \<Rightarrow> string option) \<Rightarrow> (string \<Rightarrow> bool) \<Rightarrow> ml_candidate list \<Rightarrow> string set \<Rightarrow> string \<Rightarrow> files \<Rightarrow> files" where
  "write_predictions_csv env can_open cs keys path fs =
     (let old = (case fs path of None \<Rightarrow> [] | Some content \<Rightarrow> content);
          header = ''query_id,build_col,probe_col,pred_prob,weight_bytes,selected'' @ [newline];
          qid = (case env ''BF_QUERY_ID'' of None \<Rightarrow> ''unknown'' | Some q \<Rightarrow> q)
      in if can_open path
         then fs(path \<mapsto> old @ (if old = [] then header else []) @ concat (map (prediction_line qid keys) cs))
         else fs)"

definition log_predictions ::
  "(string \<Rightarrow> string option) \<Rightarrow> (string \<Rightarrow> bool) \<Rightarrow> ml_candidate list \<Rightarrow> string set \<Rightarrow> files \<Rightarrow> files" where
  "log_predictions env can_open cs keys fs =
     (if env ''BF_LOG_PREDICTIONS'' = Some ''1''
      then write_predictions_csv env can_open cs keys
             (case env ''BF_PREDICTIONS_PATH'' of None \<Rightarrow> ''/tmp/bf_predictions.csv'' | Some v \<Rightarrow> v) fs
      else fs)"

definition insert_bloom_filters_ml ::
  "(string \<Rightarrow> string option) \<Rightarrow> (string \<Rightarrow> bool) \<Rightarrow> (plan \<Rightarrow> nat option res) \<Rightarrow> (f64 list \<Rightarrow> f64 res option)
    \<Rightarrow> nat \<Rightarrow> plan \<Rightarrow> nat \<Rightarrow> files \<Rightarrow> ((plan \<times> nat) \<times> files) res option" where
  "insert_bloom_filters_ml env can_open stat predict budget p ch fs =
     bind_run (collect_ml_candidates stat predict p []) (\<lambda>cs.
       if cs = [] then Some (Inr ((p, ch), fs))
       else let keys = knapsack_select cs budget;
                fs' = log_predictions env can_open cs keys fs
            in Some (bind_res (insert_bloom_filters_selected (selected_pairs cs keys) p ch)
                       (\<lambda>q. Inr (q, fs'))))"

section \<open>The rule\<close>

text \<open>\<open>str::parse::<usize>()\<close>: an optional plus sign, at least one digit, no overflow.\<close>

definition parse_usize :: "string \<Rightarrow> nat option" where
  "parse_usize s =
     (let ds = (if s \<noteq> [] \<and> hd s = CHR ''+'' then tl s else s)
      in if ds \<noteq> [] \<and> list_all is_digit ds \<and> digits_val ds < usize_mod then Some (digits_val ds) else None)"

definition memory_budget :: "(string \<Rightarrow> string option) \<Rightarrow> nat" where
  "memory_budget env =
     (case env ''BF_MEMORY_BUDGET'' of
        None \<Rightarrow> 25000
      | Some s \<Rightarrow> (case parse_usize s of None \<Rightarrow> 25000 | Some n \<Rightarrow> n))"

definition always_build :: "plan \<Rightarrow> nat \<Rightarrow> (plan \<times> nat) res" where
  "always_build p ch =
     (let edges = collect_join_edges p
      in if edges = [] then Inr (p, ch) else insert_bloom_filters edges p ch)"

definition optimize ::
  "(string \<Rightarrow> string option) \<Rightarrow> (string \<Rightarrow> bool) \<Rightarrow> (string \<Rightarrow> gbt_model option) \<Rightarrow> (f64 \<Rightarrow> f64)
    \<Rightarrow> (plan \<Rightarrow> nat option res) \<Rightarrow> files \<Rightarrow> model_cache \<Rightarrow> plan \<Rightarrow> nat
    \<Rightarrow> ((plan \<times> nat) \<times> files) res option \<times> model_cache" where
  "optimize env can_open from_str expf stat fs cell p ch =
     (let policy = (case env ''BF_POLICY'' of None \<Rightarrow> ''always_build'' | Some v \<Rightarrow> v);
          fallback = Some (bind_res (always_build p ch) (\<lambda>q. Inr (q, fs)))
      in if policy = ''ml_guided''
         then let path = (case env ''BF_MODEL_PATH'' of None \<Rightarrow> ''ml/bf_model.json'' | Some v \<Rightarrow> v);
                  (m, cell') = load_model_once fs from_str path cell
              in case m of
                   Some model \<Rightarrow>
                     (insert_bloom_filters_ml env can_open stat (\<lambda>xs. predict_proba expf xs model)
                        (memory_budget env) p ch fs, cell')
                 | None \<Rightarrow> (fallback, cell')
         else (fallback, cell))"

section \<open>The two insertions are one\<close>

text \<open>Inserting everywhere is inserting the selected pairs when all pairs are selected.\<close>

lemma wrap_all_selected: "wrap_all on l r ch = wrap_selected UNIV on l r ch"
  by (induction on l r ch rule: wrap_all.induct) (auto split: option.splits)

lemma insert_all_selected:
  "edges \<noteq> [] \<Longrightarrow> insert_bloom_filters edges p ch = insert_bloom_filters_selected UNIV p ch"
  "edges \<noteq> [] \<Longrightarrow> insert_bloom_filters_list edges ps ch = insert_bloom_filters_selected_list UNIV ps ch"
  by (induction edges p ch and edges ps ch
      rule: insert_bloom_filters_insert_bloom_filters_list.induct)
     (auto simp: wrap_all_selected case_prod_unfold Let_def intro!: bind_res_cong)

section \<open>What the insertion keeps\<close>

text \<open>A plan without its Bloom filter operators.\<close>

fun strip_bloom :: "plan \<Rightarrow> plan" where
  "strip_bloom (HashJoinExec ji l r) = HashJoinExec ji (strip_bloom l) (strip_bloom r)"
| "strip_bloom (BloomFilterBuildExec p c ch) = strip_bloom p"
| "strip_bloom (BloomFilterProbeExec p c ch) = strip_bloom p"
| "strip_bloom (OtherExec op ps) = OtherExec op (map strip_bloom ps)"

lemma wrap_selected_keeps:
  "wrap_selected sel on l r ch = (l2, r2, ch2) \<Longrightarrow>
     plan_schema l2 = plan_schema l \<and> plan_schema r2 = plan_schema r \<and>
     strip_bloom l2 = strip_bloom l \<and> strip_bloom r2 = strip_bloom r \<and>
     valid_plan l2 = valid_plan l \<and> valid_plan r2 = valid_plan r \<and> ch \<le> ch2"
  by (induction sel on l r ch rule: wrap_selected.induct)
     (fastforce dest: Suc_leD split: option.splits if_splits)+

text \<open>
  A successful insertion as a relation, one rule for each way the function returns. The
  properties below are proved by induction over it.
\<close>

inductive inserted :: "(string \<times> string) set \<Rightarrow> plan \<Rightarrow> nat \<Rightarrow> plan \<Rightarrow> nat \<Rightarrow> bool"
  and inserted_list :: "(string \<times> string) set \<Rightarrow> plan list \<Rightarrow> nat \<Rightarrow> plan list \<Rightarrow> nat \<Rightarrow> bool"
  for sel where
  unselected: "sel = {} \<Longrightarrow> inserted sel p ch p ch"
| join: "inserted sel l ch l1 ch1 \<Longrightarrow> inserted sel r ch1 r1 ch2 \<Longrightarrow>
     (if ji_type ji = Inner then wrap_selected sel (ji_on ji) l1 r1 ch2 else (l1, r1, ch2)) = (l2, r2, ch3) \<Longrightarrow>
     hash_join_build ji l2 r2 = Inr (HashJoinExec ji l2 r2) \<Longrightarrow>
     inserted sel (HashJoinExec ji l r) ch (HashJoinExec ji l2 r2) ch3"
| build: "inserted sel p ch p1 ch1 \<Longrightarrow>
     inserted sel (BloomFilterBuildExec p c k) ch (BloomFilterBuildExec p1 c k) ch1"
| probe: "inserted sel p ch p1 ch1 \<Longrightarrow>
     inserted sel (BloomFilterProbeExec p c k) ch (BloomFilterProbeExec p1 c k) ch1"
| leaf: "inserted sel (OtherExec op []) ch (OtherExec op []) ch"
| other: "ps \<noteq> [] \<Longrightarrow> inserted_list sel ps ch ps1 ch1 \<Longrightarrow> op_rebuild op (map plan_schema ps1) = None \<Longrightarrow>
     inserted sel (OtherExec op ps) ch (OtherExec op ps1) ch1"
| none: "inserted_list sel [] ch [] ch"
| more: "inserted sel p ch p1 ch1 \<Longrightarrow> inserted_list sel ps ch1 ps1 ch2 \<Longrightarrow>
     inserted_list sel (p # ps) ch (p1 # ps1) ch2"

lemma inserted_if_Inr:
  "insert_bloom_filters_selected sel p ch = Inr (q, ch') \<Longrightarrow> inserted sel p ch q ch'"
  "insert_bloom_filters_selected_list sel ps ch = Inr (qs, ch') \<Longrightarrow> inserted_list sel ps ch qs ch'"
proof (induction sel p ch and sel ps ch arbitrary: q ch' and qs ch'
    rule: insert_bloom_filters_selected_insert_bloom_filters_selected_list.induct)
  case (1 sel ji l r ch)
  show ?case
  proof (cases "sel = {}")
    case False
    let ?wrap = "\<lambda>l1 r1 ch2. if ji_type ji = Inner then wrap_selected sel (ji_on ji) l1 r1 ch2 else (l1, r1, ch2)"
    from 1(3) False obtain l1 ch1 r1 ch2 where
      a: "insert_bloom_filters_selected sel l ch = Inr (l1, ch1)"
        "insert_bloom_filters_selected sel r ch1 = Inr (r1, ch2)"
      and w: "hash_join_build ji (fst (?wrap l1 r1 ch2)) (fst (snd (?wrap l1 r1 ch2))) = Inr q"
        "snd (snd (?wrap l1 r1 ch2)) = ch'"
      by (auto simp: Let_def case_prod_unfold cong: if_cong)
    obtain l2 r2 where b: "?wrap l1 r1 ch2 = (l2, r2, ch')" "hash_join_build ji l2 r2 = Inr q"
      using w by (cases "?wrap l1 r1 ch2") simp
    have q: "q = HashJoinExec ji l2 r2" using b(2) by (rule hash_join_build_Inr)
    show ?thesis
      using join [OF 1(1) [OF False a(1)] 1(2) [OF False a(1) refl a(2)] b(1)] b(2) unfolding q .
  next
    case True
    with 1(3) show ?thesis by (simp add: unselected)
  qed
next
  case (2 sel p c k ch)
  show ?case
  proof (cases "sel = {}")
    case False
    with 2(2) obtain p1 where "insert_bloom_filters_selected sel p ch = Inr (p1, ch')" "q = BloomFilterBuildExec p1 c k"
      by auto
    with 2(1) [OF False] show ?thesis by (simp add: build)
  qed (use 2(2) in \<open>simp add: unselected\<close>)
next
  case (3 sel p c k ch)
  show ?case
  proof (cases "sel = {}")
    case False
    with 3(2) obtain p1 where "insert_bloom_filters_selected sel p ch = Inr (p1, ch')" "q = BloomFilterProbeExec p1 c k"
      by auto
    with 3(1) [OF False] show ?thesis by (simp add: probe)
  qed (use 3(2) in \<open>simp add: unselected\<close>)
next
  case (4 sel op ps ch)
  consider "sel = {}" | "ps = []" | "sel \<noteq> {}" "ps \<noteq> []" by blast
  then show ?case
  proof cases
    case 3
    with 4(2) obtain ps1 where a: "insert_bloom_filters_selected_list sel ps ch = Inr (ps1, ch')"
      and b: "q = OtherExec op ps1" "op_rebuild op (map plan_schema ps1) = None"
      by (auto split: option.splits)
    have "inserted_list sel ps ch ps1 ch'" using 4(1) 3 a by simp
    from other [OF 3(2) this b(2)] b(1) show ?thesis by simp
  qed (use 4(2) in \<open>auto intro: unselected leaf\<close>)
next
  case (5 sel ch)
  then show ?case by (simp add: none)
next
  case (6 sel p ps ch)
  from 6(3) obtain p1 ch1 ps1 where
    a: "insert_bloom_filters_selected sel p ch = Inr (p1, ch1)"
      "insert_bloom_filters_selected_list sel ps ch1 = Inr (ps1, ch')" and q: "qs = p1 # ps1"
    by auto
  from more [OF 6(1) [OF a(1)] 6(2) [OF a(1) refl a(2)]] show ?case unfolding q .
qed

lemma inserted_keeps:
  "inserted sel p ch q ch' \<Longrightarrow> plan_schema q = plan_schema p \<and> strip_bloom q = strip_bloom p \<and> ch \<le> ch'"
  "inserted_list sel ps ch qs ch' \<Longrightarrow>
     map plan_schema qs = map plan_schema ps \<and> map strip_bloom qs = map strip_bloom ps \<and> ch \<le> ch'"
proof (induction rule: inserted_inserted_list.inducts)
  case (join l ch l1 ch1 r r1 ch2 ji l2 r2 ch3)
  then show ?case using wrap_selected_keeps [of sel "ji_on ji" l1 r1 ch2 l2 r2 ch3]
    by (auto split: if_splits)
qed auto

text \<open>On a valid plan the insertion succeeds, and its result is valid.\<close>

lemma insert_selected_valid:
  "valid_plan p \<Longrightarrow> \<exists>q ch'. insert_bloom_filters_selected sel p ch = Inr (q, ch') \<and> valid_plan q"
  "list_all valid_plan ps \<Longrightarrow>
     \<exists>qs ch'. insert_bloom_filters_selected_list sel ps ch = Inr (qs, ch') \<and> list_all valid_plan qs"
proof (induction sel p ch and sel ps ch
    rule: insert_bloom_filters_selected_insert_bloom_filters_selected_list.induct)
  case (1 sel ji l r ch)
  show ?case
  proof (cases "sel = {}")
    case False
    from 1 False obtain l1 ch1 where l: "insert_bloom_filters_selected sel l ch = Inr (l1, ch1)" "valid_plan l1"
      by auto
    with 1 False obtain r1 ch2 where r: "insert_bloom_filters_selected sel r ch1 = Inr (r1, ch2)" "valid_plan r1"
      by fastforce
    obtain l2 r2 ch3 where
      w: "(if ji_type ji = Inner then wrap_selected sel (ji_on ji) l1 r1 ch2 else (l1, r1, ch2)) = (l2, r2, ch3)"
      by (cases "if ji_type ji = Inner then wrap_selected sel (ji_on ji) l1 r1 ch2 else (l1, r1, ch2)")
    have keep: "plan_schema l2 = plan_schema l" "plan_schema r2 = plan_schema r" "valid_plan l2" "valid_plan r2"
      using w wrap_selected_keeps [of sel "ji_on ji" l1 r1 ch2 l2 r2 ch3] l r
        inserted_keeps(1) [OF inserted_if_Inr(1) [OF l(1)]] inserted_keeps(1) [OF inserted_if_Inr(1) [OF r(1)]]
      by (auto split: if_splits)
    have "hash_join_build ji l2 r2 = Inr (HashJoinExec ji l2 r2)"
      using hash_join_build_schema_cong [OF keep(1,2)] 1(3) by simp
    with l r w False keep show ?thesis by (simp add: Let_def)
  qed (use 1 in auto)
next
  case (4 sel op ps ch)
  show ?case
  proof (cases "sel = {} \<or> ps = []")
    case False
    with 4 obtain qs ch' where q: "insert_bloom_filters_selected_list sel ps ch = Inr (qs, ch')" "list_all valid_plan qs"
      by auto
    have "map plan_schema qs = map plan_schema ps"
      using inserted_keeps(2) [OF inserted_if_Inr(2) [OF q(1)]] by simp
    with 4 q False show ?thesis by auto
  qed (use 4 in auto)
next
  case (6 sel p ps ch)
  from 6 obtain q ch1 where q: "insert_bloom_filters_selected sel p ch = Inr (q, ch1)" "valid_plan q"
    by auto
  with 6 obtain qs ch2 where "insert_bloom_filters_selected_list sel ps ch1 = Inr (qs, ch2)" "list_all valid_plan qs"
    by fastforce
  with q show ?case by auto
next
  case (2 sel p c k ch)
  then show ?case by (cases "sel = {}") auto
next
  case (3 sel p c k ch)
  then show ?case by (cases "sel = {}") auto
next
  case (5 sel ch)
  show ?case by simp
qed

end
