(* ===== verification/RuleProps.thy ===== *)
theory RuleProps
  imports BloomTransfer "HOL-Library.Multiset"
begin

text \<open>
  Properties of the optimizer rule of \<open>BloomTransfer\<close>: it returns on every valid plan, keeps
  the schema and everything but the Bloom filter operators, and wires each channel to one
  build and one probe; the candidates' keys are distinct.
\<close>

section \<open>Inference inside the rule\<close>

lemma predict_returns:
  assumes "wf_model m"
  shows "\<exists>y. predict_proba expf xs m = Some (Inr y)"
proof -
  obtain s where "score_trees (learning_rate m) xs (init_score m) (trees m) = Some (Inr s)"
    using score_trees_returns assms by (fastforce simp: wf_model_def)
  then show ?thesis by (simp add: predict_proba_def)
qed

lemma collect_ml_candidates_returns:
  "\<forall>xs. \<exists>y. predict xs = Some (Inr y) \<Longrightarrow> \<exists>cs'. collect_ml_candidates stat predict p cs = Some (Inr cs')"
  "\<forall>xs. \<exists>y. predict xs = Some (Inr y) \<Longrightarrow> \<exists>cs'. collect_ml_candidates_list stat predict ps cs = Some (Inr cs')"
proof (induction stat predict p cs and stat predict ps cs
    rule: collect_ml_candidates_collect_ml_candidates_list.induct)
  case (1 stat predict ji l r cs)
  obtain cs1 where c1: "collect_ml_candidates stat predict l cs = Some (Inr cs1)"
    using 1(1) [OF 1(3)] by blast
  obtain cs2 where c2: "collect_ml_candidates stat predict r cs1 = Some (Inr cs2)"
    using 1(2) [OF c1 1(3)] by blast
  obtain y where "predict (extract_features stat l) = Some (Inr y)" using 1(3) by blast
  with c1 c2 show ?case by (simp add: Let_def)
next
  case (6 stat predict p ps cs)
  obtain cs1 where c1: "collect_ml_candidates stat predict p cs = Some (Inr cs1)"
    using 6(1) [OF 6(3)] by blast
  show ?case using 6(2) [OF c1 6(3)] c1 by simp
qed simp_all

section \<open>The keys of the candidates\<close>

text \<open>The key of the \<open>n\<close>-th candidate ends in \<open>_n\<close>, so the keys are distinct.\<close>

definition keys_ok :: "ml_candidate list \<Rightarrow> bool" where
  "keys_ok cs \<longleftrightarrow> (\<forall>i < length cs. cand_key (cs ! i) = build_col (cs ! i) @ ''_'' @ show_nat i)"

lemma keys_ok_add: "keys_ok cs \<Longrightarrow> keys_ok (add_candidate ls rs w p kp cs)"
  by (auto simp: keys_ok_def add_candidate_def nth_append less_Suc_eq split: option.splits)

lemma keys_ok_fold: "keys_ok cs \<Longrightarrow> keys_ok (fold (add_candidate ls rs w p) on cs)"
  by (induction on arbitrary: cs) (simp_all add: keys_ok_add)

lemma bind_run_Inr_iff [simp]:
  "bind_run r f = Some (Inr y) \<longleftrightarrow> (\<exists>x. r = Some (Inr x) \<and> f x = Some (Inr y))"
  by (induction r f rule: bind_run.induct) auto

lemma keys_ok_collect:
  "keys_ok cs \<Longrightarrow> collect_ml_candidates stat predict p cs = Some (Inr cs') \<Longrightarrow> keys_ok cs'"
  "keys_ok cs \<Longrightarrow> collect_ml_candidates_list stat predict ps cs = Some (Inr cs') \<Longrightarrow> keys_ok cs'"
proof (induction stat predict p cs and stat predict ps cs arbitrary: cs' and cs'
    rule: collect_ml_candidates_collect_ml_candidates_list.induct)
  case (1 stat predict ji l r cs)
  from 1(4) obtain cs1 cs2 where c: "collect_ml_candidates stat predict l cs = Some (Inr cs1)"
    "collect_ml_candidates stat predict r cs1 = Some (Inr cs2)" by auto
  have "keys_ok cs2" using 1(2) [OF c(1) 1(1) [OF 1(3) c(1)] c(2)] .
  with 1(4) c show ?case by (auto simp: Let_def keys_ok_fold split: if_splits)
next
  case (6 stat predict p ps cs)
  from 6(4) obtain cs1 where c: "collect_ml_candidates stat predict p cs = Some (Inr cs1)"
    "collect_ml_candidates_list stat predict ps cs1 = Some (Inr cs')" by auto
  show ?case using 6(2) [OF c(1) 6(1) [OF 6(3) c(1)] c(2)] .
qed simp_all

lemma no_underscore_in_show_nat: "CHR ''_'' \<notin> set (show_nat n)"
  using show_nat_digits [of n] by (auto simp: is_digit_def)

lemma keys_ok_distinct: "keys_ok cs \<Longrightarrow> distinct (map cand_key cs)"
proof -
  assume ok: "keys_ok cs"
  have "i = j" if "i < length cs" "j < length cs" "cand_key (cs ! i) = cand_key (cs ! j)" for i j
  proof -
    have "build_col (cs ! i) @ CHR ''_'' # show_nat i = build_col (cs ! j) @ CHR ''_'' # show_nat j"
      using that ok by (simp add: keys_ok_def)
    from append_sep_inj [OF this no_underscore_in_show_nat no_underscore_in_show_nat]
    show ?thesis by simp
  qed
  then show ?thesis by (auto simp: distinct_conv_nth)
qed

lemma filter_keys_subseq:
  assumes "subseq S cs" and "distinct (map cand_key cs)"
  shows "filter (\<lambda>c. cand_key c \<in> cand_key ` set S) cs = S"
  using assms
proof (induction cs arbitrary: S rule: list.induct)
  case (Cons c cs)
  show ?case
  proof (cases "S \<noteq> [] \<and> hd S = c")
    case True
    then obtain S' where S: "S = c # S'" by (cases S) auto
    with Cons.prems have sub: "subseq S' cs" and d: "distinct (map cand_key cs)" "cand_key c \<notin> cand_key ` set cs"
      by auto
    have "filter (\<lambda>x. cand_key x \<in> cand_key ` set S) cs = filter (\<lambda>x. cand_key x \<in> cand_key ` set S') cs"
      using d(2) by (intro filter_cong) (auto simp: S image_iff)
    with Cons.IH [OF sub d(1)] show ?thesis by (simp add: S)
  next
    case False
    with Cons.prems have sub: "subseq S cs" by (cases S) (auto split: if_splits)
    then have "set S \<subseteq> set cs" by (auto elim: list_emb_set)
    with Cons.prems have "cand_key c \<notin> cand_key ` set S" by auto
    with Cons.IH [OF sub] Cons.prems show ?thesis by simp
  qed
qed (auto dest: list_emb_Nil2)

section \<open>Channels\<close>

text \<open>The channels the operators of a plan send on and receive from.\<close>

fun build_channels :: "plan \<Rightarrow> nat list" where
  "build_channels (HashJoinExec ji l r) = build_channels l @ build_channels r"
| "build_channels (BloomFilterBuildExec p c k) = k # build_channels p"
| "build_channels (BloomFilterProbeExec p c k) = build_channels p"
| "build_channels (OtherExec op ps) = concat (map build_channels ps)"

fun probe_channels :: "plan \<Rightarrow> nat list" where
  "probe_channels (HashJoinExec ji l r) = probe_channels l @ probe_channels r"
| "probe_channels (BloomFilterBuildExec p c k) = probe_channels p"
| "probe_channels (BloomFilterProbeExec p c k) = k # probe_channels p"
| "probe_channels (OtherExec op ps) = concat (map probe_channels ps)"

lemma channels_cons: "a < b \<Longrightarrow> mset_set {a..<b} = add_mset a (mset_set {Suc a..<b})"
proof -
  assume "a < b"
  then have "{a..<b} = insert a {Suc a..<b}" by auto
  then show ?thesis by simp
qed

lemma channels_append:
  assumes "a \<le> b" and "b \<le> c"
  shows "mset_set {a..<b} + mset_set {b..<c} = mset_set {a..<c :: nat}"
  using mset_set_Union [of "{a..<b}" "{b..<c}"] ivl_disj_un_two(3) [OF assms] by fastforce

lemma wrap_selected_cases:
  obtains (wrap) x y where "resolve_field (plan_schema l) (show_pexpr a) = Some x"
      "resolve_field (plan_schema r) (show_pexpr b) = Some y" "(x, y) \<in> sel"
      "wrap_selected sel ((a, b) # on) l r ch
         = wrap_selected sel on (BloomFilterBuildExec l x ch) (BloomFilterProbeExec r y ch) (Suc ch)"
  | (skip) "wrap_selected sel ((a, b) # on) l r ch = wrap_selected sel on l r ch"
  by (cases "resolve_field (plan_schema l) (show_pexpr a)"; cases "resolve_field (plan_schema r) (show_pexpr b)")
     (force split: if_splits)+

lemma wrap_selected_channels:
  "wrap_selected sel on l r ch = (l2, r2, ch2) \<Longrightarrow>
     mset (build_channels l2) = mset (build_channels l) + mset_set {ch..<ch2} \<and>
     mset (probe_channels r2) = mset (probe_channels r) + mset_set {ch..<ch2} \<and>
     probe_channels l2 = probe_channels l \<and> build_channels r2 = build_channels r \<and>
     ch \<le> ch2 \<and> ch2 \<le> ch + length on"
proof (induction "on" arbitrary: l r ch)
  case (Cons kp on')
  obtain a b where kp: "kp = (a, b)" by fastforce
  show ?case
  proof (cases rule: wrap_selected_cases [of l a r b sel on' ch])
    case (wrap x y)
    with Cons.prems kp have "wrap_selected sel on' (BloomFilterBuildExec l x ch) (BloomFilterProbeExec r y ch) (Suc ch)
        = (l2, r2, ch2)" by simp
    from Cons.IH [OF this] show ?thesis by (simp add: channels_cons)
  next
    case skip
    with Cons.prems kp have "wrap_selected sel on' l r ch = (l2, r2, ch2)" by simp
    from Cons.IH [OF this] show ?thesis by simp
  qed
qed simp

lemma inserted_channels:
  "inserted sel p ch q ch' \<Longrightarrow>
     mset (build_channels q) = mset (build_channels p) + mset_set {ch..<ch'} \<and>
     mset (probe_channels q) = mset (probe_channels p) + mset_set {ch..<ch'}"
  "inserted_list sel ps ch qs ch' \<Longrightarrow>
     mset (concat (map build_channels qs)) = mset (concat (map build_channels ps)) + mset_set {ch..<ch'} \<and>
     mset (concat (map probe_channels qs)) = mset (concat (map probe_channels ps)) + mset_set {ch..<ch'}"
proof (induction rule: inserted_inserted_list.inducts)
  case (join l ch l1 ch1 r r1 ch2 ji l2 r2 ch3)
  have "ch \<le> ch1" "ch1 \<le> ch2" using join(1,3) [THEN inserted_keeps(1)] by simp_all
  show ?case
  proof (cases "ji_type ji = Inner")
    case True
    with join(5) have w: "wrap_selected sel (ji_on ji) l1 r1 ch2 = (l2, r2, ch3)" by simp
    note c = wrap_selected_channels [OF w]
    have "mset_set {ch..<ch3} = mset_set {ch..<ch1} + mset_set {ch1..<ch2} + mset_set {ch2..<ch3}"
      using channels_append [of ch ch1 ch2] channels_append [of ch ch2 ch3] \<open>ch \<le> ch1\<close> \<open>ch1 \<le> ch2\<close> c by simp
    with join(2,4) c show ?thesis by (simp add: ac_simps)
  next
    case False
    with join(5) join(2,4) \<open>ch \<le> ch1\<close> \<open>ch1 \<le> ch2\<close> show ?thesis
      using channels_append [of ch ch1 ch2] by (auto simp: ac_simps)
  qed
next
  case (more p ch p1 ch1 ps ps1 ch2)
  have "ch \<le> ch1" "ch1 \<le> ch2" using inserted_keeps(1) [OF more(1)] inserted_keeps(2) [OF more(3)] by simp_all
  with more(2,4) show ?case using channels_append [of ch ch1 ch2] by (simp add: ac_simps)
qed simp_all

section \<open>Edges\<close>

lemma collect_recursive_append: "collect_recursive p es = es @ collect_recursive p []"
proof (induction p arbitrary: es)
  case (HashJoinExec ji l r)
  have "collect_recursive (HashJoinExec ji l r) es = (es @ join_edges_of ji @ collect_recursive l []) @ collect_recursive r []"
    using HashJoinExec(1) [of "es @ join_edges_of ji"] HashJoinExec(2) [of "es @ join_edges_of ji @ collect_recursive l []"]
    by simp
  moreover have "collect_recursive (HashJoinExec ji l r) [] = (join_edges_of ji @ collect_recursive l []) @ collect_recursive r []"
    using HashJoinExec(1) [of "join_edges_of ji"] HashJoinExec(2) [of "join_edges_of ji @ collect_recursive l []"]
    by simp
  ultimately show ?case by simp
next
  case (OtherExec op ps)
  have "fold collect_recursive qs xs = xs @ fold collect_recursive qs []" if "set qs \<subseteq> set ps" for qs xs
    using that
  proof (induction qs arbitrary: xs)
    case (Cons q qs)
    have "fold collect_recursive (q # qs) ys = ys @ collect_recursive q [] @ fold collect_recursive qs []" for ys
      using Cons.IH [of "ys @ collect_recursive q []"] OtherExec [of q ys] Cons.prems by simp
    from this [of xs] this [of "[]"] show ?case by simp
  qed simp
  from this [of ps es] show ?case by simp
next
  case (BloomFilterBuildExec p c k)
  from this [of es] show ?case by simp
next
  case (BloomFilterProbeExec p c k)
  from this [of es] show ?case by simp
qed

lemma collect_join_edges_simps:
  "collect_join_edges (HashJoinExec ji l r) = join_edges_of ji @ collect_join_edges l @ collect_join_edges r"
  "collect_join_edges (BloomFilterBuildExec p c k) = collect_join_edges p"
  "collect_join_edges (BloomFilterProbeExec p c k) = collect_join_edges p"
  "collect_join_edges (OtherExec op ps) = concat (map collect_join_edges ps)"
proof -
  show "collect_join_edges (HashJoinExec ji l r) = join_edges_of ji @ collect_join_edges l @ collect_join_edges r"
    using collect_recursive_append [of l "join_edges_of ji"]
      collect_recursive_append [of r "join_edges_of ji @ collect_recursive l []"]
    by (simp add: collect_join_edges_def)
  have "fold collect_recursive ps es = es @ concat (map collect_join_edges ps)" for es
  proof (induction ps arbitrary: es)
    case (Cons p ps)
    show ?case using Cons [of "es @ collect_recursive p []"] collect_recursive_append [of p es]
      by (simp add: collect_join_edges_def)
  qed simp
  then show "collect_join_edges (OtherExec op ps) = concat (map collect_join_edges ps)"
    by (simp add: collect_join_edges_def)
qed (simp_all add: collect_join_edges_def)

text \<open>The insertion draws at most one channel for each edge.\<close>

lemma inserted_edges:
  "inserted sel p ch q ch' \<Longrightarrow> ch' \<le> ch + length (collect_join_edges p)"
  "inserted_list sel ps ch qs ch' \<Longrightarrow> ch' \<le> ch + length (concat (map collect_join_edges ps))"
proof (induction rule: inserted_inserted_list.inducts)
  case (join l ch l1 ch1 r r1 ch2 ji l2 r2 ch3)
  then show ?case using wrap_selected_channels [of sel "ji_on ji" l1 r1 ch2 l2 r2 ch3]
    by (auto simp: collect_join_edges_simps join_edges_of_def split: if_splits)
qed (simp_all add: collect_join_edges_simps)

section \<open>The rule returns an insertion\<close>

definition parses_wf :: "(string \<Rightarrow> gbt_model option) \<Rightarrow> model_cache \<Rightarrow> bool" where
  "parses_wf from_str cell \<longleftrightarrow>
     (\<forall>txt m. from_str txt = Some m \<longrightarrow> wf_model m) \<and> (\<forall>m. cell = Some (Some m) \<longrightarrow> wf_model m)"

lemma load_model_wf:
  "parses_wf from_str cell \<Longrightarrow> load_model_once fs from_str path cell = (Some m, cell') \<Longrightarrow> wf_model m"
  by (auto simp: parses_wf_def load_model_once_def Let_def split: option.splits)

lemma always_build_inserted:
  assumes "valid_plan p"
  shows "\<exists>sel q ch'. always_build p ch = Inr (q, ch') \<and> inserted sel p ch q ch' \<and> valid_plan q"
proof (cases "collect_join_edges p = []")
  case True
  with assms show ?thesis by (auto simp: always_build_def intro: unselected [of "{}"])
next
  case False
  obtain q ch' where q: "insert_bloom_filters_selected UNIV p ch = Inr (q, ch')" "valid_plan q"
    using insert_selected_valid(1) [OF assms] by blast
  with False have "always_build p ch = Inr (q, ch')"
    by (simp add: always_build_def insert_all_selected(1) Let_def)
  with q inserted_if_Inr(1) [OF q(1)] show ?thesis by blast
qed

lemma ml_inserted:
  assumes "valid_plan p" and "\<forall>xs. \<exists>y. predict xs = Some (Inr y)"
  shows "\<exists>sel q ch' fs'. insert_bloom_filters_ml env can_open stat predict budget p ch fs = Some (Inr ((q, ch'), fs'))
           \<and> inserted sel p ch q ch' \<and> valid_plan q"
proof -
  obtain cs where cs: "collect_ml_candidates stat predict p [] = Some (Inr cs)"
    using collect_ml_candidates_returns(1) [OF assms(2)] by blast
  show ?thesis
  proof (cases "cs = []")
    case True
    with cs assms(1) show ?thesis by (auto simp: insert_bloom_filters_ml_def intro: unselected [of "{}"])
  next
    case False
    let ?sel = "selected_pairs cs (knapsack_select cs budget)"
    obtain q ch' where q: "insert_bloom_filters_selected ?sel p ch = Inr (q, ch')" "valid_plan q"
      using insert_selected_valid(1) [OF assms(1)] by blast
    with cs False inserted_if_Inr(1) [OF q(1)] show ?thesis
      by (auto simp: insert_bloom_filters_ml_def Let_def)
  qed
qed

lemma optimize_inserted:
  assumes "valid_plan p" and "parses_wf from_str cell"
  shows "\<exists>sel q ch' fs' cell'. optimize env can_open from_str expf stat fs cell p ch = (Some (Inr ((q, ch'), fs')), cell')
           \<and> inserted sel p ch q ch' \<and> valid_plan q"
proof -
  obtain sel q ch' where b: "always_build p ch = Inr (q, ch')" "inserted sel p ch q ch'" "valid_plan q"
    using always_build_inserted [OF assms(1)] by blast
  let ?path = "case env ''BF_MODEL_PATH'' of None \<Rightarrow> ''ml/bf_model.json'' | Some v \<Rightarrow> v"
  obtain m cell' where l: "load_model_once fs from_str ?path cell = (m, cell')" by fastforce
  show ?thesis
  proof (cases "env ''BF_POLICY'' = Some ''ml_guided'' \<and> m \<noteq> None")
    case True
    then obtain model where m: "m = Some model" by blast
    have "\<forall>xs. \<exists>y. predict_proba expf xs model = Some (Inr y)"
      using predict_returns load_model_wf [OF assms(2)] l m by blast
    from ml_inserted [OF assms(1) this] True l m show ?thesis
      by (fastforce simp: optimize_def Let_def)
  next
    case False
    with b l show ?thesis
      by (cases "env ''BF_POLICY'' = Some ''ml_guided''"; cases "env ''BF_POLICY''")
        (auto simp: optimize_def Let_def)
  qed
qed

section \<open>Columns always resolve\<close>

text \<open>Every key of every inner join is a plain column.\<close>

fun is_column :: "pexpr \<Rightarrow> bool" where
  "is_column (Column n i) = True"
| "is_column (OtherExpr d cols ev) = False"

lemma is_column_iff: "is_column e \<longleftrightarrow> (\<exists>n i. e = Column n i)"
  by (cases e) auto

fun column_keys :: "plan \<Rightarrow> bool" where
  "column_keys (HashJoinExec ji l r) =
     ((ji_type ji = Inner \<longrightarrow> list_all (\<lambda>(a, b). is_column a \<and> is_column b) (ji_on ji))
      \<and> column_keys l \<and> column_keys r)"
| "column_keys (BloomFilterBuildExec p c k) = column_keys p"
| "column_keys (BloomFilterProbeExec p c k) = column_keys p"
| "column_keys (OtherExec op ps) = list_all column_keys ps"

lemma resolve_column:
  assumes "(n, i) \<in> set (schema_columns sch)"
  shows "\<exists>x. resolve_field sch (show_pexpr (Column n i)) = Some x"
proof -
  obtain f where "f \<in> set (schema_fields sch)" "field_name f = n"
    using assms nth_mem by (fastforce simp: schema_columns_def in_set_enumerate_eq)
  moreover have "str_contains (show_pexpr (Column n i)) n"
    using str_contains_append [of "[]" n] by simp
  ultimately have "List.find (\<lambda>f. str_contains (show_pexpr (Column n i)) (field_name f)) (schema_fields sch) \<noteq> None"
    by (auto simp: find_None_iff)
  then show ?thesis by (auto simp: resolve_field_def)
qed

definition pairs_resolve :: "plan \<Rightarrow> plan \<Rightarrow> (pexpr \<times> pexpr) list \<Rightarrow> bool" where
  "pairs_resolve l r on \<longleftrightarrow> (\<forall>(a, b) \<in> set on.
     resolve_field (plan_schema l) (show_pexpr a) \<noteq> None \<and> resolve_field (plan_schema r) (show_pexpr b) \<noteq> None)"

lemma valid_pairs_resolve:
  assumes "hash_join_build ji l r = Inr (HashJoinExec ji l r)"
    and "list_all (\<lambda>(a, b). is_column a \<and> is_column b) (ji_on ji)"
  shows "pairs_resolve l r (ji_on ji)"
  unfolding pairs_resolve_def
proof (clarify, intro conjI)
  fix a b assume ab: "(a, b) \<in> set (ji_on ji)"
  then obtain n i m j where [simp]: "a = Column n i" "b = Column m j"
    using assms(2) by (auto simp: list_all_iff is_column_iff)
  have "check_join_is_valid (plan_schema l) (plan_schema r) (ji_on ji) = Inr ()"
    using assms(1) by (auto simp: hash_join_build_def split: if_splits)
  then have "set (concat (map (collect_columns \<circ> fst) (ji_on ji))) \<subseteq> set (schema_columns (plan_schema l))"
    "set (concat (map (collect_columns \<circ> snd) (ji_on ji))) \<subseteq> set (schema_columns (plan_schema r))"
    by (simp_all add: check_join_is_valid_def Let_def split: if_splits)
  moreover have "(n, i) \<in> set (concat (map (collect_columns \<circ> fst) (ji_on ji)))"
    "(m, j) \<in> set (concat (map (collect_columns \<circ> snd) (ji_on ji)))"
    using ab by force+
  ultimately have "(n, i) \<in> set (schema_columns (plan_schema l))" "(m, j) \<in> set (schema_columns (plan_schema r))"
    by blast+
  then show "resolve_field (plan_schema l) (show_pexpr a) \<noteq> None" "resolve_field (plan_schema r) (show_pexpr b) \<noteq> None"
    using resolve_column [of n i] resolve_column [of m j] by fastforce+
qed

lemma wrap_all_resolved:
  "pairs_resolve l r on \<Longrightarrow> wrap_selected UNIV on l r ch = (l2, r2, ch2) \<Longrightarrow> ch2 = ch + length on"
proof (induction "on" arbitrary: l r ch)
  case (Cons kp on')
  obtain a b where kp: "kp = (a, b)" by fastforce
  then obtain x y where "resolve_field (plan_schema l) (show_pexpr a) = Some x"
    "resolve_field (plan_schema r) (show_pexpr b) = Some y"
    using Cons.prems(1) by (auto simp: pairs_resolve_def)
  with Cons.prems(2) kp have "wrap_selected UNIV on' (BloomFilterBuildExec l x ch) (BloomFilterProbeExec r y ch) (Suc ch)
      = (l2, r2, ch2)" by simp
  moreover have "pairs_resolve (BloomFilterBuildExec l x ch) (BloomFilterProbeExec r y ch) on'"
    using Cons.prems(1) by (simp add: pairs_resolve_def)
  ultimately show ?case using Cons.IH by fastforce
qed simp

lemma inserted_all_edges:
  "inserted UNIV p ch q ch' \<Longrightarrow> valid_plan p \<Longrightarrow> column_keys p \<Longrightarrow> ch' = ch + length (collect_join_edges p)"
  "inserted_list UNIV ps ch qs ch' \<Longrightarrow> list_all valid_plan ps \<Longrightarrow> list_all column_keys ps \<Longrightarrow>
     ch' = ch + length (concat (map collect_join_edges ps))"
proof (induction rule: inserted_inserted_list.inducts)
  case (join l ch l1 ch1 r r1 ch2 ji l2 r2 ch3)
  have eq: "ch2 = ch + length (collect_join_edges l) + length (collect_join_edges r)"
    using join by simp
  have sch: "plan_schema l1 = plan_schema l" "plan_schema r1 = plan_schema r"
    using join(1,3) [THEN inserted_keeps(1)] by simp_all
  show ?case
  proof (cases "ji_type ji = Inner")
    case True
    have "pairs_resolve l r (ji_on ji)" using join.prems True by (intro valid_pairs_resolve) auto
    then have "pairs_resolve l1 r1 (ji_on ji)" by (simp add: pairs_resolve_def sch)
    from wrap_all_resolved [OF this, of ch2 l2 r2 ch3] join(5) True have "ch3 = ch2 + length (ji_on ji)" by simp
    with True eq show ?thesis by (simp add: collect_join_edges_simps join_edges_of_def)
  next
    case False
    with join(5) eq show ?thesis by (simp add: collect_join_edges_simps join_edges_of_def)
  qed
qed (simp_all add: collect_join_edges_simps)

lemma no_edges_no_candidates:
  "valid_plan p \<Longrightarrow> collect_join_edges p = [] \<Longrightarrow> collect_ml_candidates stat predict p cs = Some (Inr cs)"
  "list_all valid_plan ps \<Longrightarrow> concat (map collect_join_edges ps) = [] \<Longrightarrow>
     collect_ml_candidates_list stat predict ps cs = Some (Inr cs)"
proof (induction stat predict p cs and stat predict ps cs
    rule: collect_ml_candidates_collect_ml_candidates_list.induct)
  case (1 stat predict ji l r cs)
  have "ji_on ji \<noteq> []" using 1(3) by (auto simp: hash_join_build_def split: if_splits)
  with 1 show ?case by (auto simp: collect_join_edges_simps join_edges_of_def split: if_splits)
qed (simp_all add: collect_join_edges_simps)

section \<open>Properties\<close>

definition demo_schema :: "string \<Rightarrow> schema" where
  "demo_schema n = \<lparr>schema_fields = [\<lparr>field_name = n, field_type = Int64, nullable = True\<rparr>], metadata = Map.empty\<rparr>"

definition demo_scan :: "string \<Rightarrow> batch list \<Rightarrow> plan" where
  "demo_scan n bs = OtherExec \<lparr>op_name = ''DataSourceExec'', op_schema = (\<lambda>_. demo_schema n),
                       op_rebuild = (\<lambda>_. None), op_run = (\<lambda>_. bs)\<rparr> []"

definition demo_on :: "string \<Rightarrow> string \<Rightarrow> join_info" where
  "demo_on a b = \<lparr>ji_on = [(Column a 0, Column b 0)], ji_filter = (\<lambda>_ _. True), ji_type = Inner,
                  ji_mode = CollectLeft, ji_projection = None, ji_null_equality = NullEqualsNothing,
                  ji_null_aware = False, ji_fetch = None\<rparr>"

definition demo_keys :: "int list \<Rightarrow> batch" where
  "demo_keys ks = \<lparr>col_types = [Int64], rows = map (\<lambda>k. [CInt k]) ks\<rparr>"

definition demo_join :: plan where
  "demo_join = HashJoinExec (demo_on ''a'' ''b'')
     (demo_scan ''a'' [demo_keys [1, 2]]) (demo_scan ''b'' [demo_keys [2, 3, 4]])"

lemma demo_join_valid: "valid_plan demo_join"
  by (simp add: demo_join_def demo_scan_def demo_on_def demo_schema_def hash_join_build_def
      check_join_is_valid_def schema_columns_def)








definition demo_candidate :: ml_candidate where
  "demo_candidate = \<lparr>cand_key = ''a_0'', build_col = ''a'', probe_col = ''b'', weight_bytes = 14, pred_prob = flit (1 / 2)\<rparr>"

lemma demo_candidates:
  "collect_ml_candidates (\<lambda>_. Inr (Some 7)) (\<lambda>_. Some (Inr (flit (1 / 2)))) demo_join [] = Some (Inr [demo_candidate])"
  by (simp add: demo_join_def demo_scan_def demo_on_def demo_schema_def add_candidate_def resolve_field_def
      extract_features_def demo_candidate_def show_nat.simps digit_char_def f64_eval f64_of_usize_def Let_def)


text \<open>A plan without join edges is left alone, under either policy: the rule returns the
  very plan, draws no channel and writes no file.\<close>

theorem optimize_no_edges:
  assumes "valid_plan p" and "collect_join_edges p = []"
  shows "fst (optimize env can_open from_str expf stat fs cell p ch) = Some (Inr ((p, ch), fs))"
proof -
  have "collect_ml_candidates stat predict p [] = Some (Inr [])" for predict
    using no_edges_no_candidates(1) assms by blast
  with assms(2) show ?thesis
    by (auto simp: optimize_def always_build_def insert_bloom_filters_ml_def Let_def split: option.splits prod.splits)
qed

theorem optimize_no_edges_witness:
  "fst (optimize (\<lambda>_. Some ''ml_guided'') (\<lambda>_. True) (\<lambda>_. None) exp_limits (\<lambda>_. Inr None) Map.empty None
      (demo_scan ''a'' []) 9) = Some (Inr ((demo_scan ''a'' [], 9), Map.empty))"
  by (rule optimize_no_edges) (simp_all add: demo_scan_def collect_join_edges_simps)

end
