(* ===== verification/JoinSpec.thy ===== *)
theory JoinSpec
  imports Plan "HOL-Library.Multiset"
begin

text \<open>
  What a join of two tables is, row by row, for every join type: the specification the
  hash join is measured against. A column of the output is a column of the left or the
  right row, null where that side has no row, or the mark of a mark join.
\<close>

definition keys_match :: "null_equality \<Rightarrow> (pexpr \<times> pexpr) list \<Rightarrow> row \<Rightarrow> row \<Rightarrow> bool" where
  "keys_match neq on l r \<longleftrightarrow> list_all (\<lambda>(a, b).
     eval_pexpr a l = eval_pexpr b r \<and> (neq = NullEqualsNothing \<longrightarrow> eval_pexpr a l \<noteq> CNull)) on"

definition inner_join_rows :: "join_info \<Rightarrow> row list \<Rightarrow> row list \<Rightarrow> row list" where
  "inner_join_rows ji L R =
     concat (map (\<lambda>r. map (\<lambda>l. l @ r)
       (filter (\<lambda>l. keys_match (ji_null_equality ji) (ji_on ji) l r \<and> ji_filter ji l r) L)) R)"

definition project_row :: "nat list option \<Rightarrow> row \<Rightarrow> row" where
  "project_row proj r = (case proj of None \<Rightarrow> r | Some is \<Rightarrow> map (\<lambda>i. r ! i) is)"

definition take_fetch :: "nat option \<Rightarrow> 'a list \<Rightarrow> 'a list" where
  "take_fetch n xs = (case n of None \<Rightarrow> xs | Some k \<Rightarrow> take k xs)"

section \<open>All join types\<close>

definition joins :: "join_info \<Rightarrow> row \<Rightarrow> row \<Rightarrow> bool" where
  "joins ji l r \<longleftrightarrow> keys_match (ji_null_equality ji) (ji_on ji) l r \<and> ji_filter ji l r"

fun join_cell :: "row option \<Rightarrow> row option \<Rightarrow> bool \<Rightarrow> column_index \<Rightarrow> cell" where
  "join_cell l r mark (i, SideLeft) = (case l of None \<Rightarrow> CNull | Some row \<Rightarrow> row ! i)"
| "join_cell l r mark (i, SideRight) = (case r of None \<Rightarrow> CNull | Some row \<Rightarrow> row ! i)"
| "join_cell l r mark (i, SideNone) = CBool mark"

definition join_row :: "column_index list \<Rightarrow> row option \<Rightarrow> row option \<Rightarrow> bool \<Rightarrow> row" where
  "join_row cols l r mark = map (join_cell l r mark) cols"

text \<open>The columns of the output, after the projection of the join.\<close>

definition output_columns :: "join_info \<Rightarrow> schema \<Rightarrow> schema \<Rightarrow> column_index list" where
  "output_columns ji ls rs =
     (let cols = snd (build_join_schema ls rs (ji_type ji))
      in case ji_projection ji of None \<Rightarrow> cols | Some is \<Rightarrow> map (\<lambda>i. cols ! i) is)"

definition matched_rows :: "join_info \<Rightarrow> column_index list \<Rightarrow> row list \<Rightarrow> row list \<Rightarrow> row list" where
  "matched_rows ji cols L R =
     concat (map (\<lambda>r. map (\<lambda>l. join_row cols (Some l) (Some r) True) (filter (\<lambda>l. joins ji l r) L)) R)"

definition left_joined :: "join_info \<Rightarrow> row list \<Rightarrow> row \<Rightarrow> bool" where
  "left_joined ji R l \<longleftrightarrow> list_ex (\<lambda>r. joins ji l r) R"

definition right_joined :: "join_info \<Rightarrow> row list \<Rightarrow> row \<Rightarrow> bool" where
  "right_joined ji L r \<longleftrightarrow> list_ex (\<lambda>l. joins ji l r) L"

definition left_rows :: "column_index list \<Rightarrow> (row \<Rightarrow> bool) \<Rightarrow> row list \<Rightarrow> row list" where
  "left_rows cols P L = map (\<lambda>l. join_row cols (Some l) None False) (filter P L)"

definition right_rows :: "column_index list \<Rightarrow> (row \<Rightarrow> bool) \<Rightarrow> row list \<Rightarrow> row list" where
  "right_rows cols P R = map (\<lambda>r. join_row cols None (Some r) False) (filter P R)"

definition join_rows :: "join_info \<Rightarrow> column_index list \<Rightarrow> row list \<Rightarrow> row list \<Rightarrow> row list" where
  "join_rows ji cols L R =
     (case ji_type ji of
        Inner \<Rightarrow> matched_rows ji cols L R
      | Left \<Rightarrow> matched_rows ji cols L R @ left_rows cols (\<lambda>l. \<not> left_joined ji R l) L
      | Right \<Rightarrow> matched_rows ji cols L R @ right_rows cols (\<lambda>r. \<not> right_joined ji L r) R
      | Full \<Rightarrow> matched_rows ji cols L R @ right_rows cols (\<lambda>r. \<not> right_joined ji L r) R
                  @ left_rows cols (\<lambda>l. \<not> left_joined ji R l) L
      | LeftSemi \<Rightarrow> left_rows cols (left_joined ji R) L
      | LeftAnti \<Rightarrow> left_rows cols (\<lambda>l. \<not> left_joined ji R l) L
      | LeftMark \<Rightarrow> map (\<lambda>l. join_row cols (Some l) None (left_joined ji R l)) L
      | RightSemi \<Rightarrow> right_rows cols (right_joined ji L) R
      | RightAnti \<Rightarrow> right_rows cols (\<lambda>r. \<not> right_joined ji L r) R
      | RightMark \<Rightarrow> map (\<lambda>r. join_row cols None (Some r) (right_joined ji L r)) R)"

text \<open>
  The left rows whose key is \<open>NOT IN\<close> the right keys, in SQL's three-valued logic: comparing
  it with every right key gives false, so neither is null. A null-aware anti join computes
  them.
\<close>

definition not_in :: "join_info \<Rightarrow> row list \<Rightarrow> row \<Rightarrow> bool" where
  "not_in ji R l = list_all (\<lambda>r. eval_pexpr (fst (hd (ji_on ji))) l \<noteq> CNull \<and> eval_pexpr (snd (hd (ji_on ji))) r \<noteq> CNull
     \<and> eval_pexpr (fst (hd (ji_on ji))) l \<noteq> eval_pexpr (snd (hd (ji_on ji))) r) R"

end
