(* ===== verification/Pipeline.thy ===== *)
theory Pipeline
  imports RuleProps JoinSpec
begin

text \<open>
  What running a plan yields, for one partition, and the soundness of the transfer: the
  plan the rule returns yields what the original plan yields. Running follows the order of
  \<open>HashJoinExec\<close>: the left input is collected before the right one is polled. A channel
  holds the payload sent on it; a probe whose channel holds nothing waits for ever, which is
  \<^const>\<open>None\<close>. The rows of an inner join are specified here; the other join types are a
  parameter, as are the operators of the engine the rule does not touch. How a join cuts
  its output into batches is not modelled: it is one batch.
\<close>

section \<open>Joining\<close>

type_synonym join_runner = "join_info \<Rightarrow> schema \<Rightarrow> schema \<Rightarrow> batch list \<Rightarrow> batch list \<Rightarrow> batch list"

definition hash_join_run :: "join_runner \<Rightarrow> join_runner" where
  "hash_join_run J ji ls rs L R =
     (if ji_type ji = Inner
      then [\<lparr>col_types = map field_type (schema_fields (hash_join_schema ji ls rs)),
             rows = take_fetch (ji_fetch ji)
               (map (project_row (ji_projection ji)) (inner_join_rows ji (flat_rows L) (flat_rows R)))\<rparr>]
      else J ji ls rs L R)"

section \<open>Running a plan\<close>

type_synonym 'bf channels = "nat \<Rightarrow> 'bf bloom_payload option"

fun sent :: "(batch res list \<times> 'bf bloom_payload option) res \<Rightarrow> (batch list \<times> 'bf bloom_payload) option" where
  "sent (Inr (items, Some payload)) = (case collect_res items of Inr bs \<Rightarrow> Some (bs, payload) | Inl e \<Rightarrow> None)"
| "sent _ = None"

fun received :: "(batch res list \<times> filter_metrics option) res \<Rightarrow> batch list option" where
  "received (Inr (items, m)) = (case collect_res items of Inr bs \<Rightarrow> Some bs | Inl e \<Rightarrow> None)"
| "received (Inl e) = None"

fun run :: "'bf externals \<Rightarrow> (string \<Rightarrow> string option) \<Rightarrow> f64 \<Rightarrow> join_runner \<Rightarrow> plan \<Rightarrow> 'bf channels
    \<Rightarrow> (batch list \<times> 'bf channels) option"
  and run_list :: "'bf externals \<Rightarrow> (string \<Rightarrow> string option) \<Rightarrow> f64 \<Rightarrow> join_runner \<Rightarrow> plan list \<Rightarrow> 'bf channels
    \<Rightarrow> (batch list list \<times> 'bf channels) option" where
  "run ext env t J (HashJoinExec ji l r) st =
     do { (L, st1) \<leftarrow> run ext env t J l st;
          (R, st2) \<leftarrow> run ext env t J r st1;
          Some (hash_join_run J ji (plan_schema l) (plan_schema r) L R, st2) }"
| "run ext env t J (BloomFilterBuildExec p c ch) st =
     do { (bs, st1) \<leftarrow> run ext env t J p st;
          (bs', payload) \<leftarrow> sent (build_execute ext (plan_schema p) c t (Inr (map Inr bs)));
          Some (bs', st1(ch \<mapsto> payload)) }"
| "run ext env t J (BloomFilterProbeExec p c ch) st =
     do { payload \<leftarrow> st ch;
          (bs, st1) \<leftarrow> run ext env t J p st;
          bs' \<leftarrow> received (probe_execute ext env (plan_schema p) c (Some payload) t (Inr (map Inr bs)));
          Some (bs', st1) }"
| "run ext env t J (OtherExec op ps) st =
     do { (bss, st1) \<leftarrow> run_list ext env t J ps st; Some (op_run op bss, st1) }"
| "run_list ext env t J [] st = Some ([], st)"
| "run_list ext env t J (p # ps) st =
     do { (bs, st1) \<leftarrow> run ext env t J p st;
          (bss, st2) \<leftarrow> run_list ext env t J ps st1;
          Some (bs # bss, st2) }"

text \<open>What a plan stands for: its Bloom filter operators change nothing.\<close>

fun denote :: "join_runner \<Rightarrow> plan \<Rightarrow> batch list" where
  "denote J (HashJoinExec ji l r) =
     hash_join_run J ji (plan_schema l) (plan_schema r) (denote J l) (denote J r)"
| "denote J (BloomFilterBuildExec p c ch) = denote J p"
| "denote J (BloomFilterProbeExec p c ch) = denote J p"
| "denote J (OtherExec op ps) = op_run op (map (denote J) ps)"

section \<open>Conditions\<close>

text \<open>Every input of an inner join yields batches of its schema.\<close>

fun well_typed :: "join_runner \<Rightarrow> plan \<Rightarrow> bool" where
  "well_typed J (HashJoinExec ji l r) =
     (batches_ok (plan_schema l) (denote J l) \<and> batches_ok (plan_schema r) (denote J r)
      \<and> well_typed J l \<and> well_typed J r)"
| "well_typed J (BloomFilterBuildExec p c ch) = well_typed J p"
| "well_typed J (BloomFilterProbeExec p c ch) = well_typed J p"
| "well_typed J (OtherExec op ps) = list_all (well_typed J) ps"

text \<open>
  A pair of keys for which the rule finds the right columns: both are columns, the field
  found for each is the column it names, and the two have the same type.
\<close>

definition exact_pair :: "schema \<Rightarrow> schema \<Rightarrow> pexpr \<times> pexpr \<Rightarrow> bool" where
  "exact_pair ls rs key_pair =
     (case key_pair of
        (Column n i, Column m j) \<Rightarrow>
          (case (resolve_field ls (show_pexpr (Column n i)), resolve_field rs (show_pexpr (Column m j))) of
             (Some x, Some y) \<Rightarrow>
               key_position ls x = Some i \<and> key_position rs y = Some j
               \<and> field_type (schema_fields ls ! i) = field_type (schema_fields rs ! j)
           | _ \<Rightarrow> False)
      | _ \<Rightarrow> False)"

fun transfer_safe :: "plan \<Rightarrow> bool" where
  "transfer_safe (HashJoinExec ji l r) =
     ((ji_type ji = Inner \<longrightarrow> ji_null_equality ji = NullEqualsNothing
         \<and> list_all (exact_pair (plan_schema l) (plan_schema r)) (ji_on ji))
      \<and> transfer_safe l \<and> transfer_safe r)"
| "transfer_safe (BloomFilterBuildExec p c ch) = transfer_safe p"
| "transfer_safe (BloomFilterProbeExec p c ch) = transfer_safe p"
| "transfer_safe (OtherExec op ps) = list_all transfer_safe ps"

fun bloom_free :: "plan \<Rightarrow> bool" where
  "bloom_free (HashJoinExec ji l r) = (bloom_free l \<and> bloom_free r)"
| "bloom_free (BloomFilterBuildExec p c ch) = False"
| "bloom_free (BloomFilterProbeExec p c ch) = False"
| "bloom_free (OtherExec op ps) = list_all bloom_free ps"

section \<open>Reduction of the right input\<close>

text \<open>Dropping right rows that match nothing on the left does not change an inner join.\<close>

lemma inner_join_rows_filter:
  assumes "\<forall>l \<in> set L. \<forall>r \<in> set R. keys_match (ji_null_equality ji) (ji_on ji) l r \<longrightarrow> Q r"
  shows "inner_join_rows ji L (filter Q R) = inner_join_rows ji L R"
  using assms
proof (induction R)
  case (Cons r R)
  have "filter (\<lambda>l. keys_match (ji_null_equality ji) (ji_on ji) l r \<and> ji_filter ji l r) L = []" if "\<not> Q r"
    using Cons.prems that by (auto simp: filter_empty_conv)
  with Cons show ?case by (auto simp: inner_join_rows_def)
qed (simp add: inner_join_rows_def)

definition reduces :: "join_info \<Rightarrow> schema \<Rightarrow> batch list \<Rightarrow> batch list \<Rightarrow> batch list \<Rightarrow> bool" where
  "reduces ji rs L R R' \<longleftrightarrow> batches_ok rs R' \<and>
     (\<exists>Q. flat_rows R' = filter Q (flat_rows R) \<and>
        (\<forall>l \<in> set (flat_rows L). \<forall>r \<in> set (flat_rows R).
           keys_match (ji_null_equality ji) (ji_on ji) l r \<longrightarrow> Q r))"

lemma reduces_join:
  "reduces ji rs L R R' \<Longrightarrow> ji_type ji = Inner \<Longrightarrow> hash_join_run J ji ls rs L R' = hash_join_run J ji ls rs L R"
  using inner_join_rows_filter by (auto simp: reduces_def hash_join_run_def)

lemma reduces_refl: "batches_ok rs R \<Longrightarrow> reduces ji rs L R R"
  unfolding reduces_def by (intro conjI exI [of _ "\<lambda>_. True"]) auto

lemma reduces_probe:
  assumes "reduces ji rs L R R'"
    and "\<forall>l \<in> set (flat_rows L). \<forall>r \<in> set (flat_rows R). keys_match (ji_null_equality ji) (ji_on ji) l r \<longrightarrow>
           probe_row ext bf (field_type (schema_fields rs ! j)) (r ! j)"
    and "j < length (schema_fields rs)"
  shows "reduces ji rs L R (map (probe_batch ext bf j) R')"
proof -
  let ?P = "\<lambda>r. probe_row ext bf (field_type (schema_fields rs ! j)) (r ! j)"
  obtain Q where ok: "batches_ok rs R'" and Q: "flat_rows R' = filter Q (flat_rows R)"
    "\<forall>l \<in> set (flat_rows L). \<forall>r \<in> set (flat_rows R). keys_match (ji_null_equality ji) (ji_on ji) l r \<longrightarrow> Q r"
    using assms(1) by (auto simp: reduces_def)
  have rows: "rows (probe_batch ext bf j b) = filter ?P (rows b)" if "b \<in> set R'" for b
    using that ok assms(3) by (auto simp: probe_batch_def batch_ok_def list_all_iff)
  have "batches_ok rs (map (probe_batch ext bf j) R')"
    using ok by (fastforce simp: probe_batch_def batch_ok_def list_all_iff)
  moreover have "flat_rows (map (probe_batch ext bf j) R') = filter ?P (flat_rows R')"
    using rows by (auto simp: flat_rows_def filter_concat comp_def intro!: arg_cong [of _ _ concat])
  ultimately show ?thesis
    unfolding reduces_def using Q assms(2) by (intro conjI exI [of _ "\<lambda>r. Q r \<and> ?P r"]) auto
qed

section \<open>One build and one probe\<close>

definition covers :: "'bf externals \<Rightarrow> data_type \<Rightarrow> nat \<Rightarrow> batch list \<Rightarrow> 'bf bloom_payload \<Rightarrow> bool" where
  "covers ext ty i L payload \<longleftrightarrow>
     (\<forall>l \<in> set (flat_rows L). \<forall>v. key_string ty (l ! i) = Some v \<longrightarrow> bf_check ext (bp_filter payload) v)"

lemma key_position_bound: "key_position sch x = Some i \<Longrightarrow> i < length (schema_fields sch)"
  by (simp add: key_position_def position_Some)

lemma batches_ok_width: "batches_ok sch bs \<Longrightarrow> i < length (schema_fields sch) \<Longrightarrow> \<forall>b \<in> set bs. i < length (col_types b)"
  by (auto simp: list_all_iff batch_ok_def)

lemma run_build:
  assumes "bloom_spec ext" and "run ext env t J p st = Some (L, st')"
    and "batches_ok (plan_schema p) L" and "key_position (plan_schema p) x = Some i"
  shows "\<exists>payload. run ext env t J (BloomFilterBuildExec p x ch) st = Some (L, st'(ch \<mapsto> payload))
           \<and> covers ext (field_type (schema_fields (plan_schema p) ! i)) i L payload"
proof -
  note i = key_position_bound [OF assms(4)]
  let ?vs = "concat (map (batch_values i) L)"
  obtain bf0 where s: "build_stream ext i t (map Inr L) = (map Inr L, Some (build_payload ext t ?vs bf0))"
    using build_stream_ok [OF assms(1) batches_ok_width [OF assms(3) i]] by metis
  have "bf_check ext (foldl (bf_set ext) bf0 ?vs) v"
    if "b \<in> set L" "l \<in> set (rows b)" "key_string (field_type (schema_fields (plan_schema p) ! i)) (l ! i) = Some v"
    for b l v
    using that assms(3) i
    by (intro bloom_set_all assms(1) disjI1) (auto simp: in_batch_values list_all_iff batch_ok_def intro!: bexI [of _ b] bexI [of _ l])
  then have "covers ext (field_type (schema_fields (plan_schema p) ! i)) i L (build_payload ext t ?vs bf0)"
    by (auto simp: covers_def flat_rows_def build_payload_def)
  moreover have "run ext env t J (BloomFilterBuildExec p x ch) st = Some (L, st'(ch \<mapsto> build_payload ext t ?vs bf0))"
    using assms(2,4) s by (simp add: build_execute_def)
  ultimately show ?thesis by blast
qed

lemma run_probe:
  assumes "filter_spec ext" and "st ch = Some payload" and "run ext env t J p st = Some (R, st')"
    and "batches_ok (plan_schema p) R" and "key_position (plan_schema p) y = Some j"
  shows "run ext env t J (BloomFilterProbeExec p y ch) st = Some (map (probe_batch ext (bp_filter payload) j) R, st')"
proof -
  note w = batches_ok_width [OF assms(4) key_position_bound [OF assms(5)]]
  let ?pc = "\<lparr>pc_batches = 0, pc_rows_in = 0, pc_rows_out = 0\<rparr>"
  have "fst (probe_loop ext (bp_filter payload) j (map Inr R) ?pc) = map Inr (map (probe_batch ext (bp_filter payload) j) R)"
    using w by (subst probe_loop_items [OF assms(1)]) (auto simp: comp_def)
  moreover obtain m where "probe_execute ext env (plan_schema p) y (Some payload) t (Inr (map Inr R))
      = Inr (fst (probe_loop ext (bp_filter payload) j (map Inr R) ?pc), m)"
    using assms(5) by (simp add: probe_execute_def probe_stream_def case_prod_unfold Let_def)
  ultimately show ?thesis using assms(2,3) by (simp del: map_map)
qed

text \<open>A row of the right that matches on an exact pair passes a filter that covers the left.\<close>

lemma exact_pair_passes:
  assumes "covers ext ty i L payload" and "l \<in> set (flat_rows L)"
    and "keys_match NullEqualsNothing on l r" and "(Column n i, Column m j) \<in> set on"
  shows "probe_row ext (bp_filter payload) ty (r ! j)"
proof -
  have "l ! i = r ! j" "r ! j \<noteq> CNull" using assms(3,4) by (auto simp: keys_match_def list_all_iff)
  with assms(1,2) show ?thesis by (auto simp: probe_row_def covers_def split: option.splits)
qed

section \<open>The pairs of one join\<close>

text \<open>
  After some pairs of a join have been wrapped: the left side still yields \<open>L\<close> and leaves on
  each of the join's channels \<open>m\<close> to \<open>k\<close> a payload with a property; given these payloads,
  the right side yields a reduction of \<open>R\<close>. Channels outside those drawn are untouched.
\<close>

definition runs_left :: "'bf externals \<Rightarrow> (string \<Rightarrow> string option) \<Rightarrow> f64 \<Rightarrow> join_runner \<Rightarrow> (nat \<Rightarrow> 'bf bloom_payload \<Rightarrow> bool)
    \<Rightarrow> nat \<Rightarrow> nat \<Rightarrow> nat \<Rightarrow> batch list \<Rightarrow> plan \<Rightarrow> bool" where
  "runs_left ext env t J P lo m k L l \<longleftrightarrow>
     (\<forall>st. \<exists>st'. run ext env t J l st = Some (L, st') \<and> (\<forall>c. c < lo \<or> k \<le> c \<longrightarrow> st' c = st c)
        \<and> (\<forall>c. m \<le> c \<and> c < k \<longrightarrow> (\<exists>payload. st' c = Some payload \<and> P c payload)))"

definition runs_right :: "'bf externals \<Rightarrow> (string \<Rightarrow> string option) \<Rightarrow> f64 \<Rightarrow> join_runner \<Rightarrow> (nat \<Rightarrow> 'bf bloom_payload \<Rightarrow> bool)
    \<Rightarrow> nat \<Rightarrow> nat \<Rightarrow> nat \<Rightarrow> join_info \<Rightarrow> schema \<Rightarrow> batch list \<Rightarrow> batch list \<Rightarrow> plan \<Rightarrow> bool" where
  "runs_right ext env t J P lo m k ji rs L R r \<longleftrightarrow>
     (\<forall>st. (\<forall>c. m \<le> c \<and> c < k \<longrightarrow> (\<exists>payload. st c = Some payload \<and> P c payload)) \<longrightarrow>
        (\<exists>R' st'. run ext env t J r st = Some (R', st') \<and> reduces ji rs L R R'
           \<and> (\<forall>c. c < lo \<or> m \<le> c \<longrightarrow> st' c = st c)))"

lemma runs_left_build:
  assumes "bloom_spec ext" and "runs_left ext env t J P lo m k L l" and "lo \<le> k"
    and "batches_ok (plan_schema l) L" and "key_position (plan_schema l) x = Some i"
  shows "runs_left ext env t J (P(k := covers ext (field_type (schema_fields (plan_schema l) ! i)) i L))
           lo m (Suc k) L (BloomFilterBuildExec l x k)"
  unfolding runs_left_def
proof
  fix st
  obtain st' where st': "run ext env t J l st = Some (L, st')" "\<forall>c. c < lo \<or> k \<le> c \<longrightarrow> st' c = st c"
    "\<forall>c. m \<le> c \<and> c < k \<longrightarrow> (\<exists>payload. st' c = Some payload \<and> P c payload)"
    using assms(2) unfolding runs_left_def by blast
  from run_build [OF assms(1) st'(1) assms(4,5), of k] obtain payload where
    "run ext env t J (BloomFilterBuildExec l x k) st = Some (L, st'(k \<mapsto> payload))"
    "covers ext (field_type (schema_fields (plan_schema l) ! i)) i L payload" by blast
  with st' assms(3)
  show "\<exists>st'. run ext env t J (BloomFilterBuildExec l x k) st = Some (L, st') \<and> (\<forall>c. c < lo \<or> Suc k \<le> c \<longrightarrow> st' c = st c)
      \<and> (\<forall>c. m \<le> c \<and> c < Suc k \<longrightarrow> (\<exists>payload. st' c = Some payload
           \<and> (P(k := covers ext (field_type (schema_fields (plan_schema l) ! i)) i L)) c payload))"
    by (intro exI [of _ "st'(k \<mapsto> payload)"]) (auto simp: less_Suc_eq)
qed

lemma runs_right_probe:
  assumes "filter_spec ext" and "runs_right ext env t J P lo m k ji (plan_schema r) L R r" and "m \<le> k"
    and "key_position (plan_schema r) y = Some j" and "ji_null_equality ji = NullEqualsNothing"
    and "(Column n i, Column n' j) \<in> set (ji_on ji)"
  shows "runs_right ext env t J (P(k := covers ext (field_type (schema_fields (plan_schema r) ! j)) i L))
           lo m (Suc k) ji (plan_schema r) L R (BloomFilterProbeExec r y k)"
  unfolding runs_right_def
proof (intro allI impI)
  let ?ty = "field_type (schema_fields (plan_schema r) ! j)"
  fix st :: "'a channels"
  assume st: "\<forall>c. m \<le> c \<and> c < Suc k \<longrightarrow> (\<exists>payload. st c = Some payload \<and> (P(k := covers ext ?ty i L)) c payload)"
  from st [rule_format, of k] assms(3) obtain payload where k: "st k = Some payload" "covers ext ?ty i L payload" by auto
  have "\<forall>c. m \<le> c \<and> c < k \<longrightarrow> (\<exists>payload. st c = Some payload \<and> P c payload)"
  proof (intro allI impI)
    fix c assume "m \<le> c \<and> c < k"
    with st [rule_format, of c] show "\<exists>payload. st c = Some payload \<and> P c payload" by auto
  qed
  with assms(2) obtain R' st' where r: "run ext env t J r st = Some (R', st')"
    "reduces ji (plan_schema r) L R R'" "\<forall>c. c < lo \<or> m \<le> c \<longrightarrow> st' c = st c"
    unfolding runs_right_def by blast
  have ok: "batches_ok (plan_schema r) R'" using r(2) by (simp add: reduces_def)
  have "\<forall>l \<in> set (flat_rows L). \<forall>x \<in> set (flat_rows R). keys_match (ji_null_equality ji) (ji_on ji) l x \<longrightarrow>
      probe_row ext (bp_filter payload) ?ty (x ! j)"
    using exact_pair_passes [OF k(2) _ _ assms(6)] assms(5) by auto
  from reduces_probe [OF r(2) this key_position_bound [OF assms(4)]] run_probe [OF assms(1) k(1) r(1) ok assms(4)] r(3)
  show "\<exists>R' st'. run ext env t J (BloomFilterProbeExec r y k) st = Some (R', st')
      \<and> reduces ji (plan_schema r) L R R' \<and> (\<forall>c. c < lo \<or> m \<le> c \<longrightarrow> st' c = st c)"
    by blast
qed

lemma exact_pairD:
  assumes "exact_pair ls rs (a, b)" and "resolve_field ls (show_pexpr a) = Some x"
    and "resolve_field rs (show_pexpr b) = Some y"
  obtains n i n' j where "a = Column n i" "b = Column n' j" "key_position ls x = Some i" "key_position rs y = Some j"
    "field_type (schema_fields ls ! i) = field_type (schema_fields rs ! j)"
  using assms by (cases a; cases b) (auto simp: exact_pair_def simp del: show_pexpr.simps)

lemma wrap_selected_runs:
  assumes "bloom_spec ext" "filter_spec ext" and "ji_null_equality ji = NullEqualsNothing"
    and "wrap_selected sel on l r k = (l2, r2, k2)" and "set on \<subseteq> set (ji_on ji)"
    and "list_all (exact_pair (plan_schema l) (plan_schema r)) on" and "batches_ok (plan_schema l) L"
    and "lo \<le> m" "m \<le> k"
    and "runs_left ext env t J P lo m k L l"
    and "runs_right ext env t J P lo' m k ji (plan_schema r) L R r"
  shows "\<exists>P'. runs_left ext env t J P' lo m k2 L l2 \<and> runs_right ext env t J P' lo' m k2 ji (plan_schema r) L R r2"
  using assms(4-)
proof (induction "on" arbitrary: l r k P)
  case (Cons kp on')
  obtain a b where kp: "kp = (a, b)" by fastforce
  show ?case
  proof (cases rule: wrap_selected_cases [of l a r b sel on' k])
    case (wrap x y)
    have "exact_pair (plan_schema l) (plan_schema r) (a, b)" using Cons.prems(3) kp by simp
    from exact_pairD [OF this wrap(1,2)] obtain n i n' j where e: "a = Column n i" "b = Column n' j"
      "key_position (plan_schema l) x = Some i" "key_position (plan_schema r) y = Some j"
      "field_type (schema_fields (plan_schema l) ! i) = field_type (schema_fields (plan_schema r) ! j)"
      by metis
    let ?P = "P(k := covers ext (field_type (schema_fields (plan_schema r) ! j)) i L)"
    have left: "runs_left ext env t J ?P lo m (Suc k) L (BloomFilterBuildExec l x k)"
      using runs_left_build [OF assms(1) Cons.prems(7) _ Cons.prems(4) e(3)] Cons.prems(5,6) e(5) by simp
    have "(Column n i, Column n' j) \<in> set (ji_on ji)" using Cons.prems(2) kp e by auto
    from runs_right_probe [OF assms(2) Cons.prems(8,6) e(4) assms(3) this]
    have right: "runs_right ext env t J ?P lo' m (Suc k) ji (plan_schema r) L R (BloomFilterProbeExec r y k)" .
    have w: "wrap_selected sel on' (BloomFilterBuildExec l x k) (BloomFilterProbeExec r y k) (Suc k) = (l2, r2, k2)"
      using wrap(4) Cons.prems(1) kp by simp
    show ?thesis
      using Cons.IH [OF w _ _ _ Cons.prems(5) _ left] Cons.prems right by (simp add: fun_upd_def)
  next
    case skip
    with Cons.prems kp have "wrap_selected sel on' l r k = (l2, r2, k2)" by simp
    from Cons.IH [OF this] Cons.prems show ?thesis by simp
  qed
qed auto

section \<open>The whole plan\<close>

definition runs_to :: "'bf externals \<Rightarrow> (string \<Rightarrow> string option) \<Rightarrow> f64 \<Rightarrow> join_runner \<Rightarrow> nat \<Rightarrow> nat \<Rightarrow> plan \<Rightarrow> batch list \<Rightarrow> bool" where
  "runs_to ext env t J lo hi q bs \<longleftrightarrow>
     (\<forall>st. \<exists>st'. run ext env t J q st = Some (bs, st') \<and> (\<forall>c. c < lo \<or> hi \<le> c \<longrightarrow> st' c = st c))"

lemma inserted_join_runs:
  assumes "bloom_spec ext" "filter_spec ext"
    and "runs_to ext env t J ch ch1 l1 (denote J l)" and "runs_to ext env t J ch1 ch2 r1 (denote J r)"
    and "ch \<le> ch1" "ch1 \<le> ch2" and "plan_schema l1 = plan_schema l" "plan_schema r1 = plan_schema r"
    and "(if ji_type ji = Inner then wrap_selected sel (ji_on ji) l1 r1 ch2 else (l1, r1, ch2)) = (l2, r2, ch3)"
    and "well_typed J (HashJoinExec ji l r)" and "transfer_safe (HashJoinExec ji l r)"
  shows "runs_to ext env t J ch ch3 (HashJoinExec ji l2 r2) (denote J (HashJoinExec ji l r))"
  unfolding runs_to_def
proof
  fix st
  let ?L = "denote J l" and ?R = "denote J r"
  show "\<exists>st'. run ext env t J (HashJoinExec ji l2 r2) st = Some (denote J (HashJoinExec ji l r), st')
          \<and> (\<forall>c. c < ch \<or> ch3 \<le> c \<longrightarrow> st' c = st c)"
  proof (cases "ji_type ji = Inner")
    case True
    have left: "runs_left ext env t J (\<lambda>_ _. True) ch ch2 ch2 ?L l1"
      unfolding runs_left_def using assms(3,6) unfolding runs_to_def by (metis le_trans not_le)
    have right: "runs_right ext env t J (\<lambda>_ _. True) ch1 ch2 ch2 ji (plan_schema r1) ?L ?R r1"
      unfolding runs_right_def using assms(4,8,10) reduces_refl unfolding runs_to_def by fastforce
    have w: "wrap_selected sel (ji_on ji) l1 r1 ch2 = (l2, r2, ch3)" using assms(9) True by simp
    have sch: "plan_schema l2 = plan_schema l" "plan_schema r2 = plan_schema r" "ch2 \<le> ch3"
      using wrap_selected_keeps [OF w] assms(7,8) by simp_all
    have neq: "ji_null_equality ji = NullEqualsNothing"
      and ex: "list_all (exact_pair (plan_schema l1) (plan_schema r1)) (ji_on ji)"
      and lok: "batches_ok (plan_schema l1) ?L"
      using assms(7,8,10,11) True by simp_all
    have "ch \<le> ch2" using assms(5,6) by simp
    from wrap_selected_runs [OF assms(1,2) neq w subset_refl ex lok this order_refl left right]
    obtain P where L2: "runs_left ext env t J P ch ch2 ch3 ?L l2"
      and R2: "runs_right ext env t J P ch1 ch2 ch3 ji (plan_schema r1) ?L ?R r2" by blast
    obtain st1 where st1: "run ext env t J l2 st = Some (?L, st1)" "\<forall>c. c < ch \<or> ch3 \<le> c \<longrightarrow> st1 c = st c"
      "\<forall>c. ch2 \<le> c \<and> c < ch3 \<longrightarrow> (\<exists>payload. st1 c = Some payload \<and> P c payload)"
      using L2 unfolding runs_left_def by blast
    obtain R' st2 where st2: "run ext env t J r2 st1 = Some (R', st2)" "reduces ji (plan_schema r1) ?L ?R R'"
      "\<forall>c. c < ch1 \<or> ch2 \<le> c \<longrightarrow> st2 c = st1 c"
      using R2 st1(3) unfolding runs_right_def by blast
    have "hash_join_run J ji (plan_schema l2) (plan_schema r2) ?L R' = denote J (HashJoinExec ji l r)"
      using reduces_join [OF st2(2) True] sch assms(8) by simp
    with st1 st2 assms(5) sch(3) show ?thesis by (intro exI [of _ st2]) auto
  next
    case False
    with assms(9) have eq: "l2 = l1" "r2 = r1" "ch3 = ch2" by simp_all
    obtain st1 where st1: "run ext env t J l1 st = Some (?L, st1)" "\<forall>c. c < ch \<or> ch1 \<le> c \<longrightarrow> st1 c = st c"
      using assms(3) unfolding runs_to_def by blast
    obtain st2 where st2: "run ext env t J r1 st1 = Some (?R, st2)" "\<forall>c. c < ch1 \<or> ch2 \<le> c \<longrightarrow> st2 c = st1 c"
      using assms(4) unfolding runs_to_def by blast
    show ?thesis using st1 st2 assms(5-8) eq by (intro exI [of _ st2]) auto
  qed
qed

text \<open>A plan without Bloom filter operators yields what it denotes and touches no channel.\<close>

lemma bloom_free_runs:
  "bloom_free p \<Longrightarrow> run ext env t J p st = Some (denote J p, st)"
  "list_all bloom_free ps \<Longrightarrow> run_list ext env t J ps st = Some (map (denote J) ps, st)"
  by (induction ext env t J p st and ext env t J ps st rule: run_run_list.induct) simp_all

text \<open>Every plan the insertion returns runs to what the original plan denotes.\<close>

lemma inserted_runs:
  assumes "bloom_spec ext" "filter_spec ext"
  shows "inserted sel p ch q ch' \<Longrightarrow> bloom_free p \<Longrightarrow> well_typed J p \<Longrightarrow> transfer_safe p \<Longrightarrow>
           runs_to ext env t J ch ch' q (denote J p)"
    and "inserted_list sel ps ch qs ch' \<Longrightarrow> list_all bloom_free ps \<Longrightarrow> list_all (well_typed J) ps \<Longrightarrow>
           list_all transfer_safe ps \<Longrightarrow>
           \<forall>st. \<exists>st'. run_list ext env t J qs st = Some (map (denote J) ps, st') \<and> (\<forall>c. c < ch \<or> ch' \<le> c \<longrightarrow> st' c = st c)"
proof (induction rule: inserted_inserted_list.inducts)
  case (unselected p ch)
  then show ?case using bloom_free_runs(1) by (fastforce simp: runs_to_def)
next
  case (join l ch l1 ch1 r r1 ch2 ji l2 r2 ch3)
  have k: "ch \<le> ch1" "ch1 \<le> ch2" "plan_schema l1 = plan_schema l" "plan_schema r1 = plan_schema r"
    using join(1,3) [THEN inserted_keeps(1)] by simp_all
  show ?case
    using join.prems by (intro inserted_join_runs [OF assms join(2,4) k join(5)]) simp_all
next
  case (other ps ch ps1 ch1 op)
  show ?case unfolding runs_to_def
  proof
    fix st
    from other.IH other.prems obtain st' where
      "run_list ext env t J ps1 st = Some (map (denote J) ps, st')" "\<forall>c. c < ch \<or> ch1 \<le> c \<longrightarrow> st' c = st c"
      by auto
    then show "\<exists>st'. run ext env t J (OtherExec op ps1) st = Some (denote J (OtherExec op ps), st')
        \<and> (\<forall>c. c < ch \<or> ch1 \<le> c \<longrightarrow> st' c = st c)" by auto
  qed
next
  case (more p ch p1 ch1 ps ps1 ch2)
  have "ch \<le> ch1" "ch1 \<le> ch2" using inserted_keeps(1) [OF more(1)] inserted_keeps(2) [OF more(3)] by simp_all
  show ?case
  proof
    fix st
    obtain st1 where st1: "run ext env t J p1 st = Some (denote J p, st1)" "\<forall>c. c < ch \<or> ch1 \<le> c \<longrightarrow> st1 c = st c"
      using more(2) more.prems unfolding runs_to_def by fastforce
    obtain st2 where st2: "run_list ext env t J ps1 st1 = Some (map (denote J) ps, st2)"
      "\<forall>c. c < ch1 \<or> ch2 \<le> c \<longrightarrow> st2 c = st1 c"
      using more(4) more.prems by fastforce
    show "\<exists>st'. run_list ext env t J (p1 # ps1) st = Some (map (denote J) (p # ps), st')
        \<and> (\<forall>c. c < ch \<or> ch2 \<le> c \<longrightarrow> st' c = st c)"
      using st1 st2 \<open>ch \<le> ch1\<close> \<open>ch1 \<le> ch2\<close> by (intro exI [of _ st2]) auto
  qed
qed (simp_all add: runs_to_def)

section \<open>Properties\<close>


definition no_runner :: join_runner where
  "no_runner ji ls rs L R = []"


section \<open>Where transfer is not sound\<close>

definition two_columns :: "string \<Rightarrow> string \<Rightarrow> batch list \<Rightarrow> plan" where
  "two_columns a b bs = OtherExec \<lparr>op_name = ''DataSourceExec'',
     op_schema = (\<lambda>_. \<lparr>schema_fields = [\<lparr>field_name = a, field_type = Int64, nullable = True\<rparr>,
                                   \<lparr>field_name = b, field_type = Int64, nullable = True\<rparr>], metadata = Map.empty\<rparr>),
     op_rebuild = (\<lambda>_. None), op_run = (\<lambda>_. bs)\<rparr> []"

definition substring_join :: plan where
  "substring_join = HashJoinExec ((demo_on ''x'' ''y'')\<lparr>ji_on := [(Column ''idx'' 1, Column ''k'' 0)]\<rparr>)
     (two_columns ''id'' ''idx'' [\<lparr>col_types = [Int64, Int64], rows = [[CInt 1, CInt 5]]\<rparr>])
     (demo_scan ''k'' [demo_keys [5]])"

definition null_join :: plan where
  "null_join = HashJoinExec ((demo_on ''a'' ''b'')\<lparr>ji_null_equality := NullEqualsNull\<rparr>)
     (demo_scan ''a'' [\<lparr>col_types = [Int64], rows = [[CNull]]\<rparr>]) (demo_scan ''b'' [\<lparr>col_types = [Int64], rows = [[CNull]]\<rparr>])"

lemmas demo_defs = demo_scan_def demo_on_def demo_schema_def demo_keys_def two_columns_def
  substring_join_def null_join_def

lemmas evaluate = hash_join_build_def check_join_is_valid_def schema_columns_def batch_ok_def
  hash_join_run_def hash_join_schema_def flat_rows_def inner_join_rows_def keys_match_def project_row_def
  take_fetch_def build_execute_def key_position_def build_stream_def batch_values_def map_filter_def
  build_payload_def probe_execute_def probe_stream_def probe_keep_def probe_row_def set_filter_def
  filter_batch_def show_int_def show_nat.simps digit_char_def Let_def



end
