(* ===== verification/MemoryPool.thy ===== *)
theory MemoryPool
  imports F64 "HOL-Library.AList"
begin

text \<open>
  Memory accounting, \<open>execution/src/memory_pool\<close>: consumers and reservations (\<open>mod.rs\<close>),
  the unbounded, greedy, fair and tracking pools (\<open>pool.rs\<close>), and the adapter to Arrow's
  pool (\<open>arrow.rs\<close>). A pool behind \<open>dyn MemoryPool\<close> is the record of its methods. Each
  method is one step; the counters wrap around as the atomic operations do.
\<close>

section \<open>Sizes for people\<close>

definition human_readable_size :: "nat \<Rightarrow> string" where
  "human_readable_size sz =
     (let (v, unit) =
        (if 2 * 2 ^ 40 \<le> sz then (fdiv (f64_of_usize sz) (f64_of_usize (2 ^ 40)), ''TB'')
         else if 2 * 2 ^ 30 \<le> sz then (fdiv (f64_of_usize sz) (f64_of_usize (2 ^ 30)), ''GB'')
         else if 2 * 2 ^ 20 \<le> sz then (fdiv (f64_of_usize sz) (f64_of_usize (2 ^ 20)), ''MB'')
         else if 2 * 2 ^ 10 \<le> sz then (fdiv (f64_of_usize sz) (f64_of_usize (2 ^ 10)), ''KB'')
         else (f64_of_usize sz, ''B''))
      in fmt_fixed 1 v @ '' '' @ unit)"

section \<open>Consumers and reservations\<close>

datatype memory_limit = Infinite | Finite nat | Unknown

record memory_consumer =
  mc_name :: string
  mc_can_spill :: bool
  mc_id :: nat

text \<open>\<open>MemoryConsumer::new\<close> draws its id from a global counter, the second component.\<close>

definition consumer_new :: "string \<Rightarrow> nat \<Rightarrow> memory_consumer \<times> nat" where
  "consumer_new n next_id = (\<lparr>mc_name = n, mc_can_spill = False, mc_id = next_id\<rparr>, wadd next_id 1)"

definition clone_with_new_id :: "memory_consumer \<Rightarrow> nat \<Rightarrow> memory_consumer \<times> nat" where
  "clone_with_new_id c next_id = (c\<lparr>mc_id := next_id\<rparr>, wadd next_id 1)"

definition with_can_spill :: "bool \<Rightarrow> memory_consumer \<Rightarrow> memory_consumer" where
  "with_can_spill b c = c\<lparr>mc_can_spill := b\<rparr>"

record reservation =
  rs_consumer :: memory_consumer
  rs_size :: nat

record 'p pool_ops =
  po_register :: "memory_consumer \<Rightarrow> 'p \<Rightarrow> 'p"
  po_unregister :: "memory_consumer \<Rightarrow> 'p \<Rightarrow> 'p res"
  po_grow :: "reservation \<Rightarrow> nat \<Rightarrow> 'p \<Rightarrow> 'p"
  po_shrink :: "reservation \<Rightarrow> nat \<Rightarrow> 'p \<Rightarrow> 'p"
  po_try_grow :: "reservation \<Rightarrow> nat \<Rightarrow> 'p \<Rightarrow> 'p res"
  po_reserved :: "'p \<Rightarrow> nat"
  po_memory_limit :: "'p \<Rightarrow> memory_limit"

definition consumer_register :: "'p pool_ops \<Rightarrow> memory_consumer \<Rightarrow> 'p \<Rightarrow> reservation \<times> 'p" where
  "consumer_register ops c p = (\<lparr>rs_consumer = c, rs_size = 0\<rparr>, po_register ops c p)"

definition reservation_free :: "'p pool_ops \<Rightarrow> reservation \<Rightarrow> 'p \<Rightarrow> nat \<times> reservation \<times> 'p" where
  "reservation_free ops r p =
     (let sz = rs_size r; r' = r\<lparr>rs_size := 0\<rparr>
      in (sz, r', if sz \<noteq> 0 then po_shrink ops r' sz p else p))"

definition cannot_free :: "nat \<Rightarrow> nat \<Rightarrow> string" where
  "cannot_free capacity prev =
     ''Cannot free the capacity '' @ show_nat capacity @ '' out of allocated size '' @ show_nat prev"

definition reservation_shrink :: "'p pool_ops \<Rightarrow> nat \<Rightarrow> reservation \<Rightarrow> 'p \<Rightarrow> (reservation \<times> 'p) res" where
  "reservation_shrink ops capacity r p =
     (case checked_sub (rs_size r) capacity of
        None \<Rightarrow> Inl (Panic (cannot_free capacity (rs_size r)))
      | Some s \<Rightarrow> let r' = r\<lparr>rs_size := s\<rparr> in Inr (r', po_shrink ops r' capacity p))"

definition reservation_try_shrink :: "'p pool_ops \<Rightarrow> nat \<Rightarrow> reservation \<Rightarrow> 'p \<Rightarrow> (nat \<times> reservation \<times> 'p) res" where
  "reservation_try_shrink ops capacity r p =
     (case checked_sub (rs_size r) capacity of
        None \<Rightarrow> Inl (Internal (cannot_free capacity (rs_size r)))
      | Some s \<Rightarrow> let r' = r\<lparr>rs_size := s\<rparr> in Inr (rs_size r - capacity, r', po_shrink ops r' capacity p))"

definition reservation_grow :: "'p pool_ops \<Rightarrow> nat \<Rightarrow> reservation \<Rightarrow> 'p \<Rightarrow> reservation \<times> 'p" where
  "reservation_grow ops capacity r p =
     (r\<lparr>rs_size := wadd (rs_size r) capacity\<rparr>, po_grow ops r capacity p)"

definition reservation_try_grow :: "'p pool_ops \<Rightarrow> nat \<Rightarrow> reservation \<Rightarrow> 'p \<Rightarrow> (reservation \<times> 'p) res" where
  "reservation_try_grow ops capacity r p =
     bind_res (po_try_grow ops r capacity p) (\<lambda>p'. Inr (r\<lparr>rs_size := wadd (rs_size r) capacity\<rparr>, p'))"

definition reservation_resize :: "'p pool_ops \<Rightarrow> nat \<Rightarrow> reservation \<Rightarrow> 'p \<Rightarrow> (reservation \<times> 'p) res" where
  "reservation_resize ops capacity r p =
     (if rs_size r < capacity then Inr (reservation_grow ops (capacity - rs_size r) r p)
      else if capacity < rs_size r then reservation_shrink ops (rs_size r - capacity) r p
      else Inr (r, p))"

definition reservation_try_resize :: "'p pool_ops \<Rightarrow> nat \<Rightarrow> reservation \<Rightarrow> 'p \<Rightarrow> (reservation \<times> 'p) res" where
  "reservation_try_resize ops capacity r p =
     (if rs_size r < capacity then reservation_try_grow ops (capacity - rs_size r) r p
      else if capacity < rs_size r
      then bind_res (reservation_try_shrink ops (rs_size r - capacity) r p) (\<lambda>(_, r', p'). Inr (r', p'))
      else Inr (r, p))"

text \<open>\<open>split\<close> returns the new reservation first, then the old one.\<close>

definition reservation_split :: "nat \<Rightarrow> reservation \<Rightarrow> (reservation \<times> reservation) res" where
  "reservation_split capacity r =
     (case checked_sub (rs_size r) capacity of
        None \<Rightarrow> Inl (Panic ''called `Result::unwrap()` on an `Err` value'')
      | Some s \<Rightarrow> Inr (r\<lparr>rs_size := capacity\<rparr>, r\<lparr>rs_size := s\<rparr>))"

definition reservation_new_empty :: "reservation \<Rightarrow> reservation" where
  "reservation_new_empty r = r\<lparr>rs_size := 0\<rparr>"

definition reservation_take :: "reservation \<Rightarrow> (reservation \<times> reservation) res" where
  "reservation_take r = reservation_split (rs_size r) r"

section \<open>Unbounded and greedy pools\<close>

record unbounded_pool =
  ub_used :: nat

definition unbounded_ops :: "unbounded_pool pool_ops" where
  "unbounded_ops = \<lparr>
     po_register = (\<lambda>c p. p),
     po_unregister = (\<lambda>c p. Inr p),
     po_grow = (\<lambda>r additional p. p\<lparr>ub_used := wadd (ub_used p) additional\<rparr>),
     po_shrink = (\<lambda>r n p. p\<lparr>ub_used := wsub (ub_used p) n\<rparr>),
     po_try_grow = (\<lambda>r additional p. Inr (p\<lparr>ub_used := wadd (ub_used p) additional\<rparr>)),
     po_reserved = ub_used,
     po_memory_limit = (\<lambda>p. Infinite)\<rparr>"

definition insufficient_capacity_err :: "reservation \<Rightarrow> nat \<Rightarrow> nat \<Rightarrow> df_error" where
  "insufficient_capacity_err r additional available =
     ResourcesExhausted (''Failed to allocate additional '' @ human_readable_size additional @ '' for '' @
       mc_name (rs_consumer r) @ '' with '' @ human_readable_size (rs_size r) @
       '' already allocated for this reservation - '' @ human_readable_size available @
       '' remain available for the total pool'')"

record greedy_pool =
  gp_pool_size :: nat
  gp_used :: nat

definition greedy_new :: "nat \<Rightarrow> greedy_pool" where
  "greedy_new sz = \<lparr>gp_pool_size = sz, gp_used = 0\<rparr>"

definition greedy_try_grow :: "reservation \<Rightarrow> nat \<Rightarrow> greedy_pool \<Rightarrow> greedy_pool res" where
  "greedy_try_grow r additional p =
     (let new_used = wadd (gp_used p) additional
      in if new_used \<le> gp_pool_size p then Inr (p\<lparr>gp_used := new_used\<rparr>)
         else Inl (insufficient_capacity_err r additional (gp_pool_size p - gp_used p)))"

definition greedy_ops :: "greedy_pool pool_ops" where
  "greedy_ops = \<lparr>
     po_register = (\<lambda>c p. p),
     po_unregister = (\<lambda>c p. Inr p),
     po_grow = (\<lambda>r additional p. p\<lparr>gp_used := wadd (gp_used p) additional\<rparr>),
     po_shrink = (\<lambda>r n p. p\<lparr>gp_used := wsub (gp_used p) n\<rparr>),
     po_try_grow = greedy_try_grow,
     po_reserved = gp_used,
     po_memory_limit = (\<lambda>p. Finite (gp_pool_size p))\<rparr>"

section \<open>Fair pool\<close>

record fair_pool =
  fp_pool_size :: nat
  fp_num_spill :: nat
  fp_spillable :: nat
  fp_unspillable :: nat

definition fair_new :: "nat \<Rightarrow> fair_pool" where
  "fair_new sz = \<lparr>fp_pool_size = sz, fp_num_spill = 0, fp_spillable = 0, fp_unspillable = 0\<rparr>"

definition fair_register :: "memory_consumer \<Rightarrow> fair_pool \<Rightarrow> fair_pool" where
  "fair_register c p = (if mc_can_spill c then p\<lparr>fp_num_spill := wadd (fp_num_spill p) 1\<rparr> else p)"

definition fair_unregister :: "memory_consumer \<Rightarrow> fair_pool \<Rightarrow> fair_pool res" where
  "fair_unregister c p =
     (if mc_can_spill c
      then case checked_sub (fp_num_spill p) 1 of
             None \<Rightarrow> Inl (Panic ''called `Option::unwrap()` on a `None` value'')
           | Some n \<Rightarrow> Inr (p\<lparr>fp_num_spill := n\<rparr>)
      else Inr p)"

definition fair_grow :: "reservation \<Rightarrow> nat \<Rightarrow> fair_pool \<Rightarrow> fair_pool" where
  "fair_grow r additional p =
     (if mc_can_spill (rs_consumer r) then p\<lparr>fp_spillable := wadd (fp_spillable p) additional\<rparr>
      else p\<lparr>fp_unspillable := wadd (fp_unspillable p) additional\<rparr>)"

definition fair_shrink :: "reservation \<Rightarrow> nat \<Rightarrow> fair_pool \<Rightarrow> fair_pool" where
  "fair_shrink r n p =
     (if mc_can_spill (rs_consumer r) then p\<lparr>fp_spillable := wsub (fp_spillable p) n\<rparr>
      else p\<lparr>fp_unspillable := wsub (fp_unspillable p) n\<rparr>)"

definition fair_available :: "fair_pool \<Rightarrow> nat" where
  "fair_available p =
     (let spill_available = fp_pool_size p - fp_unspillable p
      in if fp_num_spill p = 0 then spill_available else spill_available div fp_num_spill p)"

definition fair_try_grow :: "reservation \<Rightarrow> nat \<Rightarrow> fair_pool \<Rightarrow> fair_pool res" where
  "fair_try_grow r additional p =
     (if mc_can_spill (rs_consumer r)
      then let available = fair_available p
           in if available < wadd (rs_size r) additional
              then Inl (insufficient_capacity_err r additional available)
              else Inr (p\<lparr>fp_spillable := wadd (fp_spillable p) additional\<rparr>)
      else let available = fp_pool_size p - wadd (fp_unspillable p) (fp_spillable p)
           in if available < additional then Inl (insufficient_capacity_err r additional available)
              else Inr (p\<lparr>fp_unspillable := wadd (fp_unspillable p) additional\<rparr>))"

definition fair_ops :: "fair_pool pool_ops" where
  "fair_ops = \<lparr>
     po_register = fair_register,
     po_unregister = fair_unregister,
     po_grow = fair_grow,
     po_shrink = fair_shrink,
     po_try_grow = fair_try_grow,
     po_reserved = (\<lambda>p. wadd (fp_spillable p) (fp_unspillable p)),
     po_memory_limit = (\<lambda>p. Finite (fp_pool_size p))\<rparr>"

section \<open>Tracking pool\<close>

record tracked_consumer =
  tc_name :: string
  tc_can_spill :: bool
  tc_reserved :: nat
  tc_peak :: nat

definition tracked_grow :: "nat \<Rightarrow> tracked_consumer \<Rightarrow> tracked_consumer" where
  "tracked_grow additional t =
     (let now = wadd (tc_reserved t) additional in t\<lparr>tc_reserved := now, tc_peak := max (tc_peak t) now\<rparr>)"

definition tracked_shrink :: "nat \<Rightarrow> tracked_consumer \<Rightarrow> tracked_consumer" where
  "tracked_shrink n t = t\<lparr>tc_reserved := wsub (tc_reserved t) n\<rparr>"

text \<open>The map from consumer ids, as the list of its entries in iteration order.\<close>

record 'p tracking_pool =
  tp_inner :: 'p
  tp_top :: nat
  tp_tracked :: "(nat \<times> tracked_consumer) list"

definition tracking_new :: "'p \<Rightarrow> nat \<Rightarrow> 'p tracking_pool" where
  "tracking_new inner top_n = \<lparr>tp_inner = inner, tp_top = top_n, tp_tracked = []\<rparr>"

text \<open>A metrics entry has the fields of a tracked consumer.\<close>

definition tracking_metrics :: "'p tracking_pool \<Rightarrow> tracked_consumer list" where
  "tracking_metrics t = map snd (tp_tracked t)"

definition show_bool :: "bool \<Rightarrow> string" where
  "show_bool b = (if b then ''true'' else ''false'')"

fun join_lines :: "string \<Rightarrow> string list \<Rightarrow> string" where
  "join_lines sep [] = []"
| "join_lines sep [s] = s"
| "join_lines sep (s # t # ss) = s @ sep @ join_lines sep (t # ss)"

definition report_line :: "nat \<times> tracked_consumer \<Rightarrow> string" where
  "report_line e =
     (let (i, t) = e in
      ''  '' @ tc_name t @ ''#'' @ show_nat i @ ''(can spill: '' @ show_bool (tc_can_spill t) @ '') consumed '' @
      human_readable_size (tc_reserved t) @ '', peak '' @ human_readable_size (tc_peak t))"

definition top_consumers :: "nat \<Rightarrow> (nat \<times> tracked_consumer) list \<Rightarrow> (nat \<times> tracked_consumer) list" where
  "top_consumers n es = take (min n (length es)) (sort_key (\<lambda>(i, t). - int (tc_reserved t)) es)"

definition report_top :: "nat \<Rightarrow> 'p tracking_pool \<Rightarrow> string" where
  "report_top n t = join_lines ('','' @ [CHR 0x0A]) (map report_line (top_consumers n (tp_tracked t))) @ ''.''"

definition provide_top_memory_consumers_to_error_msg :: "string \<Rightarrow> string \<Rightarrow> string \<Rightarrow> string" where
  "provide_top_memory_consumers_to_error_msg consumer msg top_lines =
     ''Additional allocation failed for '' @ consumer @
     '' with top memory consumers (across reservations) as:'' @ [CHR 0x0A] @ top_lines @ [CHR 0x0A] @
     ''Error: '' @ msg"

definition modify_entry :: "nat \<Rightarrow> (tracked_consumer \<Rightarrow> tracked_consumer) \<Rightarrow> (nat \<times> tracked_consumer) list
    \<Rightarrow> (nat \<times> tracked_consumer) list" where
  "modify_entry i f es = map (\<lambda>(k, t). (k, if k = i then f t else t)) es"

definition tracking_try_grow :: "'p pool_ops \<Rightarrow> reservation \<Rightarrow> nat \<Rightarrow> 'p tracking_pool \<Rightarrow> 'p tracking_pool res" where
  "tracking_try_grow ops r additional t =
     (case po_try_grow ops r additional (tp_inner t) of
        Inl (ResourcesExhausted e) \<Rightarrow>
          Inl (ResourcesExhausted (provide_top_memory_consumers_to_error_msg (mc_name (rs_consumer r)) e
                 (report_top (tp_top t) t)))
      | Inl e \<Rightarrow> Inl e
      | Inr p \<Rightarrow> Inr (t\<lparr>tp_inner := p,
                       tp_tracked := modify_entry (mc_id (rs_consumer r)) (tracked_grow additional) (tp_tracked t)\<rparr>))"

definition tracking_ops :: "'p pool_ops \<Rightarrow> 'p tracking_pool pool_ops" where
  "tracking_ops ops = \<lparr>
     po_register = (\<lambda>c t. t\<lparr>tp_inner := po_register ops c (tp_inner t),
        tp_tracked := AList.update (mc_id c)
          \<lparr>tc_name = mc_name c, tc_can_spill = mc_can_spill c, tc_reserved = 0, tc_peak = 0\<rparr> (tp_tracked t)\<rparr>),
     po_unregister = (\<lambda>c t. bind_res (po_unregister ops c (tp_inner t)) (\<lambda>p.
        Inr (t\<lparr>tp_inner := p, tp_tracked := AList.delete (mc_id c) (tp_tracked t)\<rparr>))),
     po_grow = (\<lambda>r additional t. t\<lparr>tp_inner := po_grow ops r additional (tp_inner t),
        tp_tracked := modify_entry (mc_id (rs_consumer r)) (tracked_grow additional) (tp_tracked t)\<rparr>),
     po_shrink = (\<lambda>r n t. t\<lparr>tp_inner := po_shrink ops r n (tp_inner t),
        tp_tracked := modify_entry (mc_id (rs_consumer r)) (tracked_shrink n) (tp_tracked t)\<rparr>),
     po_try_grow = tracking_try_grow ops,
     po_reserved = (\<lambda>t. po_reserved ops (tp_inner t)),
     po_memory_limit = (\<lambda>t. po_memory_limit ops (tp_inner t))\<rparr>"

section \<open>Arrow adapter\<close>

definition arrow_capacity :: "'p pool_ops \<Rightarrow> 'p \<Rightarrow> nat" where
  "arrow_capacity ops p =
     (case po_memory_limit ops p of Infinite \<Rightarrow> usize_mod - 1 | Unknown \<Rightarrow> usize_mod - 1 | Finite n \<Rightarrow> n)"

definition arrow_used :: "'p pool_ops \<Rightarrow> 'p \<Rightarrow> nat" where
  "arrow_used ops p = po_reserved ops p"

text \<open>\<open>i128\<close> to \<open>isize\<close>; what does not fit becomes \<open>isize::MIN\<close>.\<close>

definition arrow_available :: "'p pool_ops \<Rightarrow> 'p \<Rightarrow> int" where
  "arrow_available ops p =
     (let d = int (arrow_capacity ops p) - int (arrow_used ops p)
      in if - (2 ^ 63) \<le> d \<and> d < 2 ^ 63 then d else - (2 ^ 63))"

definition arrow_reserve :: "'p pool_ops \<Rightarrow> memory_consumer \<Rightarrow> nat \<Rightarrow> nat \<Rightarrow> 'p \<Rightarrow> reservation \<times> 'p \<times> nat" where
  "arrow_reserve ops consumer sz next_id p =
     (let (c, next_id') = clone_with_new_id consumer next_id;
          (r, p1) = consumer_register ops c p;
          (r', p2) = reservation_grow ops sz r p1
      in (r', p2, next_id'))"

end
