(* ===== verification/MemoryProps.thy ===== *)
theory MemoryProps
  imports MemoryPool
begin

text \<open>
  The contract of \<open>trait MemoryPool\<close> as a locale, proved for every pool, and what follows
  from it for the reservations of a process: the bytes a pool reports are the bytes its
  reservations hold. The process is a state machine whose commands are the methods of
  \<open>MemoryConsumer\<close> and \<open>MemoryReservation\<close>.
\<close>

section \<open>The reservations of a process\<close>

record 'p mem_sys =
  ms_pool :: 'p
  ms_reservations :: "reservation list"
  ms_next_id :: nat

datatype mem_cmd =
    New string bool
  | Grow nat nat
  | TryGrow nat nat
  | Shrink nat nat
  | TryShrink nat nat
  | Resize nat nat
  | TryResize nat nat
  | Split nat nat
  | NewEmpty nat
  | Take nat
  | Free nat
  | DropIt nat

definition put :: "nat \<Rightarrow> 'p mem_sys \<Rightarrow> reservation \<times> 'p \<Rightarrow> 'p mem_sys" where
  "put i s rp = s\<lparr>ms_pool := snd rp, ms_reservations := (ms_reservations s)[i := fst rp]\<rparr>"

definition put_split :: "nat \<Rightarrow> 'p mem_sys \<Rightarrow> reservation \<times> reservation \<Rightarrow> 'p mem_sys" where
  "put_split i s nr = s\<lparr>ms_reservations := (ms_reservations s)[i := snd nr] @ [fst nr]\<rparr>"

text \<open>
  Dropping a reservation frees it; dropping the last reservation of a registration
  unregisters the consumer.
\<close>

definition drop_reservation :: "'p pool_ops \<Rightarrow> nat \<Rightarrow> 'p mem_sys \<Rightarrow> 'p mem_sys res" where
  "drop_reservation ops i s =
     (let rs = ms_reservations s; c = rs_consumer (rs ! i);
          p = snd (snd (reservation_free ops (rs ! i) (ms_pool s)));
          rest = take i rs @ drop (Suc i) rs
      in if list_ex (\<lambda>r. mc_id (rs_consumer r) = mc_id c) rest
         then Inr (s\<lparr>ms_pool := p, ms_reservations := rest\<rparr>)
         else bind_res (po_unregister ops c p) (\<lambda>p'. Inr (s\<lparr>ms_pool := p', ms_reservations := rest\<rparr>)))"

fun mem_target :: "mem_cmd \<Rightarrow> nat option" where
  "mem_target (New n b) = None"
| "mem_target (Grow i n) = Some i"
| "mem_target (TryGrow i n) = Some i"
| "mem_target (Shrink i n) = Some i"
| "mem_target (TryShrink i n) = Some i"
| "mem_target (Resize i n) = Some i"
| "mem_target (TryResize i n) = Some i"
| "mem_target (Split i n) = Some i"
| "mem_target (NewEmpty i) = Some i"
| "mem_target (Take i) = Some i"
| "mem_target (Free i) = Some i"
| "mem_target (DropIt i) = Some i"

fun mem_do :: "'p pool_ops \<Rightarrow> mem_cmd \<Rightarrow> 'p mem_sys \<Rightarrow> 'p mem_sys res" where
  "mem_do ops (New n b) s =
     (let (c0, next_id) = consumer_new n (ms_next_id s);
          (r, p) = consumer_register ops (with_can_spill b c0) (ms_pool s)
      in Inr (s\<lparr>ms_pool := p, ms_reservations := ms_reservations s @ [r], ms_next_id := next_id\<rparr>))"
| "mem_do ops (Grow i n) s = Inr (put i s (reservation_grow ops n (ms_reservations s ! i) (ms_pool s)))"
| "mem_do ops (TryGrow i n) s =
     bind_res (reservation_try_grow ops n (ms_reservations s ! i) (ms_pool s)) (\<lambda>x. Inr (put i s x))"
| "mem_do ops (Shrink i n) s =
     bind_res (reservation_shrink ops n (ms_reservations s ! i) (ms_pool s)) (\<lambda>x. Inr (put i s x))"
| "mem_do ops (TryShrink i n) s =
     bind_res (reservation_try_shrink ops n (ms_reservations s ! i) (ms_pool s)) (\<lambda>x. Inr (put i s (snd x)))"
| "mem_do ops (Resize i n) s =
     bind_res (reservation_resize ops n (ms_reservations s ! i) (ms_pool s)) (\<lambda>x. Inr (put i s x))"
| "mem_do ops (TryResize i n) s =
     bind_res (reservation_try_resize ops n (ms_reservations s ! i) (ms_pool s)) (\<lambda>x. Inr (put i s x))"
| "mem_do ops (Split i n) s =
     bind_res (reservation_split n (ms_reservations s ! i)) (\<lambda>x. Inr (put_split i s x))"
| "mem_do ops (NewEmpty i) s =
     Inr (s\<lparr>ms_reservations := ms_reservations s @ [reservation_new_empty (ms_reservations s ! i)]\<rparr>)"
| "mem_do ops (Take i) s =
     bind_res (reservation_take (ms_reservations s ! i)) (\<lambda>x. Inr (put_split i s x))"
| "mem_do ops (Free i) s = Inr (put i s (snd (reservation_free ops (ms_reservations s ! i) (ms_pool s))))"
| "mem_do ops (DropIt i) s = drop_reservation ops i s"

text \<open>A command applies to a live reservation.\<close>

definition mem_live :: "mem_cmd \<Rightarrow> 'p mem_sys \<Rightarrow> bool" where
  "mem_live c s \<longleftrightarrow> (case mem_target c of None \<Rightarrow> True | Some i \<Rightarrow> i < length (ms_reservations s))"

definition mem_init :: "'p \<Rightarrow> 'p mem_sys" where
  "mem_init p = \<lparr>ms_pool = p, ms_reservations = [], ms_next_id = 0\<rparr>"

text \<open>
  The states reachable by allowed commands that return, from an empty process over the
  pool \<open>p\<close>; the number counts the consumers created.
\<close>

inductive mem_reach :: "'p pool_ops \<Rightarrow> (mem_cmd \<Rightarrow> bool) \<Rightarrow> 'p \<Rightarrow> nat \<Rightarrow> 'p mem_sys \<Rightarrow> bool" for ops allowed p where
  mem_start: "mem_reach ops allowed p 0 (mem_init p)"
| mem_next: "mem_reach ops allowed p k s \<Longrightarrow> allowed c \<Longrightarrow> mem_live c s \<Longrightarrow> mem_do ops c s = Inr s' \<Longrightarrow>
     mem_reach ops allowed p (if mem_target c = None then Suc k else k) s'"

definition held :: "'p mem_sys \<Rightarrow> nat" where
  "held s = sum_list (map rs_size (ms_reservations s))"

text \<open>
  The bytes a command may add, and whether it may add them without asking: \<open>grow\<close> and
  \<open>resize\<close> always succeed. \<open>allowed f N\<close> are the commands that add less than \<open>N\<close> bytes, and
  only by asking unless \<open>f\<close>; with \<^const>\<open>usize_mod\<close> for \<open>N\<close> these are all commands.
\<close>

fun mem_amount :: "mem_cmd \<Rightarrow> nat" where
  "mem_amount (Grow i n) = n"
| "mem_amount (TryGrow i n) = n"
| "mem_amount (Resize i n) = n"
| "mem_amount (TryResize i n) = n"
| "mem_amount _ = 0"

fun infallible :: "mem_cmd \<Rightarrow> bool" where
  "infallible (Grow i n) = True"
| "infallible (Resize i n) = True"
| "infallible _ = False"

definition allowed :: "bool \<Rightarrow> nat \<Rightarrow> mem_cmd \<Rightarrow> bool" where
  "allowed f N c \<longleftrightarrow> mem_amount c < N \<and> (infallible c \<longrightarrow> f)"

section \<open>What every reservation method does\<close>

text \<open>
  Each method moves the reservation and the pool by the same amount: it grows both, shrinks
  both, or leaves both. This is the shape all the accounting rests on.
\<close>

inductive moved :: "'p pool_ops \<Rightarrow> bool \<Rightarrow> nat \<Rightarrow> reservation \<Rightarrow> 'p \<Rightarrow> reservation \<Rightarrow> 'p \<Rightarrow> bool" for ops f N r p where
  same: "moved ops f N r p r p"
| grown: "f \<Longrightarrow> n < N \<Longrightarrow> moved ops f N r p (r\<lparr>rs_size := wadd (rs_size r) n\<rparr>) (po_grow ops r n p)"
| tried: "n < N \<Longrightarrow> po_try_grow ops r n p = Inr p' \<Longrightarrow>
     moved ops f N r p (r\<lparr>rs_size := wadd (rs_size r) n\<rparr>) p'"
| shrunk: "n \<le> rs_size r \<Longrightarrow> r' = r\<lparr>rs_size := rs_size r - n\<rparr> \<Longrightarrow> moved ops f N r p r' (po_shrink ops r' n p)"

lemma checked_sub_Some: "checked_sub a b = Some c \<longleftrightarrow> b \<le> a \<and> c = a - b"
  by (auto simp: checked_sub_def)

lemma moved_free: "reservation_free ops r p = (n, r', p') \<Longrightarrow> moved ops f N r p r' p' \<and> rs_size r' = 0"
  using shrunk [of "rs_size r" r "r\<lparr>rs_size := 0\<rparr>" ops f N p] same [of ops f N r p]
  by (cases r; cases "rs_size r = 0") (auto simp: reservation_free_def Let_def)

lemma moved_shrink: "reservation_shrink ops n r p = Inr (r', p') \<Longrightarrow> moved ops f N r p r' p'"
  by (auto simp: reservation_shrink_def checked_sub_Some Let_def intro: shrunk split: option.splits)

lemma moved_try_shrink: "reservation_try_shrink ops n r p = Inr (m, r', p') \<Longrightarrow> moved ops f N r p r' p'"
  by (auto simp: reservation_try_shrink_def checked_sub_Some Let_def intro: shrunk split: option.splits)

lemma moved_grow: "f \<Longrightarrow> n < N \<Longrightarrow> reservation_grow ops n r p = (r', p') \<Longrightarrow> moved ops f N r p r' p'"
  by (auto simp: reservation_grow_def intro: grown)

lemma moved_try_grow: "n < N \<Longrightarrow> reservation_try_grow ops n r p = Inr (r', p') \<Longrightarrow> moved ops f N r p r' p'"
  by (auto simp: reservation_try_grow_def intro: tried)

lemma moved_resize:
  assumes "f" and "n < N" and "reservation_resize ops n r p = Inr (r', p')"
  shows "moved ops f N r p r' p'"
  using assms moved_grow [of f "n - rs_size r" N ops r p r' p'] moved_shrink [of ops "rs_size r - n" r p r' p' f N]
    same [of ops f N r p]
  by (auto simp: reservation_resize_def split: if_splits)

lemma moved_try_resize:
  assumes "n < N" and "reservation_try_resize ops n r p = Inr (r', p')"
  shows "moved ops f N r p r' p'"
  using assms moved_try_grow [of "n - rs_size r" N ops r p r' p' f]
    moved_try_shrink [of ops "rs_size r - n" r p _ r' p' f N] same [of ops f N r p]
  by (auto simp: reservation_try_resize_def split: if_splits)

lemma moved_consumer: "moved ops f N r p r' p' \<Longrightarrow> rs_consumer r' = rs_consumer r"
  by (auto elim: moved.cases)

text \<open>Every command that returns is one of four kinds of change.\<close>

lemma mem_do_cases:
  assumes "mem_do ops c s = Inr s'" and "mem_live c s" and "allowed f N c"
  obtains
    (new) d where "mem_target c = None" "mc_id d = ms_next_id s"
      "s' = s\<lparr>ms_pool := po_register ops d (ms_pool s), ms_reservations := ms_reservations s @ [\<lparr>rs_consumer = d, rs_size = 0\<rparr>],
              ms_next_id := wadd (ms_next_id s) 1\<rparr>"
  | (move) i r p where "mem_target c = Some i" "i < length (ms_reservations s)" "moved ops f N (ms_reservations s ! i) (ms_pool s) r p"
      "s' = s\<lparr>ms_pool := p, ms_reservations := (ms_reservations s)[i := r]\<rparr>"
  | (split) i n where "mem_target c = Some i" "i < length (ms_reservations s)" "n \<le> rs_size (ms_reservations s ! i)"
      "s' = s\<lparr>ms_reservations := (ms_reservations s)[i := (ms_reservations s ! i)\<lparr>rs_size := rs_size (ms_reservations s ! i) - n\<rparr>]
                @ [(ms_reservations s ! i)\<lparr>rs_size := n\<rparr>]\<rparr>"
  | (drop) i r p where "mem_target c = Some i" "i < length (ms_reservations s)" "moved ops f N (ms_reservations s ! i) (ms_pool s) r p"
      "rs_size r = 0" "drop_reservation ops i s = Inr s'" "snd (snd (reservation_free ops (ms_reservations s ! i) (ms_pool s))) = p"
proof (cases c)
  case (New n b)
  then show ?thesis
    using assms new [of "with_can_spill b (fst (consumer_new n (ms_next_id s)))"]
    by (simp add: consumer_new_def with_can_spill_def consumer_register_def Let_def)
next
  case (Grow i n)
  obtain r p where g: "reservation_grow ops n (ms_reservations s ! i) (ms_pool s) = (r, p)" by fastforce
  have "f" "n < N" "i < length (ms_reservations s)" using assms Grow by (simp_all add: allowed_def mem_live_def)
  with moved_grow [OF _ _ g] g Grow assms(1) show ?thesis by (intro move) (auto simp: put_def)
next
  case (TryGrow i n)
  then obtain r p where "reservation_try_grow ops n (ms_reservations s ! i) (ms_pool s) = Inr (r, p)" "s' = put i s (r, p)"
    using assms(1) by auto
  with TryGrow assms moved_try_grow show ?thesis
    by (intro move) (auto simp: allowed_def mem_live_def put_def)
next
  case (Shrink i n)
  then obtain r p where "reservation_shrink ops n (ms_reservations s ! i) (ms_pool s) = Inr (r, p)" "s' = put i s (r, p)"
    using assms(1) by auto
  with Shrink assms moved_shrink show ?thesis by (intro move) (auto simp: mem_live_def put_def)
next
  case (TryShrink i n)
  then obtain m r p where "reservation_try_shrink ops n (ms_reservations s ! i) (ms_pool s) = Inr (m, r, p)" "s' = put i s (r, p)"
    using assms(1) by auto
  with TryShrink assms moved_try_shrink show ?thesis by (intro move) (auto simp: mem_live_def put_def)
next
  case (Resize i n)
  then obtain r p where "reservation_resize ops n (ms_reservations s ! i) (ms_pool s) = Inr (r, p)" "s' = put i s (r, p)"
    using assms(1) by auto
  with Resize assms moved_resize show ?thesis by (intro move) (auto simp: allowed_def mem_live_def put_def)
next
  case (TryResize i n)
  then obtain r p where "reservation_try_resize ops n (ms_reservations s ! i) (ms_pool s) = Inr (r, p)" "s' = put i s (r, p)"
    using assms(1) by auto
  with TryResize assms moved_try_resize show ?thesis by (intro move) (auto simp: allowed_def mem_live_def put_def)
next
  case (Split i n)
  with assms show ?thesis
    by (intro split [of i n]) (auto simp: mem_live_def reservation_split_def checked_sub_Some put_split_def split: option.splits)
next
  case (NewEmpty i)
  with assms show ?thesis
    by (intro split [of i 0]) (auto simp: mem_live_def reservation_new_empty_def)
next
  case (Take i)
  with assms show ?thesis
    by (intro split [of i "rs_size (ms_reservations s ! i)"])
       (auto simp: mem_live_def reservation_take_def reservation_split_def checked_sub_Some put_split_def split: option.splits)
next
  case (Free i)
  obtain n r p where f: "reservation_free ops (ms_reservations s ! i) (ms_pool s) = (n, r, p)" by (cases "reservation_free ops (ms_reservations s ! i) (ms_pool s)")
  with moved_free [OF f] Free assms show ?thesis by (intro move) (auto simp: mem_live_def put_def)
next
  case (DropIt i)
  obtain n r p where f: "reservation_free ops (ms_reservations s ! i) (ms_pool s) = (n, r, p)" by (cases "reservation_free ops (ms_reservations s ! i) (ms_pool s)")
  with moved_free [OF f] DropIt assms show ?thesis by (intro drop) (auto simp: mem_live_def)
qed

section \<open>The contract of a pool\<close>

text \<open>
  \<open>ok\<close> is the pool's invariant. A pool reports what was grown minus what was shrunk, modulo
  the width of \<open>usize\<close>; registering is free of charge; a successful \<open>try_grow\<close> is a \<open>grow\<close>.
\<close>

locale memory_pool =
  fixes ops :: "'p pool_ops" and ok :: "'p \<Rightarrow> bool"
  assumes reserved_bound: "ok p \<Longrightarrow> po_reserved ops p < usize_mod"
    and register_law: "ok p \<Longrightarrow> ok (po_register ops c p) \<and> po_reserved ops (po_register ops c p) = po_reserved ops p"
    and unregister_law: "ok p \<Longrightarrow> po_unregister ops c p = Inr p' \<Longrightarrow> ok p' \<and> po_reserved ops p' = po_reserved ops p"
    and grow_law: "ok p \<Longrightarrow> n < usize_mod \<Longrightarrow>
       ok (po_grow ops r n p) \<and> po_reserved ops (po_grow ops r n p) = wadd (po_reserved ops p) n"
    and shrink_law: "ok p \<Longrightarrow> n < usize_mod \<Longrightarrow>
       ok (po_shrink ops r n p) \<and> po_reserved ops (po_shrink ops r n p) = wsub (po_reserved ops p) n"
    and try_grow_law: "ok p \<Longrightarrow> po_try_grow ops r n p = Inr p' \<Longrightarrow> p' = po_grow ops r n p"

definition accounts :: "'p pool_ops \<Rightarrow> ('p \<Rightarrow> bool) \<Rightarrow> 'p mem_sys \<Rightarrow> bool" where
  "accounts ops ok s \<longleftrightarrow> ok (ms_pool s) \<and> list_all (\<lambda>r. rs_size r < usize_mod) (ms_reservations s)
     \<and> int (po_reserved ops (ms_pool s)) = int (held s) mod int usize_mod"

lemma held_update:
  "i < length rs \<Longrightarrow> int (sum_list (map rs_size (rs[i := r]))) = int (sum_list (map rs_size rs)) - int (rs_size (rs ! i)) + int (rs_size r)"
  by (induction rs arbitrary: i) (auto split: nat.splits)

lemma held_remove:
  "i < length rs \<Longrightarrow> int (sum_list (map rs_size (take i rs @ drop (Suc i) rs))) = int (sum_list (map rs_size rs)) - int (rs_size (rs ! i))"
  using arg_cong [OF id_take_nth_drop [of i rs], of "\<lambda>xs. int (sum_list (map rs_size xs))"] by simp

lemma mod_shift: "(x + ((a + n) mod m - a)) mod m = (x + n) mod (m :: int)"
proof -
  have "(x + ((a + n) mod m - a)) mod m = ((x - a) + (a + n) mod m) mod m" by (simp add: algebra_simps)
  also have "\<dots> = (x + n) mod m" by (simp add: mod_add_right_eq)
  finally show ?thesis .
qed

context memory_pool
begin

lemma moved_reserved:
  assumes "moved ops f usize_mod r p r' p'" and "ok p" and "rs_size r < usize_mod"
  shows "ok p' \<and> rs_size r' < usize_mod
    \<and> int (po_reserved ops p') = (int (po_reserved ops p) + (int (rs_size r') - int (rs_size r))) mod int usize_mod"
  using assms(1)
proof (cases rule: moved.cases)
  case same
  with assms reserved_bound show ?thesis by simp
next
  case (grown n)
  then have "int (po_reserved ops p') = (int (po_reserved ops p) + int n) mod int usize_mod"
    using grow_law [OF assms(2)] int_wadd by simp
  moreover have "int (rs_size r') = (int (rs_size r) + int n) mod int usize_mod"
    using grown int_wadd by simp
  ultimately show ?thesis
    using grown grow_law [OF assms(2)] wadd_bound by (simp add: mod_shift)
next
  case (tried n)
  then have p': "p' = po_grow ops r n p" using try_grow_law [OF assms(2)] by simp
  then have "int (po_reserved ops p') = (int (po_reserved ops p) + int n) mod int usize_mod"
    using tried grow_law [OF assms(2)] int_wadd by simp
  moreover have "int (rs_size r') = (int (rs_size r) + int n) mod int usize_mod"
    using tried int_wadd by simp
  ultimately show ?thesis
    using tried grow_law [OF assms(2)] wadd_bound p' by (simp add: mod_shift)
next
  case (shrunk n)
  then have n: "n < usize_mod" using assms(3) by simp
  then have "int (po_reserved ops p') = (int (po_reserved ops p) - int n) mod int usize_mod"
    using shrunk shrink_law [OF assms(2)] int_wsub by simp
  with shrunk n shrink_law [OF assms(2) n] assms(3) show ?thesis by simp
qed

lemma accounts_step:
  assumes "accounts ops ok s" and "mem_do ops c s = Inr s'" and "mem_live c s" and "allowed f usize_mod c"
  shows "accounts ops ok s'"
  using assms(2-4)
proof (cases rule: mem_do_cases)
  case (new d)
  with assms(1) register_law show ?thesis by (simp add: accounts_def held_def usize_mod_def)
next
  case (move i r p)
  let ?r = "ms_reservations s ! i"
  have "ok (ms_pool s)" "rs_size ?r < usize_mod" using assms(1) move(2) by (simp_all add: accounts_def list_all_length)
  note m = moved_reserved [OF move(3) this]
  have "int (held s') = int (held s) + (int (rs_size r) - int (rs_size ?r))"
    using move(2,4) by (simp add: held_def held_update)
  with m move assms(1) show ?thesis
    by (auto simp: accounts_def list_all_length nth_list_update mod_add_left_eq)
next
  case (split i n)
  then have "int (held s') = int (held s)" by (simp add: held_def held_update)
  moreover have "list_all (\<lambda>r. rs_size r < usize_mod) (ms_reservations s')"
  proof -
    have n: "rs_size (ms_reservations s ! i) < usize_mod" using assms(1) split(2) by (simp add: accounts_def list_all_length)
    have "list_all (\<lambda>r. rs_size r < usize_mod)
        ((ms_reservations s)[i := (ms_reservations s ! i)\<lparr>rs_size := rs_size (ms_reservations s ! i) - n\<rparr>])"
      using assms(1) n split(2) by (auto simp: accounts_def list_all_length nth_list_update less_imp_diff_less)
    with n split show ?thesis by simp
  qed
  ultimately show ?thesis using assms(1) split by (simp add: accounts_def)
next
  case (drop i r p)
  let ?r = "ms_reservations s ! i"
  have "ok (ms_pool s)" "rs_size ?r < usize_mod" using assms(1) drop(2) by (simp_all add: accounts_def list_all_length)
  note m = moved_reserved [OF drop(3) this]
  let ?rest = "take i (ms_reservations s) @ List.drop (Suc i) (ms_reservations s)"
  have s': "ms_reservations s' = ?rest" "ok (ms_pool s')" "po_reserved ops (ms_pool s') = po_reserved ops p"
    using drop(5,6) m unregister_law [of p] by (auto simp: drop_reservation_def Let_def split: if_splits)
  have "list_all (\<lambda>r. rs_size r < usize_mod) ?rest"
    using assms(1) by (auto simp: accounts_def list_all_iff dest: in_set_takeD in_set_dropD)
  moreover have "int (held s') = int (held s) - int (rs_size ?r)"
    using held_remove [OF drop(2)] s'(1) by (simp add: held_def)
  ultimately show ?thesis using m s' drop(4) assms(1) by (simp add: accounts_def mod_diff_left_eq)
qed

lemma accounts_reach:
  assumes "mem_reach ops (allowed f usize_mod) p k s" and "ok p" and "po_reserved ops p = 0"
  shows "accounts ops ok s"
  using assms(1)
proof induction
  case mem_start
  with assms(2,3) show ?case by (simp add: accounts_def mem_init_def held_def)
next
  case (mem_next k s c s')
  then show ?case using accounts_step by blast
qed

text \<open>A tracking pool keeps the contract of the pool it wraps.\<close>

lemma tracking_contract: "memory_pool (tracking_ops ops) (\<lambda>t. ok (tp_inner t))"
proof unfold_locales
  fix t :: "'p tracking_pool" and r n t'
  assume "ok (tp_inner t)" and "po_try_grow (tracking_ops ops) r n t = Inr t'"
  then show "t' = po_grow (tracking_ops ops) r n t"
    using try_grow_law
    by (auto simp: tracking_ops_def tracking_try_grow_def split: sum.splits df_error.splits)
qed (use reserved_bound register_law unregister_law grow_law shrink_law in \<open>auto simp: tracking_ops_def\<close>)

end

interpretation unbounded: memory_pool unbounded_ops "\<lambda>p. ub_used p < usize_mod"
  by unfold_locales (auto simp: unbounded_ops_def wadd_bound wsub_bound)

interpretation greedy: memory_pool greedy_ops "\<lambda>p. gp_used p < usize_mod"
  by unfold_locales (auto simp: greedy_ops_def greedy_try_grow_def wadd_bound wsub_bound Let_def split: if_splits)

text \<open>The fair pool keeps two counters; the law for their sum is arithmetic modulo the width.\<close>

lemma wadd_assoc_swap: "wadd (wadd a n) b = wadd (wadd a b) n" "wadd a (wadd b n) = wadd (wadd a b) n"
proof -
  have "int (wadd (wadd a n) b) = int (wadd (wadd a b) n)" "int (wadd a (wadd b n)) = int (wadd (wadd a b) n)"
    by (simp_all add: int_wadd mod_simps algebra_simps)
  then show "wadd (wadd a n) b = wadd (wadd a b) n" "wadd a (wadd b n) = wadd (wadd a b) n" by simp_all
qed

lemma wsub_wadd_swap:
  assumes "n < usize_mod"
  shows "wadd (wsub a n) b = wsub (wadd a b) n" and "wadd a (wsub b n) = wsub (wadd a b) n"
proof -
  have "int (wadd (wsub a n) b) = int (wsub (wadd a b) n)" "int (wadd a (wsub b n)) = int (wsub (wadd a b) n)"
    using assms by (simp_all add: int_wadd int_wsub mod_simps algebra_simps)
  then show "wadd (wsub a n) b = wsub (wadd a b) n" "wadd a (wsub b n) = wsub (wadd a b) n" by simp_all
qed

definition fair_ok :: "fair_pool \<Rightarrow> bool" where
  "fair_ok p \<longleftrightarrow> fp_spillable p < usize_mod \<and> fp_unspillable p < usize_mod"

interpretation fair: memory_pool fair_ops fair_ok
proof unfold_locales
  fix p r n p'
  assume "fair_ok p" and "po_try_grow fair_ops r n p = Inr p'"
  then show "p' = po_grow fair_ops r n p"
    by (auto simp: fair_ops_def fair_try_grow_def fair_grow_def Let_def split: if_splits)
qed (auto simp: fair_ops_def fair_ok_def fair_register_def fair_unregister_def fair_grow_def fair_shrink_def
      wadd_bound wsub_bound wadd_assoc_swap wsub_wadd_swap split: if_splits option.splits)

interpretation tracked_fair: memory_pool "tracking_ops fair_ops" "\<lambda>t. fair_ok (tp_inner t)"
  by (rule fair.tracking_contract)

interpretation tracked_greedy: memory_pool "tracking_ops greedy_ops" "\<lambda>t. gp_used (tp_inner t) < usize_mod"
  by (rule greedy.tracking_contract)

section \<open>The greedy limit\<close>

definition greedy_inv :: "nat \<Rightarrow> greedy_pool mem_sys \<Rightarrow> bool" where
  "greedy_inv cap s \<longleftrightarrow> gp_pool_size (ms_pool s) = cap \<and> gp_used (ms_pool s) = held s \<and> held s \<le> cap"

lemma size_le_held: "i < length (ms_reservations s) \<Longrightarrow> rs_size (ms_reservations s ! i) \<le> held s"
  unfolding held_def by (intro elem_le_sum_list [of i "map rs_size (ms_reservations s)", simplified])

lemma held_put:
  assumes "i < length (ms_reservations s)" and "rs_size (ms_reservations s ! i) \<le> held s"
  shows "sum_list (map rs_size ((ms_reservations s)[i := r])) = held s - rs_size (ms_reservations s ! i) + rs_size r"
  using held_update [OF assms(1), of r] assms(2) by (simp add: held_def)

lemma greedy_moved:
  assumes "moved greedy_ops False (usize_mod - cap) r p r' p'" and "gp_pool_size p = cap"
    and "rs_size r \<le> gp_used p" and "gp_used p \<le> cap" and "cap < usize_mod"
  shows "gp_pool_size p' = cap \<and> gp_used p' = gp_used p - rs_size r + rs_size r' \<and> gp_used p' \<le> cap"
  using assms(1)
proof (cases rule: moved.cases)
  case (tried n)
  have "gp_used p + n < usize_mod" using tried(2) assms(4,5) by simp
  with tried assms show ?thesis
    by (auto simp: greedy_ops_def greedy_try_grow_def usize_simps Let_def split: if_splits)
qed (use assms in \<open>auto simp: greedy_ops_def usize_simps\<close>)

lemma greedy_step:
  assumes "greedy_inv cap s" and "cap < usize_mod"
    and "mem_do greedy_ops c s = Inr s'" and "mem_live c s" and "allowed False (usize_mod - cap) c"
  shows "greedy_inv cap s'"
  using assms(3-5)
proof (cases rule: mem_do_cases)
  case (new d)
  with assms(1) show ?thesis by (simp add: greedy_inv_def held_def greedy_ops_def)
next
  case (move i r p)
  note le = size_le_held [OF move(2)]
  from greedy_moved [OF move(3) _ _ _ assms(2)] le assms(1) move held_put [OF move(2) le, of r] show ?thesis
    by (simp add: greedy_inv_def held_def)
next
  case (split i n)
  with size_le_held [OF split(2)] held_put [OF split(2) size_le_held [OF split(2)]] assms(1) show ?thesis
    by (simp add: greedy_inv_def held_def)
next
  case (drop i r p)
  note le = size_le_held [OF drop(2)]
  have "held s' = held s - rs_size (ms_reservations s ! i)" "ms_pool s' = p"
    using held_remove [OF drop(2)] drop(5,6) le
    by (auto simp: drop_reservation_def held_def greedy_ops_def Let_def split: if_splits)
  with greedy_moved [OF drop(3) _ _ _ assms(2)] le assms(1) drop(4) show ?thesis by (simp add: greedy_inv_def)
qed

section \<open>Spillable consumers of the fair pool\<close>

definition consumers :: "'p mem_sys \<Rightarrow> memory_consumer list" where
  "consumers s = map rs_consumer (ms_reservations s)"

definition spill_ids :: "memory_consumer list \<Rightarrow> nat set" where
  "spill_ids cs = mc_id ` set (filter mc_can_spill cs)"

definition fair_inv :: "nat \<Rightarrow> fair_pool mem_sys \<Rightarrow> bool" where
  "fair_inv k s \<longleftrightarrow> ms_next_id s = k \<and> (\<forall>c \<in> set (consumers s). mc_id c < k)
     \<and> inj_on mc_id (set (consumers s)) \<and> fp_num_spill (ms_pool s) = card (spill_ids (consumers s))"

lemma fair_moved_spill: "moved fair_ops f N r p r' p' \<Longrightarrow> fp_num_spill p' = fp_num_spill p"
  by (auto elim!: moved.cases simp: fair_ops_def fair_grow_def fair_shrink_def fair_try_grow_def Let_def split: if_splits)

lemma consumers_put:
  "i < length (ms_reservations s) \<Longrightarrow> rs_consumer r = rs_consumer (ms_reservations s ! i) \<Longrightarrow>
     map rs_consumer ((ms_reservations s)[i := r]) = consumers s"
  by (simp add: consumers_def map_update list_update_same_conv)

lemma spill_ids_bound: "\<forall>c \<in> set cs. mc_id c < k \<Longrightarrow> card (spill_ids cs) \<le> k"
  using card_mono [of "{..<k}" "spill_ids cs"] by (auto simp: spill_ids_def)

lemma finite_spill_ids [simp]: "finite (spill_ids cs)"
  by (simp add: spill_ids_def)

text \<open>Dropping the last reservation of a consumer removes its id, and only then.\<close>

lemma drop_fair:
  assumes "fair_inv k s" and "i < length (ms_reservations s)"
  shows "\<exists>s'. drop_reservation fair_ops i s = Inr s' \<and> fair_inv k s'"
proof -
  let ?rs = "ms_reservations s" and ?c = "rs_consumer (ms_reservations s ! i)"
  obtain rest where rest: "rest = take i ?rs @ drop (Suc i) ?rs" by blast
  obtain n r p where f: "reservation_free fair_ops (?rs ! i) (ms_pool s) = (n, r, p)"
    by (cases "reservation_free fair_ops (?rs ! i) (ms_pool s)")
  have num: "fp_num_spill p = card (spill_ids (consumers s))"
    using fair_moved_spill [OF conjunct1 [OF moved_free [OF f]]] assms(1) by (simp add: fair_inv_def)
  have "?rs = take i ?rs @ ?rs ! i # drop (Suc i) ?rs" using assms(2) by (rule id_take_nth_drop)
  from arg_cong [OF this, of "\<lambda>xs. set (map rs_consumer xs)"]
  have set: "set (consumers s) = insert ?c (set (map rs_consumer rest))"
    by (auto simp: consumers_def rest simp del: append_take_drop_id)
  have inj: "inj_on mc_id (insert ?c (set (map rs_consumer rest)))" using assms(1) set by (simp add: fair_inv_def)
  have ids: "spill_ids (consumers s) = (if mc_can_spill ?c then insert (mc_id ?c) (spill_ids (map rs_consumer rest))
      else spill_ids (map rs_consumer rest))"
    using set by (auto simp: spill_ids_def)
  have inv: "fair_inv k (s\<lparr>ms_pool := q, ms_reservations := rest\<rparr>)"
    if "fp_num_spill q = card (spill_ids (map rs_consumer rest))" for q
  proof -
    have "consumers (s\<lparr>ms_pool := q, ms_reservations := rest\<rparr>) = map rs_consumer rest" by (simp add: consumers_def)
    moreover have "\<forall>c \<in> set (map rs_consumer rest). mc_id c < k" using assms(1) set by (simp add: fair_inv_def)
    ultimately show ?thesis using that assms(1) inj by (simp add: fair_inv_def inj_on_insert)
  qed
  have drop: "drop_reservation fair_ops i s =
      (if list_ex (\<lambda>r. mc_id (rs_consumer r) = mc_id ?c) rest then Inr (s\<lparr>ms_pool := p, ms_reservations := rest\<rparr>)
       else bind_res (fair_unregister ?c p) (\<lambda>p'. Inr (s\<lparr>ms_pool := p', ms_reservations := rest\<rparr>)))"
    using f by (simp add: drop_reservation_def rest Let_def fair_ops_def)
  show ?thesis
  proof (cases "list_ex (\<lambda>r. mc_id (rs_consumer r) = mc_id ?c) rest")
    case True
    then obtain x where x: "x \<in> set rest" "mc_id (rs_consumer x) = mc_id ?c" by (auto simp: list_ex_iff)
    have "rs_consumer x = ?c" by (rule inj_onD [OF inj x(2)]) (use x(1) in auto)
    with imageI [OF x(1), of rs_consumer] have "?c \<in> set (map rs_consumer rest)" by simp
    then have "spill_ids (consumers s) = spill_ids (map rs_consumer rest)" using set by (auto simp: spill_ids_def)
    with True drop inv num show ?thesis by simp
  next
    case False
    then have "mc_id ?c \<notin> spill_ids (map rs_consumer rest)" by (auto simp: list_ex_iff spill_ids_def)
    with ids num have "\<exists>q. fair_unregister ?c p = Inr q \<and> fp_num_spill q = card (spill_ids (map rs_consumer rest))"
      by (simp add: fair_unregister_def checked_sub_def)
    with False drop inv show ?thesis by auto
  qed
qed

lemma fair_step:
  assumes "fair_inv k s" and "mem_do fair_ops c s = Inr s'" and "mem_live c s" and "allowed True usize_mod c"
    and "(if mem_target c = None then Suc k else k) < usize_mod"
  shows "fair_inv (if mem_target c = None then Suc k else k) s'"
  using assms(2-4)
proof (cases rule: mem_do_cases)
  case (new d)
  have b: "card (spill_ids (consumers s)) \<le> k" "Suc k < usize_mod"
    using spill_ids_bound [of "consumers s" k] assms(1,5) new(1) by (simp_all add: fair_inv_def)
  have "mc_id d \<notin> spill_ids (consumers s)" "mc_id d \<notin> mc_id ` set (consumers s)"
    using assms(1) new(2) by (auto simp: fair_inv_def spill_ids_def)
  with b new assms(1) show ?thesis
    by (auto simp: fair_inv_def consumers_def fair_ops_def fair_register_def spill_ids_def usize_simps)
next
  case (move i r p)
  with assms(1) fair_moved_spill [OF move(3)] consumers_put [OF move(2) moved_consumer [OF move(3)]] show ?thesis
    by (simp add: fair_inv_def consumers_def)
next
  case (split i n)
  let ?r = "ms_reservations s ! i"
  have "rs_consumer ?r \<in> set (consumers s)" using split(2) by (simp add: consumers_def)
  then have "set (consumers s') = set (consumers s)" "spill_ids (consumers s') = spill_ids (consumers s)"
    using split(2,4) consumers_put [OF split(2), of "?r\<lparr>rs_size := rs_size ?r - n\<rparr>"]
    by (auto simp: consumers_def spill_ids_def)
  with split(1,4) assms(1) show ?thesis by (simp add: fair_inv_def)
next
  case (drop i r p)
  with drop_fair [OF assms(1) drop(2)] show ?thesis by auto
qed

lemma fair_reach:
  "mem_reach fair_ops (allowed True usize_mod) (fair_new cap) k s \<Longrightarrow> k < usize_mod \<Longrightarrow> fair_inv k s"
proof (induction rule: mem_reach.induct)
  case mem_start
  show ?case by (simp add: fair_inv_def mem_init_def consumers_def fair_new_def spill_ids_def)
next
  case (mem_next k s c s')
  then have "fair_inv k s" by (auto split: if_splits)
  from fair_step [OF this mem_next(4,3,2) mem_next.prems] show ?case .
qed

section \<open>Tracking changes nothing\<close>

definition untracked :: "'p tracking_pool mem_sys \<Rightarrow> 'p mem_sys" where
  "untracked s = \<lparr>ms_pool = tp_inner (ms_pool s), ms_reservations = ms_reservations s, ms_next_id = ms_next_id s\<rparr>"

lemma bind_res_case: "bind_res r f = (case r of Inl e \<Rightarrow> Inl e | Inr x \<Rightarrow> f x)"
  by (cases r) simp_all

lemmas tracking_simps = bind_res_case tracking_ops_def tracking_try_grow_def untracked_def drop_reservation_def
  reservation_resize_def reservation_try_resize_def put_def put_split_def Let_def
  reservation_free_def reservation_grow_def reservation_try_grow_def reservation_shrink_def
  reservation_try_shrink_def consumer_register_def case_prod_unfold

section \<open>Properties\<close>

text \<open>A sequence of commands, up to the first that fails.\<close>

fun mem_run :: "'p pool_ops \<Rightarrow> mem_cmd list \<Rightarrow> 'p mem_sys \<Rightarrow> 'p mem_sys res" where
  "mem_run ops [] s = Inr s"
| "mem_run ops (c # cs) s = bind_res (mem_do ops c s) (mem_run ops cs)"

lemma reach_new_try:
  assumes "A (New n b)" and "A (TryGrow 0 m)" and "mem_run ops [New n b, TryGrow 0 m] (mem_init p) = Inr s"
  shows "mem_reach ops A p 1 s"
proof -
  obtain s1 where s1: "mem_do ops (New n b) (mem_init p) = Inr s1" "mem_do ops (TryGrow 0 m) s1 = Inr s"
    using assms(3) by (auto simp: bind_res_case split: sum.splits)
  have "mem_reach ops A p (if mem_target (New n b) = None then Suc 0 else 0) s1"
    using mem_next [where c = "New n b" and k = 0 and allowed = A, OF mem_start assms(1) _ s1(1)] by (simp add: mem_live_def)
  moreover have "mem_live (TryGrow 0 m) s1"
    using s1(1) by (auto simp: mem_live_def mem_init_def consumer_new_def consumer_register_def)
  ultimately show ?thesis
    using mem_next [where c = "TryGrow 0 m" and k = "Suc 0" and allowed = A, OF _ assms(2) _ s1(2)] by simp
qed

lemmas mem_evaluate = mem_init_def consumer_new_def with_can_spill_def consumer_register_def
  fair_new_def fair_ops_def fair_register_def reservation_try_grow_def fair_try_grow_def fair_available_def
  tracking_new_def tracking_ops_def tracking_try_grow_def modify_entry_def tracked_grow_def
  greedy_new_def greedy_ops_def greedy_try_grow_def put_def wadd_def usize_mod_def allowed_def


text \<open>C13. Memory accounting is exact for every pool that keeps the contract, here the tracking
  pool over the fair one: after any sequence of commands that return, the bytes the pool
  reports are the bytes the live reservations hold, modulo the width of \<open>usize\<close>, and equal
  to them while they fit.\<close>

theorem tracked_fair_accounts:
  assumes "mem_reach (tracking_ops fair_ops) (allowed True usize_mod) (tracking_new (fair_new cap) top_n) k s"
  shows "int (po_reserved (tracking_ops fair_ops) (ms_pool s)) = int (held s) mod int usize_mod
         \<and> (held s < usize_mod \<longrightarrow> po_reserved (tracking_ops fair_ops) (ms_pool s) = held s)"
proof -
  have "accounts (tracking_ops fair_ops) (\<lambda>t. fair_ok (tp_inner t)) s"
    by (rule tracked_fair.accounts_reach [OF assms])
       (simp_all add: tracking_new_def fair_new_def fair_ok_def usize_mod_def tracking_ops_def fair_ops_def wadd_def)
  then show ?thesis by (auto simp: accounts_def)
qed

theorem tracked_fair_accounts_witness:
  "\<exists>s. ms_reservations s \<noteq> [] \<and> held s = 40
     \<and> int (po_reserved (tracking_ops fair_ops) (ms_pool s)) = int (held s) mod int usize_mod
     \<and> (held s < usize_mod \<longrightarrow> po_reserved (tracking_ops fair_ops) (ms_pool s) = held s)"
proof -
  let ?p = "tracking_new (fair_new 100) 5"
  obtain s where s: "mem_run (tracking_ops fair_ops) [New ''sort'' True, TryGrow 0 40] (mem_init ?p) = Inr s"
    "ms_reservations s \<noteq> []" "held s = 40"
    by (simp add: mem_evaluate held_def)
  have "mem_reach (tracking_ops fair_ops) (allowed True usize_mod) ?p 1 s"
    by (rule reach_new_try [OF _ _ s(1)]) (simp_all add: allowed_def usize_mod_def)
  from tracked_fair_accounts [OF this] s(2,3) show ?thesis by blast
qed



text \<open>The bound on the request matters: the addition in the greedy pool wraps around in
  a release build, so a request close to the width of \<open>usize\<close> is granted and lowers the
  pool's count.\<close>

theorem greedy_try_grow_wraps:
  "greedy_try_grow r (usize_mod - 5) \<lparr>gp_pool_size = 100, gp_used = 10\<rparr> = Inr \<lparr>gp_pool_size = 100, gp_used = 5\<rparr>"
  by (simp add: greedy_try_grow_def wadd_def usize_mod_def)

text \<open>Dropping a reservation of the fair pool never panics: as long as fewer than
  \<open>usize_mod\<close> consumers were created, the count of spillable consumers is the number of
  distinct spillable consumers that still hold a reservation, so it cannot underflow.\<close>

theorem fair_drop_never_panics:
  assumes "mem_reach fair_ops (allowed True usize_mod) (fair_new cap) k s" and "k < usize_mod"
    and "i < length (ms_reservations s)"
  shows "(\<exists>s'. drop_reservation fair_ops i s = Inr s') \<and> fp_num_spill (ms_pool s) = card (spill_ids (consumers s))"
  using drop_fair [OF fair_reach [OF assms(1,2)] assms(3)] fair_reach [OF assms(1,2)] by (auto simp: fair_inv_def)

theorem fair_drop_never_panics_witness:
  "\<exists>s s'. ms_reservations s \<noteq> [] \<and> drop_reservation fair_ops 0 s = Inr s'
     \<and> fp_num_spill (ms_pool s) = card (spill_ids (consumers s))"
proof -
  obtain s where s: "mem_run fair_ops [New ''sort'' True, TryGrow 0 40] (mem_init (fair_new 100)) = Inr s"
    "ms_reservations s \<noteq> []"
    by (simp add: mem_evaluate)
  have "mem_reach fair_ops (allowed True usize_mod) (fair_new 100) 1 s"
    by (rule reach_new_try [OF _ _ s(1)]) (simp_all add: allowed_def usize_mod_def)
  from fair_drop_never_panics [OF this, of 0] s(2) show ?thesis by (auto simp: usize_mod_def)
qed


text \<open>The fair pool can hand out more than its size: a spillable consumer that came first
  keeps the whole pool, and a second one still gets its half.\<close>

theorem fair_overcommits:
  "map_sum id (\<lambda>s. po_reserved fair_ops (ms_pool s))
     (mem_run fair_ops [New ''a'' True, TryGrow 0 100, New ''b'' True, TryGrow 1 50] (mem_init (fair_new 100))) = Inr 150"
  by (simp add: mem_evaluate flip: numeral_2_eq_2)

text \<open>The adapter to Arrow reports no room at all for an unlimited pool: the capacity
  minus the use does not fit \<open>isize\<close>, and the fallback for that is the smallest value.\<close>

theorem arrow_available_unlimited:
  "\<forall>used < 2 ^ 63. arrow_available unbounded_ops \<lparr>ub_used = used\<rparr> = - (2 ^ 63)"
  by (simp add: arrow_available_def arrow_capacity_def arrow_used_def unbounded_ops_def usize_mod_def Let_def)

theorem arrow_available_unlimited_witness:
  "arrow_available unbounded_ops \<lparr>ub_used = 4096\<rparr> = - (2 ^ 63)"
  using arrow_available_unlimited by simp

end
