(* ===== verification/Stats.thy ===== *)
theory Stats
  imports F64
begin

text \<open>
  Statistics, \<open>common/src/stats.rs\<close> and \<open>common/src/utils/aggregate.rs\<close>: values with a
  degree of certainty, their arithmetic, and the statistics of a relation with projection,
  limits and merging. A \<open>ScalarValue\<close> is of any type; what the code asks of it is the
  record of its methods. The features of a Bloom filter candidate start from these row
  counts.
\<close>

section \<open>Scalars\<close>

datatype ordering = Less | Equal | Greater

datatype arrow_type =
    TInt8 | TInt16 | TInt32 | TInt64 | TUInt8 | TUInt16 | TUInt32 | TUInt64 | TOther nat

record 'v scalar_ops =
  sv_data_type :: "'v \<Rightarrow> arrow_type"
  sv_cast_to :: "'v \<Rightarrow> arrow_type \<Rightarrow> 'v res"
  sv_add_checked :: "'v \<Rightarrow> 'v \<Rightarrow> 'v res"
  sv_try_add_checked_in_place :: "'v \<Rightarrow> 'v \<Rightarrow> (bool \<times> 'v) res"
  sv_sub :: "'v \<Rightarrow> 'v \<Rightarrow> 'v res"
  sv_mul_checked :: "'v \<Rightarrow> 'v \<Rightarrow> 'v res"
  sv_partial_cmp :: "'v \<Rightarrow> 'v \<Rightarrow> ordering option"
  sv_distance :: "'v \<Rightarrow> 'v \<Rightarrow> nat option"
  sv_is_null :: "'v \<Rightarrow> bool"
  sv_of_u64 :: "nat \<Rightarrow> 'v"
  sv_debug :: "'v \<Rightarrow> string"

definition sv_ge :: "'v scalar_ops \<Rightarrow> 'v \<Rightarrow> 'v \<Rightarrow> bool" where
  "sv_ge ops a b \<longleftrightarrow> sv_partial_cmp ops a b = Some Greater \<or> sv_partial_cmp ops a b = Some Equal"

definition sv_le :: "'v scalar_ops \<Rightarrow> 'v \<Rightarrow> 'v \<Rightarrow> bool" where
  "sv_le ops a b \<longleftrightarrow> sv_partial_cmp ops a b = Some Less \<or> sv_partial_cmp ops a b = Some Equal"

definition sv_gt :: "'v scalar_ops \<Rightarrow> 'v \<Rightarrow> 'v \<Rightarrow> bool" where
  "sv_gt ops a b \<longleftrightarrow> sv_partial_cmp ops a b = Some Greater"

section \<open>Precision\<close>

datatype 'a precision = Exact 'a | Inexact 'a | Absent

fun get_value :: "'a precision \<Rightarrow> 'a option" where
  "get_value (Exact v) = Some v"
| "get_value (Inexact v) = Some v"
| "get_value Absent = None"

fun map_precision_value :: "('a \<Rightarrow> 'b) \<Rightarrow> 'a precision \<Rightarrow> 'b precision" where
  "map_precision_value f (Exact v) = Exact (f v)"
| "map_precision_value f (Inexact v) = Inexact (f v)"
| "map_precision_value f Absent = Absent"

fun is_exact :: "'a precision \<Rightarrow> bool option" where
  "is_exact (Exact v) = Some True"
| "is_exact (Inexact v) = Some False"
| "is_exact Absent = None"

fun to_inexact :: "'a precision \<Rightarrow> 'a precision" where
  "to_inexact (Exact v) = Inexact v"
| "to_inexact p = p"

text \<open>
  The shape the binary operations share: two exact values go to the first function, two
  values of which one is inexact to the second, and \<open>Absent\<close> absorbs.
\<close>

fun combine :: "('a \<Rightarrow> 'a \<Rightarrow> 'a precision) \<Rightarrow> ('a \<Rightarrow> 'a \<Rightarrow> 'a precision) \<Rightarrow> 'a precision \<Rightarrow> 'a precision \<Rightarrow> 'a precision" where
  "combine f g (Exact a) (Exact b) = f a b"
| "combine f g (Inexact a) (Exact b) = g a b"
| "combine f g (Exact a) (Inexact b) = g a b"
| "combine f g (Inexact a) (Inexact b) = g a b"
| "combine f g Absent q = Absent"
| "combine f g p Absent = Absent"

definition precision_max :: "('a \<Rightarrow> 'a \<Rightarrow> bool) \<Rightarrow> 'a precision \<Rightarrow> 'a precision \<Rightarrow> 'a precision" where
  "precision_max ge = combine (\<lambda>a b. Exact (if ge a b then a else b)) (\<lambda>a b. Inexact (if ge a b then a else b))"

definition precision_min :: "('a \<Rightarrow> 'a \<Rightarrow> bool) \<Rightarrow> 'a precision \<Rightarrow> 'a precision \<Rightarrow> 'a precision" where
  "precision_min ge = combine (\<lambda>a b. Exact (if ge a b then b else a)) (\<lambda>a b. Inexact (if ge a b then b else a))"

subsection \<open>Counts\<close>

definition usize_max :: nat where
  "usize_max = usize_mod - 1"

definition saturating_add :: "nat \<Rightarrow> nat \<Rightarrow> nat" where
  "saturating_add a b = min (a + b) usize_max"

definition saturating_mul :: "nat \<Rightarrow> nat \<Rightarrow> nat" where
  "saturating_mul a b = min (a * b) usize_max"

definition checked_mul :: "nat \<Rightarrow> nat \<Rightarrow> nat option" where
  "checked_mul a b = (if a * b < usize_mod then Some (a * b) else None)"

definition usize_add :: "nat precision \<Rightarrow> nat precision \<Rightarrow> nat precision" where
  "usize_add = combine (\<lambda>a b. if a + b < usize_mod then Exact (a + b) else Inexact (saturating_add a b))
                       (\<lambda>a b. Inexact (saturating_add a b))"

definition usize_sub :: "nat precision \<Rightarrow> nat precision \<Rightarrow> nat precision" where
  "usize_sub = combine (\<lambda>a b. case checked_sub a b of None \<Rightarrow> Inexact (a - b) | Some c \<Rightarrow> Exact c)
                       (\<lambda>a b. Inexact (a - b))"

definition usize_multiply :: "nat precision \<Rightarrow> nat precision \<Rightarrow> nat precision" where
  "usize_multiply = combine (\<lambda>a b. case checked_mul a b of None \<Rightarrow> Inexact (saturating_mul a b) | Some c \<Rightarrow> Exact c)
                            (\<lambda>a b. Inexact (saturating_mul a b))"

fun fceil :: "f64 \<Rightarrow> f64" where
  "fceil (Fin s m) = Fin s (if s then of_int \<lfloor>m\<rfloor> else of_int \<lceil>m\<rceil>)"
| "fceil x = x"

definition with_estimated_selectivity :: "f64 \<Rightarrow> nat precision \<Rightarrow> nat precision" where
  "with_estimated_selectivity selectivity p =
     to_inexact (map_precision_value (\<lambda>v. usize_of_f64 (fceil (fmul (f64_of_usize v) selectivity))) p)"

subsection \<open>Scalar values\<close>

fun sum_data_type :: "arrow_type \<Rightarrow> arrow_type" where
  "sum_data_type TInt8 = TInt64"
| "sum_data_type TInt16 = TInt64"
| "sum_data_type TInt32 = TInt64"
| "sum_data_type TUInt8 = TUInt64"
| "sum_data_type TUInt16 = TUInt64"
| "sum_data_type TUInt32 = TUInt64"
| "sum_data_type t = t"

definition cast_scalar_to_sum_type :: "'v scalar_ops \<Rightarrow> 'v \<Rightarrow> 'v res" where
  "cast_scalar_to_sum_type ops v =
     (let source_type = sv_data_type ops v; target_type = sum_data_type source_type
      in if source_type = target_type then Inr v else sv_cast_to ops v target_type)"

fun or_absent :: "('a \<Rightarrow> 'a precision) \<Rightarrow> 'a res \<Rightarrow> 'a precision" where
  "or_absent f (Inr v) = f v"
| "or_absent f (Inl e) = Absent"

definition scalar_precision_add :: "'v scalar_ops \<Rightarrow> 'v precision \<Rightarrow> 'v precision \<Rightarrow> 'v precision" where
  "scalar_precision_add ops = combine (\<lambda>a b. or_absent Exact (sv_add_checked ops a b))
                                      (\<lambda>a b. or_absent Inexact (sv_add_checked ops a b))"

definition scalar_precision_sub :: "'v scalar_ops \<Rightarrow> 'v precision \<Rightarrow> 'v precision \<Rightarrow> 'v precision" where
  "scalar_precision_sub ops = combine (\<lambda>a b. or_absent Exact (sv_sub ops a b)) (\<lambda>a b. or_absent Inexact (sv_sub ops a b))"

definition scalar_precision_multiply :: "'v scalar_ops \<Rightarrow> 'v precision \<Rightarrow> 'v precision \<Rightarrow> 'v precision" where
  "scalar_precision_multiply ops = combine (\<lambda>a b. or_absent Exact (sv_mul_checked ops a b))
                                           (\<lambda>a b. or_absent Inexact (sv_mul_checked ops a b))"

fun cast_to_sum_type :: "'v scalar_ops \<Rightarrow> 'v precision \<Rightarrow> 'v precision" where
  "cast_to_sum_type ops (Exact v) = or_absent Exact (cast_scalar_to_sum_type ops v)"
| "cast_to_sum_type ops (Inexact v) = or_absent Inexact (cast_scalar_to_sum_type ops v)"
| "cast_to_sum_type ops Absent = Absent"

fun precision_cast_to :: "'v scalar_ops \<Rightarrow> arrow_type \<Rightarrow> 'v precision \<Rightarrow> 'v precision res" where
  "precision_cast_to ops t (Exact v) = bind_res (sv_cast_to ops v t) (\<lambda>w. Inr (Exact w))"
| "precision_cast_to ops t (Inexact v) = bind_res (sv_cast_to ops v t) (\<lambda>w. Inr (Inexact w))"
| "precision_cast_to ops t Absent = Inr Absent"

text \<open>\<open>utils/aggregate.rs\<close>: the addition in place that merging uses.\<close>

definition scalar_add :: "'v scalar_ops \<Rightarrow> 'v \<Rightarrow> 'v \<Rightarrow> 'v res" where
  "scalar_add ops lhs rhs =
     bind_res (sv_try_add_checked_in_place ops lhs rhs) (\<lambda>(done, lhs').
       if done then Inr lhs' else sv_add_checked ops lhs' rhs)"

definition precision_add :: "'v scalar_ops \<Rightarrow> 'v precision \<Rightarrow> 'v precision \<Rightarrow> 'v precision" where
  "precision_add ops lhs rhs =
     (case (get_value lhs, get_value rhs) of
        (Some a, Some b) \<Rightarrow>
          (case scalar_add ops a b of
             Inl e \<Rightarrow> Absent
           | Inr c \<Rightarrow> if is_exact lhs = Some True \<and> is_exact rhs = Some True then Exact c else Inexact c)
      | _ \<Rightarrow> Absent)"

definition add_for_sum :: "'v scalar_ops \<Rightarrow> 'v precision \<Rightarrow> 'v precision \<Rightarrow> 'v precision" where
  "add_for_sum ops lhs rhs = precision_add ops (cast_to_sum_type ops lhs) (cast_to_sum_type ops rhs)"

fun precision_of_usize :: "'v scalar_ops \<Rightarrow> nat precision \<Rightarrow> 'v precision" where
  "precision_of_usize ops (Exact n) = Exact (sv_of_u64 ops n)"
| "precision_of_usize ops (Inexact n) = Inexact (sv_of_u64 ops n)"
| "precision_of_usize ops Absent = Absent"

fun show_precision :: "('a \<Rightarrow> string) \<Rightarrow> 'a precision \<Rightarrow> string" where
  "show_precision sh (Exact v) = ''Exact('' @ sh v @ '')''"
| "show_precision sh (Inexact v) = ''Inexact('' @ sh v @ '')''"
| "show_precision sh Absent = ''Absent''"

section \<open>Statistics\<close>

record 'v column_statistics =
  cs_null_count :: "nat precision"
  cs_max_value :: "'v precision"
  cs_min_value :: "'v precision"
  cs_sum_value :: "'v precision"
  cs_distinct_count :: "nat precision"
  cs_byte_size :: "nat precision"

record 'v statistics =
  st_num_rows :: "nat precision"
  st_total_byte_size :: "nat precision"
  st_columns :: "'v column_statistics list"

definition is_singleton :: "'v scalar_ops \<Rightarrow> 'v column_statistics \<Rightarrow> bool" where
  "is_singleton ops cs =
     (case (cs_min_value cs, cs_max_value cs) of
        (Exact mn, Exact mx) \<Rightarrow> \<not> sv_is_null ops mn \<and> \<not> sv_is_null ops mx \<and> mn = mx
      | _ \<Rightarrow> False)"

definition column_unknown :: "'v column_statistics" where
  "column_unknown = \<lparr>cs_null_count = Absent, cs_max_value = Absent, cs_min_value = Absent,
                     cs_sum_value = Absent, cs_distinct_count = Absent, cs_byte_size = Absent\<rparr>"

definition with_sum_value :: "'v scalar_ops \<Rightarrow> 'v precision \<Rightarrow> 'v column_statistics \<Rightarrow> 'v column_statistics" where
  "with_sum_value ops p cs = cs\<lparr>cs_sum_value := cast_to_sum_type ops p\<rparr>"

definition column_to_inexact :: "'v column_statistics \<Rightarrow> 'v column_statistics" where
  "column_to_inexact cs =
     \<lparr>cs_null_count = to_inexact (cs_null_count cs), cs_max_value = to_inexact (cs_max_value cs),
      cs_min_value = to_inexact (cs_min_value cs), cs_sum_value = to_inexact (cs_sum_value cs),
      cs_distinct_count = to_inexact (cs_distinct_count cs), cs_byte_size = to_inexact (cs_byte_size cs)\<rparr>"

definition stats_default :: "'v statistics" where
  "stats_default = \<lparr>st_num_rows = Absent, st_total_byte_size = Absent, st_columns = []\<rparr>"

text \<open>A schema is its list of field types here.\<close>

definition stats_unknown :: "'d list \<Rightarrow> 'v statistics" where
  "stats_unknown schema = \<lparr>st_num_rows = Absent, st_total_byte_size = Absent,
                           st_columns = map (\<lambda>_. column_unknown) schema\<rparr>"

fun row_width :: "('d \<Rightarrow> nat option) \<Rightarrow> 'd list \<Rightarrow> nat \<Rightarrow> nat option" where
  "row_width width [] acc = Some acc"
| "row_width width (d # ds) acc = (case width d of None \<Rightarrow> None | Some w \<Rightarrow> row_width width ds (wadd acc w))"

definition calculate_total_byte_size :: "('d \<Rightarrow> nat option) \<Rightarrow> 'd list \<Rightarrow> 'v statistics \<Rightarrow> 'v statistics" where
  "calculate_total_byte_size width schema st =
     (case row_width width schema 0 of
        None \<Rightarrow> st\<lparr>st_total_byte_size := to_inexact (st_total_byte_size st)\<rparr>
      | Some w \<Rightarrow> st\<lparr>st_total_byte_size := usize_multiply (st_num_rows st) (Exact w)\<rparr>)"

definition add_column_statistics :: "'v column_statistics \<Rightarrow> 'v statistics \<Rightarrow> 'v statistics" where
  "add_column_statistics cs st = st\<lparr>st_columns := st_columns st @ [cs]\<rparr>"

definition stats_to_inexact :: "'v statistics \<Rightarrow> 'v statistics" where
  "stats_to_inexact st =
     st\<lparr>st_num_rows := to_inexact (st_num_rows st), st_total_byte_size := to_inexact (st_total_byte_size st),
        st_columns := map column_to_inexact (st_columns st)\<rparr>"

subsection \<open>Projection\<close>

text \<open>
  The columns are moved out of their slots; a column asked for again is copied from where
  it was put. An index out of range panics.
\<close>

datatype 'c slot = Taken nat | Present 'c

fun project_loop :: "'c slot list \<Rightarrow> 'c list \<Rightarrow> nat list \<Rightarrow> 'c list res" where
  "project_loop slots out [] = Inr out"
| "project_loop slots out (i # is) =
     (if i < length slots
      then let out' = out @ [case slots ! i of Present c \<Rightarrow> c | Taken j \<Rightarrow> out ! j]
           in project_loop (slots[i := Taken (length out)]) out' is
      else Inl (Panic ''projection out of bounds''))"

definition project_stats :: "nat list option \<Rightarrow> 'v statistics \<Rightarrow> 'v statistics res" where
  "project_stats projection st =
     (case projection of
        None \<Rightarrow> Inr st
      | Some is \<Rightarrow> bind_res (project_loop (map Present (st_columns st)) [] is) (\<lambda>cols. Inr (st\<lparr>st_columns := cols\<rparr>)))"

subsection \<open>Limits\<close>

definition check_num_rows :: "nat option \<Rightarrow> bool \<Rightarrow> nat precision" where
  "check_num_rows v exact = (case v of Some n \<Rightarrow> if exact then Exact n else Inexact n | None \<Rightarrow> Absent)"

definition limited_rows :: "nat \<Rightarrow> bool \<Rightarrow> nat \<Rightarrow> nat \<Rightarrow> nat \<Rightarrow> nat precision" where
  "limited_rows nr exact fetch_val skip n_partitions =
     (if nr \<le> skip then Exact 0
      else if nr - skip \<le> fetch_val then check_num_rows (checked_mul (nr - skip) n_partitions) exact
      else check_num_rows (checked_mul fetch_val n_partitions) exact)"

definition row_ratio :: "nat precision \<Rightarrow> nat precision \<Rightarrow> f64" where
  "row_ratio before after =
     (case (get_value before, get_value after) of
        (Some b, Some a) \<Rightarrow> if b = 0 then flit 0 else fdiv (f64_of_usize a) (f64_of_usize b)
      | _ \<Rightarrow> flit 0)"

fun scale_bytes :: "f64 \<Rightarrow> nat precision \<Rightarrow> nat precision" where
  "scale_bytes ratio (Exact n) = Inexact (usize_of_f64 (fmul (f64_of_usize n) ratio))"
| "scale_bytes ratio (Inexact n) = Inexact (usize_of_f64 (fmul (f64_of_usize n) ratio))"
| "scale_bytes ratio Absent = Absent"

fun sum_bytes :: "nat option list \<Rightarrow> nat \<Rightarrow> nat option" where
  "sum_bytes [] acc = Some acc"
| "sum_bytes (None # vs) acc = None"
| "sum_bytes (Some v # vs) acc = sum_bytes vs (wadd acc v)"

text \<open>What \<open>with_fetch\<close> does once the new row count is known.\<close>

definition rescale :: "nat precision \<Rightarrow> 'v statistics \<Rightarrow> 'v statistics" where
  "rescale rows st =
     (let ratio = row_ratio (st_num_rows st) rows;
          cols = map (\<lambda>cs. let ci = column_to_inexact cs in ci\<lparr>cs_byte_size := scale_bytes ratio (cs_byte_size ci)\<rparr>)
                     (st_columns st)
      in \<lparr>st_num_rows = rows,
          st_total_byte_size =
            (case sum_bytes (map (get_value \<circ> cs_byte_size) cols) 0 of
               Some bytes \<Rightarrow> Inexact bytes
             | None \<Rightarrow> scale_bytes ratio (st_total_byte_size st)),
          st_columns = cols\<rparr>)"

definition with_fetch :: "nat option \<Rightarrow> nat \<Rightarrow> nat \<Rightarrow> 'v statistics \<Rightarrow> 'v statistics" where
  "with_fetch fetch skip n_partitions st =
     (let fetch_val = (case fetch of None \<Rightarrow> usize_max | Some f \<Rightarrow> f)
      in case st_num_rows st of
           Absent \<Rightarrow>
             rescale (check_num_rows (case fetch of None \<Rightarrow> None | Some v \<Rightarrow> checked_mul v n_partitions) False) st
         | Exact nr \<Rightarrow>
             if skip < nr \<and> nr \<le> fetch_val \<and> skip = 0 then st
             else rescale (limited_rows nr True fetch_val skip n_partitions) st
         | Inexact nr \<Rightarrow>
             if skip < nr \<and> nr \<le> fetch_val \<and> skip = 0 then st
             else rescale (limited_rows nr False fetch_val skip n_partitions) st)"

subsection \<open>Merging\<close>

fun fround_half_away :: "f64 \<Rightarrow> f64" where
  "fround_half_away (Fin s m) = Fin s (of_int \<lfloor>m + 1 / 2\<rfloor>)"
| "fround_half_away x = x"

definition estimate_ndv_with_overlap ::
  "'v scalar_ops \<Rightarrow> 'v column_statistics \<Rightarrow> 'v column_statistics \<Rightarrow> nat \<Rightarrow> nat \<Rightarrow> nat option" where
  "estimate_ndv_with_overlap ops left right ndv_left ndv_right =
     do { left_min \<leftarrow> get_value (cs_min_value left);
          left_max \<leftarrow> get_value (cs_max_value left);
          right_min \<leftarrow> get_value (cs_min_value right);
          right_max \<leftarrow> get_value (cs_max_value right);
          range_left \<leftarrow> sv_distance ops left_max left_min;
          range_right \<leftarrow> sv_distance ops right_max right_min;
          if range_left = 0 \<or> range_right = 0
          then Some (if sv_le ops left_min right_max \<and> sv_le ops right_min left_max
                     then max ndv_left ndv_right else wadd ndv_left ndv_right)
          else let overlap_min = (if sv_ge ops left_min right_min then left_min else right_min);
                   overlap_max = (if sv_le ops left_max right_max then left_max else right_max)
               in if sv_gt ops overlap_min overlap_max then Some (wadd ndv_left ndv_right)
                  else do {
                    d \<leftarrow> sv_distance ops overlap_max overlap_min;
                    let overlap_left = fdiv (f64_of_usize d) (f64_of_usize range_left);
                        overlap_right = fdiv (f64_of_usize d) (f64_of_usize range_right);
                        intersection = fmax (fmul overlap_left (f64_of_usize ndv_left))
                                            (fmul overlap_right (f64_of_usize ndv_right));
                        only_left = fmul (fsub (flit 1) overlap_left) (f64_of_usize ndv_left);
                        only_right = fmul (fsub (flit 1) overlap_right) (f64_of_usize ndv_right)
                    in Some (usize_of_f64 (fround_half_away (fadd (fadd intersection only_left) only_right))) } }"

definition merge_start :: "'v scalar_ops \<Rightarrow> 'v column_statistics \<Rightarrow> 'v column_statistics" where
  "merge_start ops cs = cs\<lparr>cs_sum_value := cast_to_sum_type ops (cs_sum_value cs)\<rparr>"

definition merge_column :: "'v scalar_ops \<Rightarrow> 'v column_statistics \<Rightarrow> 'v column_statistics \<Rightarrow> 'v column_statistics" where
  "merge_column ops col item =
     \<lparr>cs_null_count = usize_add (cs_null_count col) (cs_null_count item),
      cs_max_value = precision_max (sv_ge ops) (cs_max_value col) (cs_max_value item),
      cs_min_value = precision_min (sv_ge ops) (cs_min_value col) (cs_min_value item),
      cs_sum_value = precision_add ops (cs_sum_value col) (cast_to_sum_type ops (cs_sum_value item)),
      cs_distinct_count =
        (case (get_value (cs_distinct_count col), get_value (cs_distinct_count item)) of
           (Some l, Some r) \<Rightarrow>
             Inexact (case estimate_ndv_with_overlap ops col item l r of None \<Rightarrow> max l r | Some n \<Rightarrow> n)
         | _ \<Rightarrow> Absent),
      cs_byte_size = usize_add (cs_byte_size col) (cs_byte_size item)\<rparr>"

definition different_columns :: "nat \<Rightarrow> nat \<Rightarrow> nat \<Rightarrow> df_error" where
  "different_columns num_cols other i =
     Plan (''Cannot merge statistics with different number of columns: '' @ show_nat num_cols @
           '' vs '' @ show_nat other @ '' (item '' @ show_nat i @ '')'')"

definition try_merge_iter :: "'v scalar_ops \<Rightarrow> 'd list \<Rightarrow> 'v statistics list \<Rightarrow> 'v statistics res" where
  "try_merge_iter ops schema items =
     (case items of
        [] \<Rightarrow> Inr (stats_unknown schema)
      | [st] \<Rightarrow> Inr st
      | first # rest \<Rightarrow>
          let num_cols = length (st_columns first)
          in case List.find (\<lambda>(i, st). length (st_columns st) \<noteq> num_cols) (enumerate 1 rest) of
               Some (i, st) \<Rightarrow> Inl (different_columns num_cols (length (st_columns st)) i)
             | None \<Rightarrow>
                 Inr \<lparr>st_num_rows = foldl usize_add (Exact 0) (map st_num_rows items),
                      st_total_byte_size = foldl usize_add (Exact 0) (map st_total_byte_size items),
                      st_columns = foldl (\<lambda>cols st. map2 (merge_column ops) cols (st_columns st))
                                     (map (merge_start ops) (st_columns first)) rest\<rparr>)"

subsection \<open>Display\<close>

definition show_part :: "string \<Rightarrow> ('a \<Rightarrow> string) \<Rightarrow> 'a precision \<Rightarrow> string" where
  "show_part label sh p = (if p = Absent then [] else '' '' @ label @ ''='' @ show_precision sh p)"

definition show_column :: "'v scalar_ops \<Rightarrow> nat \<Rightarrow> 'v column_statistics \<Rightarrow> string" where
  "show_column ops i cs =
     ''(Col['' @ show_nat i @ '']:'' @ show_part ''Min'' (sv_debug ops) (cs_min_value cs) @
     show_part ''Max'' (sv_debug ops) (cs_max_value cs) @ show_part ''Sum'' (sv_debug ops) (cs_sum_value cs) @
     show_part ''Null'' show_nat (cs_null_count cs) @ show_part ''Distinct'' show_nat (cs_distinct_count cs) @
     show_part ''ScanBytes'' show_nat (cs_byte_size cs) @ '')''"

fun join_commas :: "string list \<Rightarrow> string" where
  "join_commas [] = []"
| "join_commas [s] = s"
| "join_commas (s # t # ss) = s @ '','' @ join_commas (t # ss)"

definition show_statistics :: "'v scalar_ops \<Rightarrow> 'v statistics \<Rightarrow> string" where
  "show_statistics ops st =
     ''Rows='' @ show_precision show_nat (st_num_rows st) @ '', Bytes='' @
     show_precision show_nat (st_total_byte_size st) @ '', ['' @
     join_commas (map (\<lambda>(i, cs). show_column ops i cs) (enumerate 0 (st_columns st))) @ '']''"

end
