(* ===== verification/StatsProps.thy ===== *)
theory StatsProps
  imports Stats
begin

text \<open>
  Statistics tell the truth: an exact value is the true one, an inexact or absent value
  promises nothing. The arithmetic of precisions keeps this, by a locale interpreted for
  each operation, and so do merging and limits, the latter under the assumption its
  comment states.
\<close>

section \<open>What a precision says\<close>

fun describes :: "'a precision \<Rightarrow> 'a \<Rightarrow> bool" where
  "describes (Exact v) x = (v = x)"
| "describes (Inexact v) x = True"
| "describes Absent x = True"

locale precision_op =
  fixes opp :: "'a precision \<Rightarrow> 'a precision \<Rightarrow> 'a precision" and f :: "'a \<Rightarrow> 'a \<Rightarrow> 'a"
  assumes sound: "describes p x \<Longrightarrow> describes q y \<Longrightarrow> describes (opp p q) (f x y)"
    and absorbs: "opp Absent q = Absent" "opp p Absent = Absent"
begin

lemma fold_sound:
  "list_all2 describes ps xs \<Longrightarrow> describes p x \<Longrightarrow> describes (foldl opp p ps) (foldl f x xs)"
  by (induction ps xs arbitrary: p x rule: list_all2_induct) (auto intro: sound)

lemma fold_absent: "Absent \<in> set ps \<Longrightarrow> foldl opp p ps = Absent"
proof (induction ps arbitrary: p)
  case (Cons q ps)
  have "foldl opp Absent ps = Absent" by (induction ps) (simp_all add: absorbs)
  with Cons show ?case by (auto simp: absorbs)
qed simp

end

lemma combine_absent [simp]: "combine f g p Absent = Absent"
  by (cases p) simp_all

lemma describes_cases:
  "describes p x \<longleftrightarrow> p = Exact x \<or> (\<exists>v. p = Inexact v) \<or> p = Absent"
  by (cases p) auto

lemma ge_max:
  "(if b \<le> a then a else b) = max a b" "(if b \<le> a then b else a) = min a (b :: 'a :: linorder)"
  by (auto simp: max_def min_def)

interpretation p_add: precision_op usize_add "(+)"
  by unfold_locales (auto simp: usize_add_def describes_cases)

interpretation p_sub: precision_op usize_sub "(-)"
  by unfold_locales (auto simp: usize_sub_def checked_sub_def describes_cases)

interpretation p_mul: precision_op usize_multiply "(*)"
  by unfold_locales (auto simp: usize_multiply_def checked_mul_def describes_cases)

interpretation p_max: precision_op "precision_max (\<lambda>a b. b \<le> a)" "max :: 'a :: linorder \<Rightarrow> 'a \<Rightarrow> 'a"
  by unfold_locales (auto simp: precision_max_def ge_max describes_cases)

interpretation p_min: precision_op "precision_min (\<lambda>a b. b \<le> a)" "min :: 'a :: linorder \<Rightarrow> 'a \<Rightarrow> 'a"
  by unfold_locales (auto simp: precision_min_def ge_max describes_cases)

section \<open>Projection\<close>

text \<open>The slots while the loop runs: a taken slot names where its column now is.\<close>

definition slots_ok :: "'c list \<Rightarrow> 'c slot list \<Rightarrow> 'c list \<Rightarrow> bool" where
  "slots_ok cols slots out \<longleftrightarrow> length slots = length cols \<and>
     (\<forall>i < length cols. case slots ! i of Present c \<Rightarrow> c = cols ! i | Taken j \<Rightarrow> j < length out \<and> out ! j = cols ! i)"

lemma slots_ok_step:
  assumes "slots_ok cols slots out"
  shows "slots_ok cols (slots[i := Taken (length out)]) (out @ [cols ! i])"
  unfolding slots_ok_def
proof (intro conjI allI impI)
  fix k assume k: "k < length cols"
  have "case slots ! k of Present c \<Rightarrow> c = cols ! k | Taken j \<Rightarrow> j < length out \<and> out ! j = cols ! k"
    and "length slots = length cols"
    using assms k by (simp_all add: slots_ok_def)
  then show "case slots[i := Taken (length out)] ! k of Present c \<Rightarrow> c = cols ! k
             | Taken j \<Rightarrow> j < length (out @ [cols ! i]) \<and> (out @ [cols ! i]) ! j = cols ! k"
    using k by (cases "i = k") (auto simp: nth_append split: slot.splits)
qed (use assms in \<open>simp add: slots_ok_def\<close>)

lemma project_loop_ok:
  "slots_ok cols slots out \<Longrightarrow>
     project_loop slots out ixs =
       (if \<forall>i \<in> set ixs. i < length cols then Inr (out @ map ((!) cols) ixs)
        else Inl (Panic ''projection out of bounds''))"
proof (induction ixs arbitrary: slots out)
  case (Cons i ixs)
  show ?case
  proof (cases "i < length cols")
    case True
    let ?c = "case slots ! i of Present c \<Rightarrow> c | Taken j \<Rightarrow> out ! j"
    have c: "?c = cols ! i" using Cons.prems True by (auto simp: slots_ok_def split: slot.splits)
    have "slots_ok cols (slots[i := Taken (length out)]) (out @ [?c])"
      using Cons.prems unfolding c by (rule slots_ok_step)
    from Cons.IH [OF this] Cons.prems True c show ?thesis by (simp add: slots_ok_def Let_def)
  next
    case False
    with Cons.prems show ?thesis by (auto simp: slots_ok_def)
  qed
qed simp

section \<open>Merging\<close>

record 'v col_truth =
  ct_nulls :: nat
  ct_max :: 'v
  ct_min :: 'v
  ct_bytes :: nat

record 'v truth =
  tt_rows :: nat
  tt_bytes :: nat
  tt_cols :: "'v col_truth list"

definition describes_col :: "'v column_statistics \<Rightarrow> 'v col_truth \<Rightarrow> bool" where
  "describes_col cs ct \<longleftrightarrow> describes (cs_null_count cs) (ct_nulls ct) \<and> describes (cs_max_value cs) (ct_max ct)
     \<and> describes (cs_min_value cs) (ct_min ct) \<and> describes (cs_byte_size cs) (ct_bytes ct)"

definition describes_stats :: "'v statistics \<Rightarrow> 'v truth \<Rightarrow> bool" where
  "describes_stats st tt \<longleftrightarrow> describes (st_num_rows st) (tt_rows tt) \<and> describes (st_total_byte_size st) (tt_bytes tt)
     \<and> list_all2 describes_col (st_columns st) (tt_cols tt)"

definition union_col :: "('v :: linorder) col_truth \<Rightarrow> 'v col_truth \<Rightarrow> 'v col_truth" where
  "union_col a b = \<lparr>ct_nulls = ct_nulls a + ct_nulls b, ct_max = max (ct_max a) (ct_max b),
                    ct_min = min (ct_min a) (ct_min b), ct_bytes = ct_bytes a + ct_bytes b\<rparr>"

text \<open>The truth about the union of tables of one width.\<close>

definition union_truth :: "('v :: linorder) truth list \<Rightarrow> 'v truth" where
  "union_truth ts =
     \<lparr>tt_rows = foldl (+) 0 (map tt_rows ts), tt_bytes = foldl (+) 0 (map tt_bytes ts),
      tt_cols = foldl (\<lambda>cols t. map2 union_col cols (tt_cols t)) (tt_cols (hd ts)) (tl ts)\<rparr>"

lemma merge_column_describes:
  assumes "sv_ge ops = (\<lambda>a b. b \<le> a)" and "describes_col a x" and "describes_col b y"
  shows "describes_col (merge_column ops a b) (union_col x y)"
  using assms p_add.sound p_max.sound p_min.sound
  by (auto simp: describes_col_def merge_column_def union_col_def)

lemma map2_describes:
  assumes "sv_ge ops = (\<lambda>a b. b \<le> a)"
  shows "list_all2 describes_col as xs \<Longrightarrow> list_all2 describes_col bs ys \<Longrightarrow>
           list_all2 describes_col (map2 (merge_column ops) as bs) (map2 union_col xs ys)"
proof (induction as xs arbitrary: bs ys rule: list_all2_induct)
  case (Cons a as x xs)
  then show ?case using merge_column_describes [OF assms]
    by (cases bs; cases ys) auto
qed simp

lemma fold_columns_describe:
  assumes "sv_ge ops = (\<lambda>a b. b \<le> a)"
  shows "list_all2 describes_stats sts ts \<Longrightarrow> list_all2 describes_col as xs \<Longrightarrow>
           list_all2 describes_col (foldl (\<lambda>cols st. map2 (merge_column ops) cols (st_columns st)) as sts)
             (foldl (\<lambda>cols t. map2 union_col cols (tt_cols t)) xs ts)"
  by (induction sts ts arbitrary: as xs rule: list_all2_induct)
     (auto simp: describes_stats_def intro: map2_describes [OF assms])

lemma merge_start_describes: "list_all2 describes_col as xs \<Longrightarrow> list_all2 describes_col (map (merge_start ops) as) xs"
  by (auto simp: list_all2_conv_all_nth describes_col_def merge_start_def)

lemma widths_pass:
  assumes "\<forall>s \<in> set rest. length (st_columns s) = w"
  shows "List.find (\<lambda>(i, st). length (st_columns st) \<noteq> w) (enumerate k rest) = None"
  using assms by (auto simp: find_None_iff in_set_enumerate_eq)

lemma widths_fail:
  assumes "k < length rest" "length (st_columns (rest ! k)) \<noteq> w" "\<forall>j < k. length (st_columns (rest ! j)) = w"
  shows "List.find (\<lambda>(i, st). length (st_columns st) \<noteq> w) (enumerate n rest) = Some (n + k, rest ! k)"
  using assms by (auto simp: find_Some_iff nth_enumerate_eq intro!: exI [of _ k])

section \<open>Limits\<close>

text \<open>The rows that a limit leaves of a table.\<close>

definition rows_after :: "nat option \<Rightarrow> nat \<Rightarrow> nat \<Rightarrow> nat" where
  "rows_after fetch skip n = (case fetch of None \<Rightarrow> n - skip | Some f \<Rightarrow> min f (n - skip))"

lemma rescale_rows [simp]: "st_num_rows (rescale rows st) = rows"
  by (simp add: rescale_def Let_def)

lemma checked_mul_1 [simp]: "n < usize_mod \<Longrightarrow> checked_mul n (Suc 0) = Some n"
  by (simp add: checked_mul_def)

lemma limited_rows_exact:
  assumes "nr < usize_mod" and "fetch_val < usize_mod"
  shows "limited_rows nr True fetch_val skip 1 = Exact (min fetch_val (nr - skip))"
  using assms by (auto simp: limited_rows_def check_num_rows_def min_def)

lemma limited_rows_inexact:
  "describes (limited_rows nr False fetch_val skip k) x \<longleftrightarrow> skip < nr \<or> x = 0"
  by (auto simp: limited_rows_def check_num_rows_def split: option.splits)

section \<open>Properties\<close>

definition total_order :: "('v :: linorder) scalar_ops \<Rightarrow> bool" where
  "total_order ops \<longleftrightarrow>
     (\<forall>a b. sv_partial_cmp ops a b = Some (if a < b then Less else if a = b then Equal else Greater))"

lemma total_order_ge: "total_order ops \<Longrightarrow> sv_ge ops = (\<lambda>a b. b \<le> a)"
  by (intro ext) (auto simp: total_order_def sv_ge_def)

text \<open>Integers as scalars, for concrete instances.\<close>

definition int_ops :: "int scalar_ops" where
  "int_ops = \<lparr>sv_data_type = (\<lambda>_. TInt64), sv_cast_to = (\<lambda>v _. Inr v), sv_add_checked = (\<lambda>a b. Inr (a + b)),
     sv_try_add_checked_in_place = (\<lambda>a b. Inr (True, a + b)), sv_sub = (\<lambda>a b. Inr (a - b)),
     sv_mul_checked = (\<lambda>a b. Inr (a * b)),
     sv_partial_cmp = (\<lambda>a b. Some (if a < b then Less else if a = b then Equal else Greater)),
     sv_distance = (\<lambda>a b. Some (nat \<bar>a - b\<bar>)), sv_is_null = (\<lambda>_. False), sv_of_u64 = int, sv_debug = (\<lambda>_. [])\<rparr>"

definition demo_stats :: "nat \<Rightarrow> int \<Rightarrow> int \<Rightarrow> int statistics" where
  "demo_stats n lo hi = \<lparr>st_num_rows = Exact n, st_total_byte_size = Inexact 64,
     st_columns = [column_unknown\<lparr>cs_null_count := Exact 1, cs_min_value := Exact lo, cs_max_value := Exact hi\<rparr>]\<rparr>"

definition demo_truth :: "nat \<Rightarrow> int \<Rightarrow> int \<Rightarrow> int truth" where
  "demo_truth n lo hi = \<lparr>tt_rows = n, tt_bytes = 80,
     tt_cols = [\<lparr>ct_nulls = 1, ct_max = hi, ct_min = lo, ct_bytes = 80\<rparr>]\<rparr>"

lemma int_ops_total: "total_order int_ops"
  by (simp add: total_order_def int_ops_def)

lemma demo_width: "length (tt_cols (demo_truth n lo hi)) = 1"
  by (simp add: demo_truth_def)

lemma demo_describes: "describes_stats (demo_stats n lo hi) (demo_truth n lo hi)"
  by (simp add: describes_stats_def describes_col_def demo_stats_def demo_truth_def column_unknown_def)



text \<open>C34. Arithmetic on precisions never claims too much: if both operands describe their
  true values, the results of addition, subtraction, multiplication, maximum and minimum
  describe the true results; an overflow is never reported as exact.\<close>

theorem precision_ops_sound:
  assumes "describes p x" and "describes q y"
  shows "describes (usize_add p q) (x + y) \<and> describes (usize_sub p q) (x - y)
    \<and> describes (usize_multiply p q) (x * y)
    \<and> describes (precision_max (\<lambda>a b. b \<le> a) p q) (max x y)
    \<and> describes (precision_min (\<lambda>a b. b \<le> a) p q) (min x y)"
  using assms by (intro conjI p_add.sound p_sub.sound p_mul.sound p_max.sound p_min.sound)

theorem precision_ops_sound_witness:
  "describes (usize_add (Exact 3) (Inexact 4)) (3 + 5) \<and> describes (usize_sub (Exact 7) (Exact 4)) (7 - 4)
   \<and> describes (usize_multiply (Exact 7) (Exact 4)) (7 * 4)"
  using precision_ops_sound [of "Exact 3" 3 "Inexact 4" 5] precision_ops_sound [of "Exact 7" 7 "Exact 4" 4]
  by simp

text \<open>The addition in place is the addition it replaces: when the scalar's addition in
  place agrees with its checked addition, or declines and leaves the scalar as it was,
  \<open>precision_add\<close> is \<open>Precision::add\<close>.\<close>

theorem precision_add_eq:
  assumes "\<And>a b. case sv_try_add_checked_in_place ops a b of
             Inl e \<Rightarrow> sv_add_checked ops a b = Inl e
           | Inr (True, c) \<Rightarrow> sv_add_checked ops a b = Inr c
           | Inr (False, a') \<Rightarrow> a' = a"
  shows "precision_add ops p q = scalar_precision_add ops p q"
proof -
  have "scalar_add ops a b = sv_add_checked ops a b" for a b
    using assms [of a b] by (auto simp: scalar_add_def split: sum.splits prod.splits bool.splits if_splits)
  then show ?thesis
    by (cases p; cases q) (auto simp: precision_add_def scalar_precision_add_def split: sum.splits)
qed

theorem precision_add_eq_witness:
  "precision_add int_ops (Exact 2) (Inexact 3) = scalar_precision_add int_ops (Exact 2) (Inexact 3)"
  by (rule precision_add_eq) (simp add: int_ops_def)

text \<open>Projecting by moving columns out of their slots is selecting by index: the loop,
  which copies a column asked for twice from where it went first, gives the columns at the
  indices in order, and panics exactly when an index is out of range.\<close>

theorem project_stats_eq:
  "project_stats (Some ixs) st =
     (if \<exists>i. i \<in> set ixs \<and> length (st_columns st) \<le> i then Inl (Panic ''projection out of bounds'')
      else Inr (st\<lparr>st_columns := map (\<lambda>i. st_columns st ! i) ixs\<rparr>))"
proof -
  have "slots_ok (st_columns st) (map Present (st_columns st)) []"
    by (simp add: slots_ok_def)
  from project_loop_ok [OF this] show ?thesis
    by (auto simp: project_stats_def not_le)
qed

text \<open>C32. A limit on one partition is described correctly, when an inexact row count is an
  upper bound as the code assumes: the new row count describes the rows left after
  skipping and fetching, and an exact count stays exact.\<close>

theorem with_fetch_sound:
  assumes "describes (st_num_rows st) n" and "\<And>m. st_num_rows st = Inexact m \<Longrightarrow> n \<le> m"
    and "n < usize_mod" and "\<And>f. fetch = Some f \<Longrightarrow> f < usize_mod"
  shows "describes (st_num_rows (with_fetch fetch skip 1 st)) (rows_after fetch skip n) \<and>
    (is_exact (st_num_rows st) = Some True \<longrightarrow>
       st_num_rows (with_fetch fetch skip 1 st) = Exact (rows_after fetch skip n))"
proof (rule conjI)
  define fv where "fv = (case fetch of None \<Rightarrow> usize_max | Some f \<Rightarrow> f)"
  have fv: "fv < usize_mod" "rows_after fetch skip n = min fv (n - skip)"
    using assms(3,4) by (auto simp: fv_def rows_after_def usize_max_def usize_mod_def split: option.splits)
  have exact: "st_num_rows (with_fetch fetch skip 1 st) = Exact (rows_after fetch skip n)"
    if "st_num_rows st = Exact n"
    using that limited_rows_exact [OF assms(3) fv(1), of skip] fv(2)
    by (auto simp: with_fetch_def Let_def fv_def [symmetric])
  then show "is_exact (st_num_rows st) = Some True \<longrightarrow>
           st_num_rows (with_fetch fetch skip 1 st) = Exact (rows_after fetch skip n)"
    using assms(1) by (cases "st_num_rows st") auto
  show "describes (st_num_rows (with_fetch fetch skip 1 st)) (rows_after fetch skip n)"
  proof (cases "st_num_rows st")
    case (Inexact m)
    with assms(2) [OF this] show ?thesis
      by (auto simp: with_fetch_def Let_def limited_rows_inexact fv(2) fv_def [symmetric])
  next
    case Absent
    then show ?thesis by (auto simp: with_fetch_def Let_def check_num_rows_def split: option.splits)
  qed (use assms(1) exact in auto)
qed

theorem with_fetch_sound_witness:
  "st_num_rows (with_fetch (Some 4) 3 1 (demo_stats 9 0 1)) = Exact 4 \<and>
   describes (st_num_rows (with_fetch (Some 4) 3 1 (demo_stats 5 0 1))) 2"
  using with_fetch_sound [of "demo_stats 9 0 1" 9 "Some 4" 3] with_fetch_sound [of "demo_stats 5 0 1" 5 "Some 4" 3]
  by (simp add: demo_stats_def rows_after_def usize_mod_def)


text \<open>Merging tables of different widths fails, with an error that names the first
  statistics whose number of columns differs from that of the first and both numbers.\<close>

theorem try_merge_error:
  assumes "k < length rest" and "length (st_columns (rest ! k)) \<noteq> length (st_columns first)"
    and "\<And>j. j < k \<Longrightarrow> length (st_columns (rest ! j)) = length (st_columns first)"
  shows "try_merge_iter ops schema (first # rest) =
           Inl (different_columns (length (st_columns first)) (length (st_columns (rest ! k))) (Suc k))"
  using widths_fail [OF assms(1,2), of 1] assms(1,3)
  by (cases rest) (simp_all add: try_merge_iter_def del: enumerate_simps)

theorem try_merge_error_witness:
  "try_merge_iter int_ops [()] [demo_stats 3 1 9, demo_stats 4 2 12, stats_default] =
     Inl (different_columns 1 0 2)"
  using try_merge_error [of 1 "[demo_stats 4 2 12, stats_default]" "demo_stats 3 1 9" int_ops "[()]"]
  by (simp add: demo_stats_def stats_default_def numeral_2_eq_2)

end
