(* ===== verification/JoinHashMap.thy ===== *)
theory JoinHashMap
  imports Plan "HOL-Library.AList"
begin

text \<open>
  The hash table of a hash join, \<open>physical-plan/src/joins/join_hash_map.rs\<close> and
  \<open>physical-plan/src/joins/chain.rs\<close>. The table maps a hash to the last row inserted under
  it, plus one; the vector \<open>next\<close> chains a row to the row inserted before it, zero ending
  the chain. Rows are stored in 32 or 64 bits: the bound of the width is a field. The two
  vectors a lookup fills are one list of pairs, probe row first. A walk along a chain may
  run for ever on a cyclic vector, which is \<^const>\<open>None\<close>; the maps the insertions build have
  no cycle, so lookups return.
\<close>

section \<open>Definitions\<close>

record join_hash_map =
  jm_bound :: nat
  jm_map :: "(nat \<times> nat) list"
  jm_next :: "nat list"

type_synonym map_offset = "nat \<times> nat option"

type_synonym index_pairs = "(nat \<times> nat) list"

definition as_u32 :: "nat \<Rightarrow> nat" where
  "as_u32 n = n mod 2 ^ 32"

definition with_capacity :: "nat \<Rightarrow> nat \<Rightarrow> join_hash_map" where
  "with_capacity bound cap = \<lparr>jm_bound = bound, jm_map = [], jm_next = replicate cap 0\<rparr>"

fun update_from_iter :: "nat \<Rightarrow> (nat \<times> nat) list \<Rightarrow> join_hash_map \<Rightarrow> join_hash_map res" where
  "update_from_iter deleted_offset [] m = Inr m"
| "update_from_iter deleted_offset ((row, hash_value) # iter) m =
     (if jm_bound m \<le> row + 1 then Inl (Panic ''called `Result::unwrap()` on an `Err` value'')
      else case map_of (jm_map m) hash_value of
             Some prev_index \<Rightarrow>
               if wsub row deleted_offset < length (jm_next m)
               then update_from_iter deleted_offset iter
                      (m\<lparr>jm_map := AList.update hash_value (row + 1) (jm_map m),
                         jm_next := (jm_next m)[wsub row deleted_offset := prev_index]\<rparr>)
               else Inl IndexOutOfBounds
           | None \<Rightarrow>
               update_from_iter deleted_offset iter
                 (m\<lparr>jm_map := AList.update hash_value (row + 1) (jm_map m)\<rparr>))"

text \<open>A stored index minus one, at the width of the table.\<close>

definition minus_one :: "nat \<Rightarrow> nat \<Rightarrow> nat" where
  "minus_one bound i = (if i = 0 then bound - 1 else i - 1)"

partial_function (option) match_loop ::
  "join_hash_map \<Rightarrow> nat option \<Rightarrow> nat \<Rightarrow> nat \<Rightarrow> index_pairs \<Rightarrow> index_pairs res option" where
  "match_loop m deleted_offset row_idx i out =
     (case (case deleted_offset of
              None \<Rightarrow> Inr (Some i)
            | Some d \<Rightarrow> if jm_bound m \<le> d then Inl (Panic ''called `Result::unwrap()` on an `Err` value'')
                        else if i < d then Inr None else Inr (Some (i - d))) of
        Inl e \<Rightarrow> Some (Inl e)
      | Inr None \<Rightarrow> Some (Inr out)
      | Inr (Some match_row_idx) \<Rightarrow>
          if match_row_idx < length (jm_next m)
          then let next_chain = jm_next m ! match_row_idx; out' = out @ [(as_u32 row_idx, match_row_idx)]
               in if next_chain = 0 then Some (Inr out')
                  else match_loop m deleted_offset row_idx (minus_one (jm_bound m) next_chain) out'
          else Some (Inl IndexOutOfBounds))"

fun get_matched_indices ::
  "join_hash_map \<Rightarrow> nat option \<Rightarrow> (nat \<times> nat) list \<Rightarrow> index_pairs \<Rightarrow> index_pairs res option" where
  "get_matched_indices m deleted_offset [] out = Some (Inr out)"
| "get_matched_indices m deleted_offset ((row_idx, hash_value) # iter) out =
     (case map_of (jm_map m) hash_value of
        None \<Rightarrow> get_matched_indices m deleted_offset iter out
      | Some index \<Rightarrow>
          (case match_loop m deleted_offset row_idx (minus_one (jm_bound m) index) out of
             None \<Rightarrow> None
           | Some (Inl e) \<Rightarrow> Some (Inl e)
           | Some (Inr out') \<Rightarrow> get_matched_indices m deleted_offset iter out'))"

text \<open>The walk of \<open>chain.rs\<close>, stopping when the limit is used up.\<close>

partial_function (option) traverse_loop ::
  "nat list \<Rightarrow> nat \<Rightarrow> nat \<Rightarrow> bool \<Rightarrow> nat \<Rightarrow> nat \<Rightarrow> index_pairs
    \<Rightarrow> (index_pairs \<times> nat \<times> map_offset option) res option" where
  "traverse_loop next_chain bound prob_idx is_last match_row_idx remaining out =
     (if match_row_idx < length next_chain
      then let out' = out @ [(as_u32 prob_idx, match_row_idx)];
               remaining' = wsub remaining 1;
               n = next_chain ! match_row_idx
           in if remaining' = 0
              then Some (Inr (out', remaining', if is_last \<and> n = 0 then None else Some (prob_idx, Some n)))
              else if n = 0 then Some (Inr (out', remaining', None))
              else traverse_loop next_chain bound prob_idx is_last (minus_one bound n) remaining' out'
      else Some (Inl IndexOutOfBounds))"

definition traverse_chain ::
  "nat list \<Rightarrow> nat \<Rightarrow> nat \<Rightarrow> nat \<Rightarrow> nat \<Rightarrow> index_pairs \<Rightarrow> bool
    \<Rightarrow> (index_pairs \<times> nat \<times> map_offset option) res option" where
  "traverse_chain next_chain bound prob_idx start_chain_idx remaining out is_last =
     traverse_loop next_chain bound prob_idx is_last (minus_one bound start_chain_idx) remaining out"

fun unique_loop :: "join_hash_map \<Rightarrow> nat \<Rightarrow> nat list \<Rightarrow> index_pairs" where
  "unique_loop m row [] = []"
| "unique_loop m row (hash # hashes) =
     (case map_of (jm_map m) hash of
        Some idx \<Rightarrow> (as_u32 row, minus_one (jm_bound m) idx) # unique_loop m (row + 1) hashes
      | None \<Rightarrow> unique_loop m (row + 1) hashes)"

text \<open>
  The loop over the probe rows: for each one the head of its chain, if any.
\<close>

fun chain_rows ::
  "nat list \<Rightarrow> nat \<Rightarrow> nat \<Rightarrow> nat \<Rightarrow> nat option list \<Rightarrow> nat \<Rightarrow> index_pairs
    \<Rightarrow> (index_pairs \<times> map_offset option) res option" where
  "chain_rows next_chain bound len row [] remaining out = Some (Inr (out, None))"
| "chain_rows next_chain bound len row (None # heads) remaining out =
     chain_rows next_chain bound len (row + 1) heads remaining out"
| "chain_rows next_chain bound len row (Some idx # heads) remaining out =
     (case traverse_chain next_chain bound row idx remaining out (row = len - 1) of
        None \<Rightarrow> None
      | Some (Inl e) \<Rightarrow> Some (Inl e)
      | Some (Inr (out', remaining', Some next_offset)) \<Rightarrow> Some (Inr (out', Some next_offset))
      | Some (Inr (out', remaining', None)) \<Rightarrow> chain_rows next_chain bound len (row + 1) heads remaining' out')"

text \<open>
  Resuming at an offset: what is left of the chain of its row, then the rows after it, which
  the third argument looks up. The index is cast to the width of the table.
\<close>

definition resume ::
  "nat list \<Rightarrow> nat \<Rightarrow> nat \<Rightarrow> (nat \<Rightarrow> nat \<Rightarrow> index_pairs \<Rightarrow> (index_pairs \<times> map_offset option) res option)
    \<Rightarrow> nat \<Rightarrow> map_offset \<Rightarrow> (index_pairs \<times> map_offset option) res option" where
  "resume next_chain bound len rows_from limit off =
     (case off of
        (idx, None) \<Rightarrow> rows_from idx limit []
      | (idx, Some 0) \<Rightarrow> rows_from (idx + 1) limit []
      | (idx, Some (Suc n)) \<Rightarrow>
          (case traverse_chain next_chain bound idx (Suc n mod bound) limit [] (idx = len - 1) of
             None \<Rightarrow> None
           | Some (Inl e) \<Rightarrow> Some (Inl e)
           | Some (Inr (out, remaining, Some next_offset)) \<Rightarrow> Some (Inr (out, Some next_offset))
           | Some (Inr (out, remaining, None)) \<Rightarrow> rows_from (idx + 1) remaining out))"

definition rows_after_skip ::
  "join_hash_map \<Rightarrow> nat list \<Rightarrow> nat \<Rightarrow> nat \<Rightarrow> index_pairs \<Rightarrow> (index_pairs \<times> map_offset option) res option" where
  "rows_after_skip m hash_values to_skip remaining out =
     (if to_skip \<le> length hash_values
      then chain_rows (jm_next m) (jm_bound m) (length hash_values) to_skip
             (map (map_of (jm_map m)) (drop to_skip hash_values)) remaining out
      else Some (Inl IndexOutOfBounds))"

definition get_matched_indices_with_limit_offset ::
  "join_hash_map \<Rightarrow> nat list \<Rightarrow> nat \<Rightarrow> map_offset \<Rightarrow> (index_pairs \<times> map_offset option) res option" where
  "get_matched_indices_with_limit_offset m hash_values limit off =
     (if length (jm_map m) = length (jm_next m)
      then let start = fst off; stop = min (wadd start limit) (length hash_values)
           in if start \<le> stop
              then Some (Inr (unique_loop m start (take (stop - start) (drop start hash_values)),
                              if stop = length hash_values then None else Some (stop, None)))
              else Some (Inl IndexOutOfBounds)
      else resume (jm_next m) (jm_bound m) (length hash_values) (rows_after_skip m hash_values) limit off)"

definition contain_hashes :: "join_hash_map \<Rightarrow> nat list \<Rightarrow> bool list" where
  "contain_hashes m hash_values = map (\<lambda>h. map_of (jm_map m) h \<noteq> None) hash_values"

definition jm_is_empty :: "join_hash_map \<Rightarrow> bool" where
  "jm_is_empty m \<longleftrightarrow> jm_map m = []"

definition jm_len :: "join_hash_map \<Rightarrow> nat" where
  "jm_len m = length (jm_map m)"

section \<open>Chains\<close>

text \<open>The rows of the chain that starts at a stored index.\<close>

inductive chain :: "nat list \<Rightarrow> nat \<Rightarrow> nat list \<Rightarrow> bool" for next_chain where
  chain_end: "chain next_chain 0 []"
| chain_more: "j < length next_chain \<Longrightarrow> chain next_chain (next_chain ! j) js \<Longrightarrow> chain next_chain (Suc j) (j # js)"

inductive_cases chain_SucE: "chain next_chain (Suc j) js"
inductive_cases chain_ConsE: "chain next_chain i (j # js)"
inductive_simps chain_0 [simp]: "chain next_chain 0 js"
inductive_simps chain_Nil [simp]: "chain next_chain i []"

lemma chain_fun: "chain next_chain i js \<Longrightarrow> chain next_chain i ks \<Longrightarrow> js = ks"
proof (induction arbitrary: ks rule: chain.induct)
  case (chain_more j js)
  from chain_more.prems show ?case by (rule chain_SucE) (use chain_more.IH in simp)
qed simp

text \<open>A chain does not see a change of the vector outside its rows.\<close>

lemma chain_update: "chain next_chain i js \<Longrightarrow> r \<notin> set js \<Longrightarrow> chain (next_chain[r := v]) i js"
  by (induction rule: chain.induct) (auto intro: chain.intros)

lemma chain_bound: "chain next_chain i js \<Longrightarrow> \<forall>j \<in> set js. j < length next_chain"
  by (induction rule: chain.induct) auto

lemma minus_one_Suc [simp]: "minus_one bound (Suc j) = j"
  by (simp add: minus_one_def)

text \<open>
  What a walk along a chain yields: the rows up to the limit, and where to go on. It
  returns for every chain.
\<close>

lemma traverse_loop_chain:
  assumes "chain next_chain (Suc j) (j # js)" and "0 < k" and "k < usize_mod"
  shows "\<exists>n. chain next_chain n (drop k (j # js)) \<and>
     traverse_loop next_chain bound p is_last j k out =
       Some (Inr (out @ map (Pair (as_u32 p)) (take k (j # js)), k - length (j # js),
         if k \<le> length (j # js) \<and> \<not> (is_last \<and> n = 0) then Some (p, Some n) else None))"
  using assms
proof (induction js arbitrary: j k out)
  case Nil
  then have j: "j < length next_chain" "next_chain ! j = 0" by (auto elim: chain_SucE)
  have k: "wsub k 1 = k - 1" using Nil.prems by (simp add: wsub_small)
  show ?case using j k Nil.prems
    by (intro exI [of _ 0]) (subst traverse_loop.simps, auto simp: Let_def)
next
  case (Cons j2 js)
  then have j: "j < length next_chain" and c: "chain next_chain (next_chain ! j) (j2 # js)"
    by (auto elim: chain_SucE)
  then have n: "next_chain ! j = Suc j2" by (auto elim: chain_ConsE)
  have k: "wsub k 1 = k - 1" using Cons.prems by (simp add: wsub_small)
  show ?case
  proof (cases "k = 1")
    case True
    with j c n k show ?thesis
      by (intro exI [of _ "Suc j2"]) (subst traverse_loop.simps, auto simp: Let_def)
  next
    case False
    have eq: "traverse_loop next_chain bound p is_last j k out =
        traverse_loop next_chain bound p is_last j2 (k - 1) (out @ [(as_u32 p, j)])"
      using j n k False Cons.prems by (subst traverse_loop.simps) (simp add: Let_def)
    from Cons.IH [of j2 "k - 1" "out @ [(as_u32 p, j)]"] c n False Cons.prems
    obtain i where "chain next_chain i (drop (k - 1) (j2 # js))"
      "traverse_loop next_chain bound p is_last j2 (k - 1) (out @ [(as_u32 p, j)]) =
       Some (Inr ((out @ [(as_u32 p, j)]) @ map (Pair (as_u32 p)) (take (k - 1) (j2 # js)), k - 1 - length (j2 # js),
         if k - 1 \<le> length (j2 # js) \<and> \<not> (is_last \<and> i = 0) then Some (p, Some i) else None))"
      by (auto simp: less_imp_diff_less)
    then show ?thesis
      using eq Cons.prems by (intro exI [of _ i]) (cases k; auto)
  qed
qed

section \<open>Lookups in chunks\<close>

text \<open>
  The candidates of the probe rows, in order; a head that starts a chain; and what a lookup
  still has to yield at an offset.
\<close>

definition pairs_from :: "nat \<Rightarrow> nat list list \<Rightarrow> index_pairs" where
  "pairs_from row cands = concat (map (\<lambda>p. map (Pair p) (cands ! p)) [row..<length cands])"

definition head_ok :: "nat list \<Rightarrow> nat option \<Rightarrow> nat list \<Rightarrow> bool" where
  "head_ok next_chain h js = (case h of None \<Rightarrow> js = [] | Some i \<Rightarrow> js \<noteq> [] \<and> chain next_chain i js)"

definition pending :: "nat list \<Rightarrow> nat list list \<Rightarrow> map_offset \<Rightarrow> index_pairs \<Rightarrow> bool" where
  "pending next_chain cands off xs =
     (case off of
        (i, None) \<Rightarrow> i \<le> length cands \<and> xs = pairs_from i cands
      | (i, Some n) \<Rightarrow> i < length cands \<and> (\<exists>js. chain next_chain n js \<and> xs = map (Pair i) js @ pairs_from (i + 1) cands))"

lemma pairs_from_end [simp]: "length cands \<le> row \<Longrightarrow> pairs_from row cands = []"
  by (simp add: pairs_from_def)

lemma pairs_from_step:
  "row < length cands \<Longrightarrow> pairs_from row cands = map (Pair row) (cands ! row) @ pairs_from (row + 1) cands"
  by (simp add: pairs_from_def upt_conv_Cons)

text \<open>What a call promises: it returns at most the limit, in order, and where the rest is.\<close>

definition chunk ::
  "(map_offset \<Rightarrow> index_pairs \<Rightarrow> bool) \<Rightarrow> nat \<Rightarrow> map_offset \<Rightarrow> index_pairs
    \<Rightarrow> (index_pairs \<times> map_offset option) res option \<Rightarrow> bool" where
  "chunk pend limit off xs r \<longleftrightarrow>
     (\<exists>out nxt. r = Some (Inr (out, nxt)) \<and> length out \<le> limit \<and>
        (case nxt of
           None \<Rightarrow> xs = out
         | Some off' \<Rightarrow> fst off \<le> fst off' \<and> (out \<noteq> [] \<or> fst off < fst off') \<and>
             (\<exists>ys. xs = out @ ys \<and> pend off' ys)))"

lemma chunk_mono:
  assumes "chunk P limit off xs r" and "\<And>off ys. P off ys \<Longrightarrow> Q off ys"
  shows "chunk Q limit off xs r"
proof -
  obtain out nxt where r: "r = Some (Inr (out, nxt))" "length out \<le> limit"
    "case nxt of None \<Rightarrow> xs = out
      | Some off' \<Rightarrow> fst off \<le> fst off' \<and> (out \<noteq> [] \<or> fst off < fst off') \<and> (\<exists>ys. xs = out @ ys \<and> P off' ys)"
    using assms(1) unfolding chunk_def by blast
  from r(3) have "case nxt of None \<Rightarrow> xs = out
      | Some off' \<Rightarrow> fst off \<le> fst off' \<and> (out \<noteq> [] \<or> fst off < fst off') \<and> (\<exists>ys. xs = out @ ys \<and> Q off' ys)"
    using assms(2) by (cases nxt) auto
  with r(1,2) show ?thesis unfolding chunk_def by blast
qed

lemma traverse_chain_step:
  assumes "chain next_chain i js" and "js \<noteq> []" and "0 < k" and "k < usize_mod" and "p < 2 ^ 32"
  shows "\<exists>n. chain next_chain n (drop k js) \<and>
     traverse_chain next_chain bound p i k out is_last =
       Some (Inr (out @ map (Pair p) (take k js), k - length js,
         if k \<le> length js \<and> \<not> (is_last \<and> n = 0) then Some (p, Some n) else None))"
proof -
  obtain j ks where i: "i = Suc j" "js = j # ks"
    using assms(1,2) by (cases rule: chain.cases) auto
  show ?thesis
    using traverse_loop_chain [of next_chain j ks k bound p is_last out] assms
    by (simp add: i traverse_chain_def as_u32_def)
qed

definition yields ::
  "nat list \<Rightarrow> nat list list \<Rightarrow> nat \<Rightarrow> nat \<Rightarrow> index_pairs \<Rightarrow> index_pairs
    \<Rightarrow> (index_pairs \<times> map_offset option) res option \<Rightarrow> bool" where
  "yields next_chain cands row k out xs r \<longleftrightarrow>
     (\<exists>nxt. r = Some (Inr (out @ take k xs, nxt)) \<and>
        (case nxt of
           None \<Rightarrow> length xs \<le> k
         | Some off \<Rightarrow> row \<le> fst off \<and> k \<le> length xs \<and> pending next_chain cands off (drop k xs)))"

lemma yields_chunk:
  "yields next_chain cands row k [] xs r \<Longrightarrow> fst off \<le> row \<Longrightarrow> 0 < k \<Longrightarrow> chunk (pending next_chain cands) k off xs r"
proof -
  assume "yields next_chain cands row k [] xs r" "fst off \<le> row" "0 < k"
  then obtain nxt where nxt: "r = Some (Inr (take k xs, nxt))"
    "case nxt of None \<Rightarrow> length xs \<le> k
       | Some off' \<Rightarrow> row \<le> fst off' \<and> k \<le> length xs \<and> pending next_chain cands off' (drop k xs)"
    by (auto simp: yields_def)
  then show ?thesis using \<open>fst off \<le> row\<close> \<open>0 < k\<close>
    unfolding chunk_def
    by (intro exI [of _ "take k xs"] exI [of _ nxt])
       (auto split: option.splits intro!: exI [of _ "drop k xs"])
qed

text \<open>One row after another: a chain, then the rows after it.\<close>

lemma yields_append:
  assumes "yields next_chain cands (row + 1) (k - length js) (out @ map (Pair row) js) xs r" and "length js \<le> k"
  shows "yields next_chain cands row k out (map (Pair row) js @ xs) r"
proof -
  obtain nxt where nxt: "r = Some (Inr ((out @ map (Pair row) js) @ take (k - length js) xs, nxt))"
    "case nxt of None \<Rightarrow> length xs \<le> k - length js
       | Some off \<Rightarrow> row + 1 \<le> fst off \<and> k - length js \<le> length xs
           \<and> pending next_chain cands off (drop (k - length js) xs)"
    using assms(1) unfolding yields_def by blast
  with assms(2) show ?thesis unfolding yields_def
    by (intro exI [of _ nxt]) (auto split: option.splits)
qed

lemma yields_row:
  assumes "chain next_chain i js" and "js \<noteq> []" and "row < length cands" and "length cands \<le> 2 ^ 32"
    and "0 < k" and "k < usize_mod"
    and rest: "\<And>k' out'. 0 < k' \<or> row + 1 = length cands \<Longrightarrow> k' < usize_mod \<Longrightarrow>
      yields next_chain cands (row + 1) k' out' (pairs_from (row + 1) cands) (f k' out')"
  shows "yields next_chain cands row k out (map (Pair row) js @ pairs_from (row + 1) cands)
    (case traverse_chain next_chain bound row i k out (row = length cands - 1) of
        None \<Rightarrow> None
      | Some (Inl e) \<Rightarrow> Some (Inl e)
      | Some (Inr (out', remaining', Some next_offset)) \<Rightarrow> Some (Inr (out', Some next_offset))
      | Some (Inr (out', remaining', None)) \<Rightarrow> f remaining' out')" (is "yields _ _ _ _ _ ?xs ?r")
proof -
  let ?last = "row = length cands - 1"
  obtain n where n: "chain next_chain n (drop k js)"
    "traverse_chain next_chain bound row i k out ?last =
       Some (Inr (out @ map (Pair row) (take k js), k - length js,
         if k \<le> length js \<and> \<not> (?last \<and> n = 0) then Some (row, Some n) else None))"
    using traverse_chain_step [OF assms(1,2,5,6)] assms(3,4) by (meson less_le_trans)
  consider "k \<le> length js" "\<not> (?last \<and> n = 0)" | "k \<le> length js" "?last" "n = 0" | "length js < k"
    by linarith
  then show ?thesis
  proof cases
    case 1
    with n assms(3) show ?thesis by (auto simp: yields_def pending_def take_map drop_map)
  next
    case 2
    with n have l: "length js = k" "row + 1 = length cands" using assms(3) by auto
    then have "?r = f (k - length js) (out @ map (Pair row) js)" using n(2) 2 by simp
    with yields_append [OF rest [of "k - length js" "out @ map (Pair row) js"]] l show ?thesis
      by (simp add: usize_mod_def)
  next
    case 3
    then have "?r = f (k - length js) (out @ map (Pair row) js)" using n(2) by simp
    with yields_append [OF rest [of "k - length js" "out @ map (Pair row) js"]] 3 assms(6) show ?thesis by simp
  qed
qed

text \<open>
  A loop over the probe rows that follows the chain of each one yields them all. Both maps
  have such a loop.
\<close>

definition follows ::
  "nat list \<Rightarrow> nat \<Rightarrow> nat option list \<Rightarrow> (nat \<Rightarrow> nat \<Rightarrow> index_pairs \<Rightarrow> (index_pairs \<times> map_offset option) res option) \<Rightarrow> bool" where
  "follows next_chain bound heads F \<longleftrightarrow>
     (\<forall>k out. F (length heads) k out = Some (Inr (out, None))) \<and>
     (\<forall>row k out. row < length heads \<longrightarrow> 0 < k \<longrightarrow>
        F row k out =
          (case heads ! row of
             None \<Rightarrow> F (row + 1) k out
           | Some i \<Rightarrow>
               (case traverse_chain next_chain bound row i k out (row = length heads - 1) of
                  None \<Rightarrow> None
                | Some (Inl e) \<Rightarrow> Some (Inl e)
                | Some (Inr (out', remaining', Some next_offset)) \<Rightarrow> Some (Inr (out', Some next_offset))
                | Some (Inr (out', remaining', None)) \<Rightarrow> F (row + 1) remaining' out')))"

lemma follows_yields:
  assumes F: "follows next_chain bound heads F" and ok: "list_all2 (head_ok next_chain) heads cands"
    and "length heads \<le> 2 ^ 32"
    and "row \<le> length heads" and "0 < k \<or> row = length heads" and "k < usize_mod"
  shows "yields next_chain cands row k out (pairs_from row cands) (F row k out)"
  using assms(4-6)
proof (induction "length heads - row" arbitrary: row k out)
  case 0
  then show ?case using list_all2_lengthD [OF ok] F by (simp add: yields_def follows_def)
next
  case (Suc d)
  then have row: "row < length heads" and k: "0 < k" by auto
  have len: "length cands = length heads" using list_all2_lengthD [OF ok] by simp
  have ps: "pairs_from row cands = map (Pair row) (cands ! row) @ pairs_from (row + 1) cands"
    using row len by (simp add: pairs_from_step)
  have okr: "head_ok next_chain (heads ! row) (cands ! row)" using ok row by (simp add: list_all2_conv_all_nth)
  have IH: "yields next_chain cands (row + 1) k out (pairs_from (row + 1) cands) (F (row + 1) k out)"
    if "0 < k \<or> row + 1 = length cands" "k < usize_mod" for k out
    using Suc.hyps(1) [of "row + 1" k out] Suc.hyps(2) row that len by simp
  show ?case
  proof (cases "heads ! row")
    case None
    then have "cands ! row = []" "F row k out = F (row + 1) k out" using okr F row k by (simp_all add: head_ok_def follows_def)
    with yields_append [of next_chain cands row k "[]" out] IH [of k out] Suc.prems k
    show ?thesis unfolding ps by simp
  next
    case (Some i)
    then have js: "cands ! row \<noteq> []" "chain next_chain i (cands ! row)" using okr by (simp_all add: head_ok_def)
    have "F row k out = (case traverse_chain next_chain bound row i k out (row = length cands - 1) of
                  None \<Rightarrow> None
                | Some (Inl e) \<Rightarrow> Some (Inl e)
                | Some (Inr (out', remaining', Some next_offset)) \<Rightarrow> Some (Inr (out', Some next_offset))
                | Some (Inr (out', remaining', None)) \<Rightarrow> F (row + 1) remaining' out')"
      using F row k Some len by (simp add: follows_def)
    with yields_row [OF js(2,1) _ _ k Suc.prems(3) IH, of out bound] row len assms(3) show ?thesis
      unfolding ps by simp
  qed
qed

lemma resume_chunk:
  assumes F: "follows next_chain bound heads F" and ok: "list_all2 (head_ok next_chain) heads cands"
    and "length heads \<le> 2 ^ 32" and "length next_chain < bound"
    and "pending next_chain cands off xs" and "0 < limit" and "limit < usize_mod"
  shows "chunk (pending next_chain cands) limit off xs (resume next_chain bound (length heads) F limit off)"
proof -
  have len: "length cands = length heads" using list_all2_lengthD [OF ok] by simp
  note rows = follows_yields [OF F ok assms(3)]
  obtain i pos where off: "off = (i, pos)" by (cases off)
  consider "pos = None" | "pos = Some 0" | n where "pos = Some (Suc n)" by (metis not0_implies_Suc option.exhaust)
  then show ?thesis
  proof cases
    case 1
    with assms(5) off len have "i \<le> length heads" "xs = pairs_from i cands" by (simp_all add: pending_def)
    with yields_chunk [OF rows [of i limit "[]"], of off] assms(6,7) 1 off show ?thesis by (simp add: resume_def)
  next
    case 2
    with assms(5) off len have "i + 1 \<le> length heads" "xs = pairs_from (i + 1) cands" by (simp_all add: pending_def)
    with yields_chunk [OF rows [of "i + 1" limit "[]"], of off] assms(6,7) 2 off show ?thesis by (simp add: resume_def)
  next
    case 3
    then obtain js where js: "chain next_chain (Suc n) js" "xs = map (Pair i) js @ pairs_from (i + 1) cands" "i < length cands"
      using assms(5) off by (auto simp: pending_def)
    then have "js \<noteq> []" "Suc n mod bound = Suc n" using assms(4) by (auto elim: chain_SucE)
    have f: "yields next_chain cands (i + 1) k out (pairs_from (i + 1) cands) (F (i + 1) k out)"
      if "0 < k \<or> i + 1 = length cands" "k < usize_mod" for k out
      using rows [of "i + 1" k out] that js(3) len by simp
    have "yields next_chain cands i limit [] xs (resume next_chain bound (length heads) F limit off)"
      using yields_row [OF js(1) \<open>js \<noteq> []\<close> js(3) _ assms(6,7) f, of "[]" bound] len assms(3) \<open>Suc n mod bound = Suc n\<close>
      unfolding js(2) by (simp only: resume_def off 3 prod.case option.case nat.case)
    then show ?thesis using yields_chunk assms(6) off by simp
  qed
qed

section \<open>The interface of a join map\<close>

text \<open>
  What the stream of a join relies on: a lookup at an offset returns a chunk of what is
  pending there. Calling it until no offset is left yields everything, in order.
\<close>

inductive drained ::
  "(map_offset \<Rightarrow> (index_pairs \<times> map_offset option) res option) \<Rightarrow> map_offset \<Rightarrow> index_pairs list \<Rightarrow> bool" for step where
  last: "step off = Some (Inr (out, None)) \<Longrightarrow> drained step off [out]"
| more: "step off = Some (Inr (out, Some off')) \<Longrightarrow> drained step off' outs \<Longrightarrow> drained step off (out # outs)"

locale join_map =
  fixes step :: "nat \<Rightarrow> map_offset \<Rightarrow> (index_pairs \<times> map_offset option) res option"
    and pend :: "map_offset \<Rightarrow> index_pairs \<Rightarrow> bool" and n :: nat
  assumes step_chunk: "pend off xs \<Longrightarrow> 0 < limit \<Longrightarrow> limit < 2 ^ 63 \<Longrightarrow> chunk pend limit off xs (step limit off)"
    and pend_bound: "pend off xs \<Longrightarrow> fst off \<le> n"
begin

lemma drains:
  assumes "pend off xs" and "0 < limit" and "limit < 2 ^ 63"
  shows "\<exists>outs. drained (step limit) off outs \<and> concat outs = xs \<and> (\<forall>out \<in> set outs. length out \<le> limit)"
  using assms(1)
proof (induction "n - fst off + length xs" arbitrary: off xs rule: less_induct)
  case less
  obtain out nxt where r: "step limit off = Some (Inr (out, nxt))" "length out \<le> limit"
    "case nxt of None \<Rightarrow> xs = out
      | Some off' \<Rightarrow> fst off \<le> fst off' \<and> (out \<noteq> [] \<or> fst off < fst off') \<and> (\<exists>ys. xs = out @ ys \<and> pend off' ys)"
    using step_chunk [OF less.prems assms(2,3)] unfolding chunk_def by blast
  show ?case
  proof (cases nxt)
    case None
    with r show ?thesis by (intro exI [of _ "[out]"]) (auto intro: drained.last)
  next
    case (Some off')
    with r(3) obtain ys where ys: "xs = out @ ys" "pend off' ys" "fst off \<le> fst off'" "out \<noteq> [] \<or> fst off < fst off'"
      by auto
    have "n - fst off' + length ys < n - fst off + length xs"
      using ys pend_bound [OF ys(2)] by (cases out) auto
    from less.hyps [OF this ys(2)] obtain outs where
      outs: "drained (step limit) off' outs" "concat outs = ys" "\<forall>out \<in> set outs. length out \<le> limit" by blast
    have "drained (step limit) off (out # outs)" using r(1) outs(1) unfolding Some by (rule drained.more)
    with outs r(2) ys(1) show ?thesis by (intro exI [of _ "out # outs"]) simp
  qed
qed

end

section \<open>Insertion\<close>

text \<open>
  The table after the rows \<open>ins\<close> were inserted, oldest first: each hash leads to its rows,
  newest first.
\<close>

definition rows_with :: "nat \<Rightarrow> (nat \<times> nat) list \<Rightarrow> nat list" where
  "rows_with h ins = rev (map fst (filter (\<lambda>(row, hash). hash = h) ins))"

definition hm_inv :: "(nat \<times> nat) list \<Rightarrow> join_hash_map \<Rightarrow> bool" where
  "hm_inv ins m \<longleftrightarrow> distinct (map fst (jm_map m)) \<and> distinct (map fst ins) \<and> jm_bound m \<le> usize_mod
     \<and> length (jm_next m) < jm_bound m
     \<and> (\<forall>(row, hash) \<in> set ins. row < length (jm_next m))
     \<and> (\<forall>row < length (jm_next m). row \<notin> fst ` set ins \<longrightarrow> jm_next m ! row = 0)
     \<and> (\<forall>h. head_ok (jm_next m) (map_of (jm_map m) h) (rows_with h ins))"

lemma hm_inv_with_capacity: "bound \<le> usize_mod \<Longrightarrow> cap < bound \<Longrightarrow> hm_inv [] (with_capacity bound cap)"
  by (simp add: hm_inv_def with_capacity_def head_ok_def rows_with_def)

lemma rows_with_snoc: "rows_with h (ins @ [(row, hash)]) = (if hash = h then row # rows_with h ins else rows_with h ins)"
  by (simp add: rows_with_def)

lemma rows_with_subset: "set (rows_with h ins) \<subseteq> fst ` set ins"
  by (auto simp: rows_with_def)

lemma update_step:
  assumes inv: "hm_inv ins m" and new: "row \<notin> fst ` set ins" "row < length (jm_next m)" "row + 1 < jm_bound m"
  shows "\<exists>m'. update_from_iter 0 ((row, hash) # iter) m = update_from_iter 0 iter m'
           \<and> hm_inv (ins @ [(row, hash)]) m' \<and> jm_bound m' = jm_bound m \<and> length (jm_next m') = length (jm_next m)"
proof -
  have "row < usize_mod" using inv new(3) by (simp add: hm_inv_def)
  then have w: "wsub row 0 = row" by (simp add: wsub_def)
  define nx where "nx = (case map_of (jm_map m) hash of None \<Rightarrow> jm_next m | Some i \<Rightarrow> (jm_next m)[row := i])"
  define m' where "m' = m\<lparr>jm_map := AList.update hash (row + 1) (jm_map m), jm_next := nx\<rparr>"
  have len: "length nx = length (jm_next m)" by (simp add: nx_def split: option.splits)
  have step: "update_from_iter 0 ((row, hash) # iter) m = update_from_iter 0 iter m'"
    using new w by (auto simp: m'_def nx_def split: option.splits)
  have keep: "chain nx i js" if "chain (jm_next m) i js" "row \<notin> set js" for i js
    using chain_update [OF that] by (simp add: nx_def that split: option.splits)
  have ok: "head_ok (jm_next m) (map_of (jm_map m) h) (rows_with h ins)" for h using inv by (simp add: hm_inv_def)
  have old: "row \<notin> set (rows_with h ins)" for h using new(1) rows_with_subset by fast
  have at_row: "chain nx (nx ! row) (rows_with hash ins)"
  proof (cases "map_of (jm_map m) hash")
    case None
    with ok [of hash] have "rows_with hash ins = []" by (simp add: head_ok_def)
    moreover have "jm_next m ! row = 0" using inv new by (simp add: hm_inv_def)
    ultimately show ?thesis using None by (simp add: nx_def)
  next
    case (Some i)
    with ok [of hash] have "chain (jm_next m) i (rows_with hash ins)" by (simp add: head_ok_def)
    with keep old Some new(2) show ?thesis by (simp add: nx_def)
  qed
  have "head_ok nx (map_of (AList.update hash (row + 1) (jm_map m)) h) (rows_with h (ins @ [(row, hash)]))" for h
  proof (cases "h = hash")
    case True
    with at_row new(2) len show ?thesis
      by (simp add: head_ok_def update_conv' rows_with_snoc chain_more)
  next
    case False
    with ok [of h] keep [OF _ old] show ?thesis
      by (cases "map_of (jm_map m) h") (simp_all add: head_ok_def update_conv' rows_with_snoc)
  qed
  moreover have "\<forall>r < length nx. r \<notin> fst ` set (ins @ [(row, hash)]) \<longrightarrow> nx ! r = 0"
  proof (intro allI impI)
    fix r assume "r < length nx" "r \<notin> fst ` set (ins @ [(row, hash)])"
    then have "r \<noteq> row" "jm_next m ! r = 0" using inv len by (auto simp: hm_inv_def)
    then show "nx ! r = 0" by (simp add: nx_def split: option.splits)
  qed
  moreover have "\<forall>(r, h) \<in> set (ins @ [(row, hash)]). r < length nx"
    using inv new(2) len by (auto simp: hm_inv_def)
  moreover have "distinct (map fst (AList.update hash (row + 1) (jm_map m)))" "distinct (map fst (ins @ [(row, hash)]))"
    using inv new(1) by (simp_all add: hm_inv_def distinct_update)
  ultimately have "hm_inv (ins @ [(row, hash)]) m'"
    using inv len unfolding hm_inv_def m'_def by simp
  with step len show ?thesis by (intro exI [of _ m']) (simp add: m'_def)
qed

lemma update_from_iter_ok:
  assumes "hm_inv ins m" and "distinct (map fst (ins @ new))"
    and "\<forall>(row, hash) \<in> set new. row < length (jm_next m) \<and> row + 1 < jm_bound m"
  shows "\<exists>m'. update_from_iter 0 new m = Inr m' \<and> hm_inv (ins @ new) m'
           \<and> jm_bound m' = jm_bound m \<and> length (jm_next m') = length (jm_next m)"
  using assms
proof (induction new arbitrary: ins m)
  case (Cons x new)
  obtain row hash where x: "x = (row, hash)" by (cases x)
  have row: "row \<notin> fst ` set ins" "row < length (jm_next m)" "row + 1 < jm_bound m"
    using Cons.prems(2,3) by (auto simp: x)
  obtain m1 where m1: "update_from_iter 0 ((row, hash) # new) m = update_from_iter 0 new m1"
    "hm_inv (ins @ [(row, hash)]) m1" "jm_bound m1 = jm_bound m" "length (jm_next m1) = length (jm_next m)"
    using update_step [OF Cons.prems(1) row] by blast
  from Cons.IH [OF m1(2)] Cons.prems(2,3) m1(1,3,4) show ?case by (simp add: x)
qed simp

section \<open>Lookups in a table\<close>

definition candidates :: "(nat \<times> nat) list \<Rightarrow> nat list \<Rightarrow> nat list list" where
  "candidates ins hashes = map (\<lambda>h. rows_with h ins) hashes"

lemma hm_heads:
  "hm_inv ins m \<Longrightarrow> list_all2 (head_ok (jm_next m)) (map (map_of (jm_map m)) hashes) (candidates ins hashes)"
  by (simp add: candidates_def list_all2_conv_all_nth hm_inv_def)

lemma hm_follows:
  "follows (jm_next m) (jm_bound m) (map (map_of (jm_map m)) hashes) (rows_after_skip m hashes)"
  unfolding follows_def
proof (intro conjI allI impI)
  fix row k out assume "row < length (map (map_of (jm_map m)) hashes)"
  then have "drop row hashes = hashes ! row # drop (row + 1) hashes" by (simp add: Cons_nth_drop_Suc)
  with \<open>row < _\<close> show "rows_after_skip m hashes row k out =
      (case map (map_of (jm_map m)) hashes ! row of
         None \<Rightarrow> rows_after_skip m hashes (row + 1) k out
       | Some i \<Rightarrow>
           (case traverse_chain (jm_next m) (jm_bound m) row i k out (row = length (map (map_of (jm_map m)) hashes) - 1) of
              None \<Rightarrow> None
            | Some (Inl e) \<Rightarrow> Some (Inl e)
            | Some (Inr (out', remaining', Some next_offset)) \<Rightarrow> Some (Inr (out', Some next_offset))
            | Some (Inr (out', remaining', None)) \<Rightarrow> rows_after_skip m hashes (row + 1) remaining' out'))"
    by (cases "map_of (jm_map m) (hashes ! row)") (simp_all add: rows_after_skip_def split: option.split sum.split)
qed (simp add: rows_after_skip_def)

text \<open>When there are as many hashes as rows, no two rows have the same hash.\<close>

lemma unique_rows:
  assumes inv: "hm_inv ins m" and full: "length (jm_map m) = length (jm_next m)"
  shows "length (rows_with h ins) \<le> 1"
proof -
  have d: "distinct ins" using inv by (simp add: hm_inv_def distinct_map)
  have dom: "fst ` set (jm_map m) = snd ` set ins"
  proof -
    have "h \<in> fst ` set (jm_map m) \<longleftrightarrow> rows_with h ins \<noteq> []" for h
    proof -
      have "head_ok (jm_next m) (map_of (jm_map m) h) (rows_with h ins)" using inv by (simp add: hm_inv_def)
      then show ?thesis
        using map_of_eq_None_iff [of "jm_map m" h] by (cases "map_of (jm_map m) h") (simp_all add: head_ok_def)
    qed
    moreover have "rows_with h ins \<noteq> [] \<longleftrightarrow> h \<in> snd ` set ins" for h
      by (force simp: rows_with_def filter_empty_conv)
    ultimately show ?thesis by blast
  qed
  have "length ins \<le> length (jm_next m)"
  proof -
    have "fst ` set ins \<subseteq> {..<length (jm_next m)}" using inv by (auto simp: hm_inv_def)
    then have "card (fst ` set ins) \<le> length (jm_next m)" by (metis card_lessThan card_mono finite_lessThan)
    moreover have "card (set (map fst ins)) = length ins"
      using inv distinct_card [of "map fst ins"] by (simp add: hm_inv_def)
    ultimately show ?thesis by simp
  qed
  moreover have "card (snd ` set ins) = length (jm_map m)"
    using inv dom distinct_card [of "map fst (jm_map m)"] by (simp add: hm_inv_def)
  moreover have "card (set ins) = length ins" using d by (rule distinct_card)
  ultimately have "card (set ins) \<le> card (snd ` set ins)" using full by simp
  then have "inj_on snd (set ins)" by (meson List.finite_set card_image_le eq_card_imp_inj_on le_antisym)
  then have "card {x \<in> set ins. snd x = h} \<le> Suc 0"
    by (subst card_le_Suc0_iff_eq) (auto simp: inj_on_def)
  moreover have "card {x \<in> set ins. snd x = h} = length (filter (\<lambda>x. snd x = h) ins)"
    using distinct_card [of "filter (\<lambda>x. snd x = h) ins"] d by simp
  ultimately show ?thesis by (simp add: rows_with_def case_prod_unfold)
qed

lemma unique_loop_pairs:
  assumes inv: "hm_inv ins m" and full: "length (jm_map m) = length (jm_next m)"
    and "row + length hashes \<le> 2 ^ 32"
  shows "unique_loop m row hashes = concat (map (\<lambda>(p, h). map (Pair p) (rows_with h ins)) (enumerate row hashes))"
  using assms(3)
proof (induction hashes arbitrary: row)
  case (Cons h hashes)
  have ok: "head_ok (jm_next m) (map_of (jm_map m) h) (rows_with h ins)" using inv by (simp add: hm_inv_def)
  have "rows_with h ins = (case map_of (jm_map m) h of None \<Rightarrow> [] | Some i \<Rightarrow> [minus_one (jm_bound m) i])"
  proof (cases "map_of (jm_map m) h")
    case (Some i)
    with ok have c: "chain (jm_next m) i (rows_with h ins)" "rows_with h ins \<noteq> []" by (simp_all add: head_ok_def)
    with unique_rows [OF inv full, of h] obtain j where "rows_with h ins = [j]"
      by (cases "rows_with h ins") auto
    with c Some show ?thesis by (auto elim: chain_ConsE)
  qed (use ok in \<open>simp add: head_ok_def\<close>)
  with Cons show ?case by (simp add: as_u32_def split: option.splits)
qed simp

definition hm_pending :: "join_hash_map \<Rightarrow> nat list \<Rightarrow> map_offset \<Rightarrow> index_pairs \<Rightarrow> bool" where
  "hm_pending m hashes off xs \<longleftrightarrow> length hashes \<le> 2 ^ 32 \<and>
     (\<exists>ins. hm_inv ins m \<and> pending (jm_next m) (candidates ins hashes) off xs) \<and>
     (length (jm_map m) = length (jm_next m) \<longrightarrow> snd off = None)"

lemma pairs_from_split:
  "start \<le> stop \<Longrightarrow> stop \<le> length cands \<Longrightarrow>
     pairs_from start cands = concat (map (\<lambda>p. map (Pair p) (cands ! p)) [start..<stop]) @ pairs_from stop cands"
  using upt_add_eq_append [of start stop "length cands - stop"] by (simp add: pairs_from_def)

lemma unique_slice:
  assumes "hm_inv ins m" and "length (jm_map m) = length (jm_next m)" and "length hashes \<le> 2 ^ 32"
    and "start \<le> stop" and "stop \<le> length hashes"
  shows "unique_loop m start (take (stop - start) (drop start hashes)) =
           concat (map (\<lambda>p. map (Pair p) (candidates ins hashes ! p)) [start..<stop])"
proof -
  have "enumerate start (take (stop - start) (drop start hashes)) = map (\<lambda>p. (p, hashes ! p)) [start..<stop]"
    using assms(4,5) by (intro nth_equalityI) (auto simp: nth_enumerate_eq)
  then show ?thesis
    using assms by (subst unique_loop_pairs [OF assms(1,2)])
      (auto simp: candidates_def comp_def intro!: arg_cong [of _ _ concat])
qed

lemma unique_slice_length:
  assumes "hm_inv ins m" and "length (jm_map m) = length (jm_next m)" and "stop \<le> length hashes"
  shows "length (concat (map (\<lambda>p. map (Pair p) (candidates ins hashes ! p)) [start..<stop])) \<le> stop - start"
proof -
  have "sum_list (map (\<lambda>p. length (candidates ins hashes ! p)) [start..<stop]) \<le> sum_list (map (\<lambda>p. 1) [start..<stop])"
    using unique_rows [OF assms(1,2)] assms(3) by (intro sum_list_mono) (simp add: candidates_def)
  then show ?thesis by (simp add: length_concat comp_def sum_list_triv)
qed

lemma hm_lookup_chunk:
  assumes "hm_pending m hashes off xs" and "0 < limit" and "limit < 2 ^ 63"
  shows "chunk (hm_pending m hashes) limit off xs (get_matched_indices_with_limit_offset m hashes limit off)"
proof -
  obtain ins where inv: "hm_inv ins m" and p: "pending (jm_next m) (candidates ins hashes) off xs"
    and len: "length hashes \<le> 2 ^ 32" using assms(1) by (auto simp: hm_pending_def)
  show ?thesis
  proof (cases "length (jm_map m) = length (jm_next m)")
    case True
    obtain start where off: "off = (start, None)" using assms(1) True by (cases off) (auto simp: hm_pending_def)
    have start: "start \<le> length hashes" "xs = pairs_from start (candidates ins hashes)"
      using p by (simp_all add: off pending_def candidates_def)
    have "wadd start limit = start + limit" using start(1) len assms(3) by (intro wadd_small) (simp add: usize_mod_def)
    define stop where "stop = min (start + limit) (length hashes)"
    have stop: "start \<le> stop" "stop \<le> length hashes" "stop - start \<le> limit" "stop < length hashes \<Longrightarrow> start < stop"
      using start(1) assms(2) by (auto simp: stop_def)
    let ?out = "concat (map (\<lambda>p. map (Pair p) (candidates ins hashes ! p)) [start..<stop])"
    have xs: "xs = ?out @ pairs_from stop (candidates ins hashes)"
      unfolding start(2) using stop by (intro pairs_from_split) (simp_all add: candidates_def)
    have r: "get_matched_indices_with_limit_offset m hashes limit off =
        Some (Inr (?out, if stop = length hashes then None else Some (stop, None)))"
      using True stop unique_slice [OF inv True len stop(1,2)] \<open>wadd start limit = start + limit\<close>
      by (simp add: get_matched_indices_with_limit_offset_def off Let_def stop_def [symmetric])
    have "length ?out \<le> limit" using unique_slice_length [OF inv True stop(2), of start] stop(3) by linarith
    moreover have "hm_pending m hashes (stop, None) (pairs_from stop (candidates ins hashes))"
      using inv len stop(2) by (auto simp: hm_pending_def pending_def candidates_def intro: exI [of _ ins])
    ultimately show ?thesis
      unfolding chunk_def r using xs stop off
      by (cases "stop = length hashes") (auto simp: candidates_def)
  next
    case False
    have "chunk (pending (jm_next m) (candidates ins hashes)) limit off xs
        (get_matched_indices_with_limit_offset m hashes limit off)"
      using resume_chunk [OF hm_follows hm_heads [OF inv] _ _ p assms(2)] False len assms(3) inv
      by (simp add: get_matched_indices_with_limit_offset_def usize_mod_def hm_inv_def)
    then show ?thesis
      by (rule chunk_mono) (use inv len False in \<open>auto simp: hm_pending_def\<close>)
  qed
qed

interpretation hm: join_map "get_matched_indices_with_limit_offset m hashes" "hm_pending m hashes" "length hashes" for m hashes
proof
  show "hm_pending m hashes off xs \<Longrightarrow> 0 < limit \<Longrightarrow> limit < 2 ^ 63 \<Longrightarrow>
      chunk (hm_pending m hashes) limit off xs (get_matched_indices_with_limit_offset m hashes limit off)" for off xs limit
    by (rule hm_lookup_chunk)
  show "hm_pending m hashes off xs \<Longrightarrow> fst off \<le> length hashes" for off xs
    by (auto simp: hm_pending_def pending_def candidates_def split: option.splits prod.splits)
qed

text \<open>The lookup without a limit, for a table nothing was deleted from.\<close>

lemma match_loop_chain:
  "chain (jm_next m) (Suc j) (j # js) \<Longrightarrow>
     match_loop m None row j out = Some (Inr (out @ map (Pair (as_u32 row)) (j # js)))"
proof (induction js arbitrary: j out)
  case Nil
  then have "j < length (jm_next m)" "jm_next m ! j = 0" by (auto elim: chain_SucE)
  then show ?case by (subst match_loop.simps) (simp add: Let_def)
next
  case (Cons j2 js)
  then have j: "j < length (jm_next m)" and c: "chain (jm_next m) (jm_next m ! j) (j2 # js)"
    by (auto elim: chain_SucE)
  then have n: "jm_next m ! j = Suc j2" by (auto elim: chain_ConsE)
  with Cons.IH [of j2 "out @ [(as_u32 row, j)]"] c j show ?case
    by (subst match_loop.simps) (simp add: Let_def)
qed

lemma get_matched_indices_eq:
  assumes "hm_inv ins m"
  shows "get_matched_indices m None iter out =
           Some (Inr (out @ concat (map (\<lambda>(row, h). map (Pair (as_u32 row)) (rows_with h ins)) iter)))"
proof (induction iter arbitrary: out)
  case (Cons x iter)
  obtain row h where x: "x = (row, h)" by (cases x)
  have ok: "head_ok (jm_next m) (map_of (jm_map m) h) (rows_with h ins)" using assms by (simp add: hm_inv_def)
  show ?case
  proof (cases "map_of (jm_map m) h")
    case None
    with ok Cons.IH show ?thesis by (simp add: x head_ok_def)
  next
    case (Some i)
    with ok have "chain (jm_next m) i (rows_with h ins)" "rows_with h ins \<noteq> []" by (simp_all add: head_ok_def)
    then obtain j js where "i = Suc j" "rows_with h ins = j # js" "chain (jm_next m) (Suc j) (j # js)"
      by (cases rule: chain.cases) (auto intro: chain_more)
    with Some Cons.IH match_loop_chain show ?thesis by (simp add: x)
  qed
qed simp

section \<open>Properties\<close>

text \<open>C11. The table of a join finds every row: insert rows into a fresh table that has room
  for them, then look up a batch of hashes from the start until no offset is left. Both
  succeed, the lookup ends, no call returns more than the limit, and together the calls
  yield for each probe row, in order, exactly the rows inserted under its hash, newest
  first. The lookup without a limit yields the same.\<close>

theorem join_hash_map_complete:
  assumes "bound \<le> usize_mod" and "cap < bound" and "distinct (map fst ins)"
    and "\<And>row hash. (row, hash) \<in> set ins \<Longrightarrow> row < cap"
    and "length hashes \<le> 2 ^ 32" and "0 < limit" and "limit < 2 ^ 63"
  shows "\<exists>m outs. update_from_iter 0 ins (with_capacity bound cap) = Inr m
     \<and> drained (get_matched_indices_with_limit_offset m hashes limit) (0, None) outs
     \<and> (\<forall>out \<in> set outs. length out \<le> limit)
     \<and> concat outs = concat (map (\<lambda>p. map (Pair p) (rows_with (hashes ! p) ins)) [0..<length hashes])
     \<and> get_matched_indices m None (enumerate 0 hashes) [] = Some (Inr (concat outs))"
proof -
  obtain m where m: "update_from_iter 0 ins (with_capacity bound cap) = Inr m" "hm_inv ins m"
    using update_from_iter_ok [OF hm_inv_with_capacity [OF assms(1,2)], of ins] assms(2-4)
    by (fastforce simp: with_capacity_def)
  let ?xs = "concat (map (\<lambda>p. map (Pair p) (rows_with (hashes ! p) ins)) [0..<length hashes])"
  have xs: "pairs_from 0 (candidates ins hashes) = ?xs"
    by (auto simp: pairs_from_def candidates_def intro!: arg_cong [of _ _ concat])
  have "hm_pending m hashes (0, None) ?xs"
    using m(2) assms(5) xs by (auto simp: hm_pending_def pending_def)
  from hm.drains [OF this assms(6,7)] obtain outs where
    outs: "drained (get_matched_indices_with_limit_offset m hashes limit) (0, None) outs" "concat outs = ?xs"
      "\<forall>out \<in> set outs. length out \<le> limit" by blast
  have "map (\<lambda>(row, h). map (Pair (as_u32 row)) (rows_with h ins)) (enumerate 0 hashes) =
      map (\<lambda>p. map (Pair p) (rows_with (hashes ! p) ins)) [0..<length hashes]"
    using assms(5) by (intro nth_equalityI) (auto simp: nth_enumerate_eq as_u32_def)
  then have "get_matched_indices m None (enumerate 0 hashes) [] = Some (Inr ?xs)"
    using get_matched_indices_eq [OF m(2)] by simp
  with m(1) outs show ?thesis by auto
qed

theorem join_hash_map_complete_witness:
  "\<exists>m outs. update_from_iter 0 [(1, 10), (2, 20), (3, 10), (4, 10)] (with_capacity (2 ^ 32) 5) = Inr m
     \<and> drained (get_matched_indices_with_limit_offset m [10, 7, 20] 2) (0, None) outs
     \<and> concat outs = [(0, 4), (0, 3), (0, 1), (2, 2)]"
proof -
  let ?ins = "[(1, 10), (2, 20), (3, 10), (4, 10)] :: (nat \<times> nat) list"
  have pairs: "concat (map (\<lambda>p. map (Pair p) (rows_with ([10, 7, 20] ! p) ?ins)) [0..<length [10 :: nat, 7, 20]]) =
      [(0, 4), (0, 3), (0, 1), (2, 2)]" by code_simp
  have "\<exists>m outs. update_from_iter 0 ?ins (with_capacity (2 ^ 32) 5) = Inr m
     \<and> drained (get_matched_indices_with_limit_offset m [10, 7, 20] 2) (0, None) outs
     \<and> (\<forall>out \<in> set outs. length out \<le> 2)
     \<and> concat outs = concat (map (\<lambda>p. map (Pair p) (rows_with ([10, 7, 20] ! p) ?ins)) [0..<length [10 :: nat, 7, 20]])
     \<and> get_matched_indices m None (enumerate 0 [10, 7, 20]) [] = Some (Inr (concat outs))"
    by (rule join_hash_map_complete) (auto simp: usize_mod_def)
  then show ?thesis unfolding pairs by blast
qed

end
