(* ===== verification/ArrayMap.thy ===== *)
theory ArrayMap
  imports JoinHashMap Stats
begin

text \<open>
  The dense map of a hash join on one integer key, \<open>physical-plan/src/joins/array_map.rs\<close>:
  an array indexed by the key minus the smallest key, with the chains of the hash table for
  equal keys. An array is its type and its cells. Of the eight integer types of the code the
  model has the two that \<^typ>\<open>data_type\<close> names.
\<close>

section \<open>Definitions\<close>

type_synonym key_array = "data_type \<times> cell list"

record array_map =
  am_data :: "nat list"
  am_offset :: nat
  am_next :: "nat list"
  am_distinct :: nat

fun is_supported_type :: "data_type \<Rightarrow> bool" where
  "is_supported_type Int32 = True"
| "is_supported_type Int64 = True"
| "is_supported_type _ = False"

text \<open>A key as a 64-bit pattern; nulls have none.\<close>

fun key_to_u64 :: "cell \<Rightarrow> nat option" where
  "key_to_u64 (CInt i) = Some (as_usize i)"
| "key_to_u64 _ = None"

definition calculate_range :: "nat \<Rightarrow> nat \<Rightarrow> nat" where
  "calculate_range min_val max_val = wsub max_val min_val"

definition estimate_memory_size :: "nat \<Rightarrow> nat \<Rightarrow> nat \<Rightarrow> nat" where
  "estimate_memory_size min_val max_val n_rows =
     (let range = calculate_range min_val max_val
      in if usize_max \<le> range then usize_max
         else saturating_add (saturating_mul (range + 1) 4) (saturating_mul n_rows 4))"

text \<open>The rows are inserted from the last to the first; the first argument is the number of rows.\<close>

fun fill_data :: "nat \<Rightarrow> (nat \<times> cell) list \<Rightarrow> array_map \<Rightarrow> array_map res" where
  "fill_data len [] am = Inr am"
| "fill_data len ((i, c) # rest) am =
     (case key_to_u64 c of
        None \<Rightarrow> fill_data len rest am
      | Some key \<Rightarrow>
          let idx = wsub key (am_offset am)
          in if idx < length (am_data am)
             then let old = am_data am ! idx;
                      am1 = (if old \<noteq> 0
                             then let nxt = (if am_next am = [] then replicate len 0 else am_next am)
                                  in am\<lparr>am_next := nxt[i := old]\<rparr>
                             else am\<lparr>am_distinct := am_distinct am + 1\<rparr>)
                  in fill_data len rest (am1\<lparr>am_data := (am_data am)[idx := as_u32 (as_u32 i + 1)]\<rparr>)
             else Inl (Internal ''failed build Array idx >= data.len()''))"

text \<open>The message ends with the type, which is left out here.\<close>

definition unsupported :: "df_error" where
  "unsupported = Internal ''Unsupported type for ArrayMap''"

definition array_map_try_new :: "key_array \<Rightarrow> nat \<Rightarrow> nat \<Rightarrow> array_map res" where
  "array_map_try_new arr min_val max_val =
     (let range = wsub max_val min_val
      in if usize_max \<le> range then Inl (Internal ''ArrayMap key range is too large to be allocated.'')
         else if is_supported_type (fst arr)
         then fill_data (length (snd arr)) (rev (enumerate 0 (snd arr)))
                \<lparr>am_data = replicate (range + 1) 0, am_offset = min_val, am_next = [], am_distinct = 0\<rparr>
         else Inl unsupported)"

text \<open>The stored index of a probe key, if there is one.\<close>

definition array_head :: "array_map \<Rightarrow> cell \<Rightarrow> nat option" where
  "array_head am c =
     (case key_to_u64 c of
        None \<Rightarrow> None
      | Some v \<Rightarrow>
          let idx = wsub v (am_offset am)
          in if length (am_data am) \<le> idx \<or> am_data am ! idx = 0 then None else Some (am_data am ! idx))"

fun array_unique_rows ::
  "array_map \<Rightarrow> nat \<Rightarrow> nat \<Rightarrow> cell list \<Rightarrow> index_pairs \<Rightarrow> index_pairs \<times> map_offset option" where
  "array_unique_rows am limit prob_idx [] out = (out, None)"
| "array_unique_rows am limit prob_idx (c # cs) out =
     (if length out = limit then (out, Some (prob_idx, None))
      else case array_head am c of
             None \<Rightarrow> array_unique_rows am limit (prob_idx + 1) cs out
           | Some i \<Rightarrow> array_unique_rows am limit (prob_idx + 1) cs (out @ [(as_u32 prob_idx, i - 1)]))"

fun array_chain_rows ::
  "array_map \<Rightarrow> nat \<Rightarrow> nat \<Rightarrow> cell list \<Rightarrow> nat \<Rightarrow> index_pairs \<Rightarrow> (index_pairs \<times> map_offset option) res option" where
  "array_chain_rows am len prob_idx [] remaining out = Some (Inr (out, None))"
| "array_chain_rows am len prob_idx (c # cs) remaining out =
     (if remaining = 0 then Some (Inr (out, Some (prob_idx, None)))
      else case array_head am c of
             None \<Rightarrow> array_chain_rows am len (prob_idx + 1) cs remaining out
           | Some build_idx \<Rightarrow>
               (case traverse_chain (am_next am) (2 ^ 32) prob_idx build_idx remaining out (prob_idx = len - 1) of
                  None \<Rightarrow> None
                | Some (Inl e) \<Rightarrow> Some (Inl e)
                | Some (Inr (out', remaining', Some next_offset)) \<Rightarrow> Some (Inr (out', Some next_offset))
                | Some (Inr (out', remaining', None)) \<Rightarrow>
                    array_chain_rows am len (prob_idx + 1) cs remaining' out'))"

definition lookup_and_get_indices ::
  "array_map \<Rightarrow> cell list \<Rightarrow> nat \<Rightarrow> map_offset \<Rightarrow> (index_pairs \<times> map_offset option) res option" where
  "lookup_and_get_indices am arr limit off =
     (if am_next am = [] then Some (Inr (array_unique_rows am limit (fst off) (drop (fst off) arr) []))
      else resume (am_next am) (2 ^ 32) (length arr)
             (\<lambda>to_skip remaining out. array_chain_rows am (length arr) to_skip (drop to_skip arr) remaining out) limit off)"

definition array_get_matched_indices ::
  "array_map \<Rightarrow> key_array list \<Rightarrow> nat \<Rightarrow> map_offset \<Rightarrow> (index_pairs \<times> map_offset option) res option" where
  "array_get_matched_indices am prob_side_keys limit off =
     (case prob_side_keys of
        [arr] \<Rightarrow> if is_supported_type (fst arr) then lookup_and_get_indices am (snd arr) limit off
                 else Some (Inl unsupported)
      | _ \<Rightarrow> Some (Inl (Internal (''ArrayMap expects 1 join key, but got '' @ show_nat (length prob_side_keys)))))"

definition contain_keys :: "array_map \<Rightarrow> key_array list \<Rightarrow> bool list res" where
  "contain_keys am probe_side_keys =
     (case probe_side_keys of
        [arr] \<Rightarrow> if is_supported_type (fst arr) then Inr (map (\<lambda>c. array_head am c \<noteq> None) (snd arr))
                 else Inl unsupported
      | _ \<Rightarrow> Inl (Internal (''ArrayMap join expects 1 join key, but got '' @ show_nat (length probe_side_keys))))"

section \<open>Insertion\<close>

text \<open>The slot of a key, and the rows from \<open>k\<close> on that fall into a slot.\<close>

definition slot_of :: "nat \<Rightarrow> cell \<Rightarrow> nat option" where
  "slot_of off c = map_option (\<lambda>v. wsub v off) (key_to_u64 c)"

definition slot_rows :: "nat \<Rightarrow> cell list \<Rightarrow> nat \<Rightarrow> nat \<Rightarrow> nat list" where
  "slot_rows off cs k idx = filter (\<lambda>i. slot_of off (cs ! i) = Some idx) [k..<length cs]"

definition full_next :: "nat \<Rightarrow> array_map \<Rightarrow> nat list" where
  "full_next len am = (if am_next am = [] then replicate len 0 else am_next am)"

definition am_inv :: "cell list \<Rightarrow> nat \<Rightarrow> array_map \<Rightarrow> bool" where
  "am_inv cs k am \<longleftrightarrow> length cs < 2 ^ 32 \<and> length (full_next (length cs) am) = length cs \<and>
     (\<forall>i < k. i < length cs \<longrightarrow> full_next (length cs) am ! i = 0) \<and>
     (\<forall>idx < length (am_data am).
        chain (full_next (length cs) am) (am_data am ! idx) (slot_rows (am_offset am) cs k idx) \<and>
        (am_next am = [] \<longrightarrow> length (slot_rows (am_offset am) cs k idx) \<le> 1)) \<and>
     (am_distinct am = 0 \<longleftrightarrow> (\<forall>idx < length (am_data am). am_data am ! idx = 0))"

lemma slot_rows_step:
  "k < length cs \<Longrightarrow>
     slot_rows off cs k idx = (if slot_of off (cs ! k) = Some idx then k # slot_rows off cs (k + 1) idx
                               else slot_rows off cs (k + 1) idx)"
  by (simp add: slot_rows_def upt_conv_Cons)

lemma slot_rows_above: "i \<in> set (slot_rows off cs k idx) \<Longrightarrow> k \<le> i"
  by (auto simp: slot_rows_def)

lemma full_next_nonempty: "am_next am \<noteq> [] \<Longrightarrow> full_next len am = am_next am"
  by (simp add: full_next_def)

lemma am_inv_skip:
  assumes "am_inv cs (k + 1) am" and "k < length cs" and "key_to_u64 (cs ! k) = None"
  shows "am_inv cs k am"
  using assms by (auto simp: am_inv_def slot_rows_step slot_of_def)

lemma am_inv_insert:
  assumes inv: "am_inv cs (k + 1) am" and k: "k < length cs" and key: "slot_of (am_offset am) (cs ! k) = Some idx"
    and idx: "idx < length (am_data am)"
    and am': "am' = (if am_data am ! idx \<noteq> 0 then am\<lparr>am_next := (full_next (length cs) am)[k := am_data am ! idx]\<rparr>
                     else am\<lparr>am_distinct := am_distinct am + 1\<rparr>)\<lparr>am_data := (am_data am)[idx := k + 1]\<rparr>"
  shows "am_inv cs k am'"
proof -
  let ?old = "full_next (length cs) am" and ?new = "full_next (length cs) am'"
  have len: "length ?old = length cs" and z: "?old ! k = 0" using inv k by (simp_all add: am_inv_def)
  have ch: "chain ?old (am_data am ! i) (slot_rows (am_offset am) cs (k + 1) i)" if "i < length (am_data am)" for i
    using inv that by (simp add: am_inv_def)
  have new: "?new = (if am_data am ! idx \<noteq> 0 then ?old[k := am_data am ! idx] else ?old)"
    using len k by (auto simp: am' full_next_def)
  have keep: "chain ?new i js" if "chain ?old i js" "k \<notin> set js" for i js
    using chain_update [OF that] that by (simp add: new)
  have old: "k \<notin> set (slot_rows (am_offset am) cs (k + 1) i)" for i using slot_rows_above by fastforce
  have data': "am_data am' = (am_data am)[idx := k + 1]" and off': "am_offset am' = am_offset am" by (simp_all add: am')
  have len': "length ?new = length cs" by (simp add: new len)
  have at: "?new ! k = am_data am ! idx" using len k z by (simp add: new)
  have "chain ?new (am_data am' ! i) (slot_rows (am_offset am) cs k i)" if "i < length (am_data am)" for i
  proof (cases "i = idx")
    case True
    have "chain ?new (Suc k) (k # slot_rows (am_offset am) cs (k + 1) idx)"
      using keep [OF ch [OF idx] old] k by (intro chain_more) (simp_all add: at len')
    with True key k idx show ?thesis by (simp add: slot_rows_step data')
  next
    case False
    with keep [OF ch [OF that] old] key k show ?thesis by (simp add: slot_rows_step data')
  qed
  moreover have "length (slot_rows (am_offset am) cs k i) \<le> 1" if "i < length (am_data am)" "am_next am' = []" for i
  proof -
    have "am_data am ! idx = 0" "am_next am = []" using that(2) len k by (auto simp: am' split: if_splits)
    with ch [OF idx] have "slot_rows (am_offset am) cs (k + 1) idx = []" by simp
    with inv that(1) \<open>am_next am = []\<close> k key show ?thesis by (auto simp: slot_rows_step am_inv_def)
  qed
  moreover have "\<forall>i < k. i < length cs \<longrightarrow> ?new ! i = 0" using inv by (auto simp: new am_inv_def)
  moreover have "am_distinct am' \<noteq> 0" using inv idx by (auto simp: am' am_inv_def)
  moreover have "length cs < 2 ^ 32" using inv by (simp add: am_inv_def)
  ultimately show ?thesis using idx unfolding am_inv_def off' by (auto simp: len' data')
qed

lemma rev_enumerate_Suc: "rev (enumerate 0 (take (Suc k) cs)) = (if k < length cs then [(k, cs ! k)] else []) @ rev (enumerate 0 (take k cs))"
  by (simp add: take_Suc_conv_app_nth enumerate_append_eq)

lemma fill_data_ok:
  assumes "am_inv cs k am" and "k \<le> length cs" and "length (am_data am) = n" and "am_offset am = off"
    and "\<And>i idx. i < length cs \<Longrightarrow> slot_of off (cs ! i) = Some idx \<Longrightarrow> idx < n"
  shows "\<exists>am'. fill_data (length cs) (rev (enumerate 0 (take k cs))) am = Inr am' \<and> am_inv cs 0 am'
           \<and> length (am_data am') = n \<and> am_offset am' = off"
  using assms(1-4)
proof (induction k arbitrary: am)
  case (Suc k)
  then have k: "k < length cs" and inv: "am_inv cs (k + 1) am" by simp_all
  show ?case
  proof (cases "key_to_u64 (cs ! k)")
    case None
    from Suc.IH [OF am_inv_skip [OF inv k None]] None k Suc.prems show ?thesis by (simp add: rev_enumerate_Suc)
  next
    case (Some v)
    define idx where "idx = wsub v (am_offset am)"
    have slot: "slot_of (am_offset am) (cs ! k) = Some idx" by (simp add: slot_of_def Some idx_def)
    then have idx: "idx < length (am_data am)" using assms(5) [OF k] Suc.prems by simp
    have u: "as_u32 (as_u32 k + 1) = k + 1" using inv k by (simp add: am_inv_def as_u32_def)
    define am' where "am' = (if am_data am ! idx \<noteq> 0 then am\<lparr>am_next := (full_next (length cs) am)[k := am_data am ! idx]\<rparr>
                     else am\<lparr>am_distinct := am_distinct am + 1\<rparr>)\<lparr>am_data := (am_data am)[idx := k + 1]\<rparr>"
    have "fill_data (length cs) (rev (enumerate 0 (take (Suc k) cs))) am =
        fill_data (length cs) (rev (enumerate 0 (take k cs))) am'"
      using k idx u by (simp add: rev_enumerate_Suc Some Let_def idx_def [symmetric] am'_def full_next_def)
    with Suc.IH [OF am_inv_insert [OF inv k slot idx am'_def]] k Suc.prems show ?thesis by (simp add: am'_def)
  qed
qed simp

section \<open>Lookup\<close>

definition array_candidates :: "array_map \<Rightarrow> cell list \<Rightarrow> cell \<Rightarrow> nat list" where
  "array_candidates am cs c =
     (case slot_of (am_offset am) c of
        None \<Rightarrow> []
      | Some idx \<Rightarrow> if idx < length (am_data am) then slot_rows (am_offset am) cs 0 idx else [])"

lemma array_head_ok:
  assumes "am_inv cs 0 am"
  shows "head_ok (full_next (length cs) am) (array_head am c) (array_candidates am cs c)"
proof (cases "key_to_u64 c")
  case (Some v)
  let ?idx = "wsub v (am_offset am)"
  have "chain (full_next (length cs) am) (am_data am ! ?idx) (slot_rows (am_offset am) cs 0 ?idx)"
    if "?idx < length (am_data am)" using assms that by (simp add: am_inv_def)
  with Some show ?thesis
    by (auto simp: head_ok_def array_head_def array_candidates_def slot_of_def Let_def)
qed (simp add: head_ok_def array_head_def array_candidates_def slot_of_def)

lemma array_heads:
  "am_inv cs 0 am \<Longrightarrow>
     list_all2 (head_ok (full_next (length cs) am)) (map (array_head am) ps) (map (array_candidates am cs) ps)"
  by (simp add: list_all2_conv_all_nth array_head_ok)

lemma array_follows:
  "follows (am_next am) (2 ^ 32) (map (array_head am) ps)
     (\<lambda>to_skip remaining out. array_chain_rows am (length ps) to_skip (drop to_skip ps) remaining out)"
  unfolding follows_def
proof (intro conjI allI impI)
  fix row k :: nat and out assume "row < length (map (array_head am) ps)" "0 < k"
  moreover from this have "drop row ps = ps ! row # drop (row + 1) ps" by (simp add: Cons_nth_drop_Suc)
  ultimately show "array_chain_rows am (length ps) row (drop row ps) k out =
      (case map (array_head am) ps ! row of
         None \<Rightarrow> array_chain_rows am (length ps) (row + 1) (drop (row + 1) ps) k out
       | Some i \<Rightarrow>
           (case traverse_chain (am_next am) (2 ^ 32) row i k out (row = length (map (array_head am) ps) - 1) of
              None \<Rightarrow> None
            | Some (Inl e) \<Rightarrow> Some (Inl e)
            | Some (Inr (out', remaining', Some next_offset)) \<Rightarrow> Some (Inr (out', Some next_offset))
            | Some (Inr (out', remaining', None)) \<Rightarrow>
                array_chain_rows am (length ps) (row + 1) (drop (row + 1) ps) remaining' out'))"
    by (cases "array_head am (ps ! row)") (simp_all split: option.split sum.split)
qed simp

text \<open>Without chains every key has at most one row, and the loop stops when the limit is reached.\<close>

lemma array_unique:
  assumes inv: "am_inv cs 0 am" and none: "am_next am = []" and "length ps \<le> 2 ^ 32"
    and "row \<le> length ps" and "length out \<le> limit"
  shows "\<exists>stop. row \<le> stop \<and> stop \<le> length ps \<and>
     (let out' = out @ concat (map (\<lambda>p. map (Pair p) (array_candidates am cs (ps ! p))) [row..<stop])
      in array_unique_rows am limit row (drop row ps) out = (out', if stop = length ps then None else Some (stop, None))
         \<and> length out' \<le> limit \<and> (stop < length ps \<longrightarrow> length out' = limit))"
  using assms(4,5)
proof (induction "length ps - row" arbitrary: row out)
  case 0
  then show ?case by (intro exI [of _ row]) simp
next
  case (Suc d)
  then have row: "row < length ps" by simp
  have drop: "drop row ps = ps ! row # drop (row + 1) ps" using row by (simp add: Cons_nth_drop_Suc)
  show ?case
  proof (cases "length out = limit")
    case True
    with row show ?thesis by (intro exI [of _ row]) (simp add: drop)
  next
    case False
    let ?js = "array_candidates am cs (ps ! row)"
    have js: "?js = (case array_head am (ps ! row) of None \<Rightarrow> [] | Some i \<Rightarrow> [i - 1])"
    proof (cases "array_head am (ps ! row)")
      case (Some i)
      then have "chain (full_next (length cs) am) i ?js" "?js \<noteq> []"
        using array_head_ok [OF inv, of "ps ! row"] by (simp_all add: head_ok_def)
      moreover have "length ?js \<le> 1"
        using inv none by (simp add: array_candidates_def am_inv_def split: option.split)
      ultimately obtain j where "?js = [j]" "i = Suc j" by (cases rule: chain.cases) auto
      with Some show ?thesis by simp
    qed (use array_head_ok [OF inv, of "ps ! row"] in \<open>simp add: head_ok_def\<close>)
    let ?out = "out @ map (Pair row) ?js"
    have step: "array_unique_rows am limit row (drop row ps) out = array_unique_rows am limit (row + 1) (drop (row + 1) ps) ?out"
      using False row assms(3) by (simp add: drop js as_u32_def split: option.split)
    have "length ?out \<le> limit" using False Suc.prems(2) by (simp add: js split: option.split)
    moreover have "d = length ps - (row + 1)" "row + 1 \<le> length ps" using Suc.hyps(2) row by simp_all
    ultimately obtain stop where
      stop: "row + 1 \<le> stop" "stop \<le> length ps"
      "let out' = ?out @ concat (map (\<lambda>p. map (Pair p) (array_candidates am cs (ps ! p))) [row + 1..<stop])
       in array_unique_rows am limit (row + 1) (drop (row + 1) ps) ?out = (out', if stop = length ps then None else Some (stop, None))
         \<and> length out' \<le> limit \<and> (stop < length ps \<longrightarrow> length out' = limit)" using Suc.hyps(1) by blast
    then show ?thesis
      using step upt_conv_Cons [of row stop] by (intro exI [of _ stop]) (simp add: Let_def)
  qed
qed

definition am_pending :: "array_map \<Rightarrow> cell list \<Rightarrow> map_offset \<Rightarrow> index_pairs \<Rightarrow> bool" where
  "am_pending am ps off xs \<longleftrightarrow> length ps \<le> 2 ^ 32 \<and>
     (\<exists>cs. am_inv cs 0 am \<and> pending (full_next (length cs) am) (map (array_candidates am cs) ps) off xs) \<and>
     (am_next am = [] \<longrightarrow> snd off = None)"

lemma am_lookup_chunk:
  assumes "am_pending am ps off xs" and "0 < limit" and "limit < 2 ^ 63"
  shows "chunk (am_pending am ps) limit off xs (lookup_and_get_indices am ps limit off)"
proof -
  obtain cs where inv: "am_inv cs 0 am" and p: "pending (full_next (length cs) am) (map (array_candidates am cs) ps) off xs"
    and len: "length ps \<le> 2 ^ 32" using assms(1) by (auto simp: am_pending_def)
  let ?cands = "map (array_candidates am cs) ps"
  show ?thesis
  proof (cases "am_next am = []")
    case True
    obtain row where off: "off = (row, None)" using assms(1) True by (cases off) (auto simp: am_pending_def)
    have row: "row \<le> length ps" "xs = pairs_from row ?cands" using p by (simp_all add: off pending_def)
    obtain stop where stop: "row \<le> stop" "stop \<le> length ps"
      "let out' = concat (map (\<lambda>p. map (Pair p) (array_candidates am cs (ps ! p))) [row..<stop])
       in array_unique_rows am limit row (drop row ps) [] = (out', if stop = length ps then None else Some (stop, None))
         \<and> length out' \<le> limit \<and> (stop < length ps \<longrightarrow> length out' = limit)"
      using array_unique [OF inv True len row(1), of "[]" limit] by auto
    define out' where "out' = concat (map (\<lambda>p. map (Pair p) (?cands ! p)) [row..<stop])"
    have "out' = concat (map (\<lambda>p. map (Pair p) (array_candidates am cs (ps ! p))) [row..<stop])"
      unfolding out'_def using stop(2) by (intro arg_cong [of _ _ concat] map_cong) auto
    with stop(3) have r: "lookup_and_get_indices am ps limit off =
        Some (Inr (out', if stop = length ps then None else Some (stop, None)))"
      and l: "length out' \<le> limit" "stop < length ps \<Longrightarrow> length out' = limit"
      using True by (simp_all add: lookup_and_get_indices_def off Let_def)
    have xs: "xs = out' @ pairs_from stop ?cands"
      unfolding row(2) out'_def using stop by (intro pairs_from_split) simp_all
    have "am_pending am ps (stop, None) (pairs_from stop ?cands)"
      using inv len stop(2) by (auto simp: am_pending_def pending_def)
    with r l xs stop(1,2) off assms(2) show ?thesis
      unfolding chunk_def by (cases "stop = length ps") auto
  next
    case False
    have nx: "full_next (length cs) am = am_next am" using False by (rule full_next_nonempty)
    have "length (am_next am) < 2 ^ 32" using inv nx by (simp add: am_inv_def)
    then have "chunk (pending (am_next am) ?cands) limit off xs (lookup_and_get_indices am ps limit off)"
      using resume_chunk [OF array_follows array_heads [OF inv, unfolded nx] _ _ p [unfolded nx] assms(2)] False len assms(3)
      by (simp add: lookup_and_get_indices_def usize_mod_def)
    then show ?thesis
      by (rule chunk_mono) (use inv len False nx in \<open>auto simp: am_pending_def\<close>)
  qed
qed

interpretation am: join_map "lookup_and_get_indices m ps" "am_pending m ps" "length ps" for m ps
proof
  show "am_pending m ps off xs \<Longrightarrow> 0 < limit \<Longrightarrow> limit < 2 ^ 63 \<Longrightarrow>
      chunk (am_pending m ps) limit off xs (lookup_and_get_indices m ps limit off)" for off xs limit
    by (rule am_lookup_chunk)
  show "am_pending m ps off xs \<Longrightarrow> fst off \<le> length ps" for off xs
    by (auto simp: am_pending_def pending_def split: option.splits prod.splits)
qed

section \<open>Keys as integers\<close>

text \<open>64-bit patterns tell signed 64-bit integers apart, and so do their distances from an offset.\<close>

definition is_i64 :: "int \<Rightarrow> bool" where
  "is_i64 i \<longleftrightarrow> - (2 ^ 63) \<le> i \<and> i < 2 ^ 63"

lemma int_as_usize: "int (as_usize i) = i mod 2 ^ 64"
  by (simp add: as_usize_def)

lemma int_slot: "int (wsub (as_usize i) (as_usize m)) = (i - m) mod 2 ^ 64"
proof -
  have "as_usize m < usize_mod" by (simp add: as_usize_def usize_mod_def nat_less_iff)
  from int_wsub [OF this, of "as_usize i"] show ?thesis
    by (simp add: int_as_usize usize_mod_def mod_diff_eq)
qed

lemma slot_range:
  assumes "is_i64 m" "is_i64 M" "m \<le> i" "i \<le> M"
  shows "wsub (as_usize i) (as_usize m) = nat (i - m)"
proof -
  have "(i - m) mod 2 ^ 64 = i - m" using assms by (intro mod_pos_pos_trivial) (auto simp: is_i64_def)
  with int_slot [of i m] show ?thesis by linarith
qed

lemma slot_inj:
  assumes "is_i64 i" "is_i64 j"
  shows "wsub (as_usize i) (as_usize m) = wsub (as_usize j) (as_usize m) \<longleftrightarrow> i = j"
proof
  assume "wsub (as_usize i) (as_usize m) = wsub (as_usize j) (as_usize m)"
  then have "(i - m) mod 2 ^ 64 = (j - m) mod 2 ^ 64" by (metis int_slot)
  then have "(2 ^ 64 :: int) dvd i - j" by (simp add: mod_eq_dvd_iff)
  moreover have "\<bar>i - j\<bar> < 2 ^ 64" using assms by (auto simp: is_i64_def)
  ultimately show "i = j" using zdvd_not_zless [of "\<bar>i - j\<bar>"] by fastforce
qed simp

fun int_cell :: "cell \<Rightarrow> bool" where
  "int_cell CNull = True"
| "int_cell (CInt i) = is_i64 i"
| "int_cell _ = False"

definition keys_within :: "int \<Rightarrow> int \<Rightarrow> cell list \<Rightarrow> bool" where
  "keys_within m M cs \<longleftrightarrow> is_i64 m \<and> is_i64 M \<and> M - m < 2 ^ 64 - 1 \<and> (\<forall>c \<in> set cs. int_cell c) \<and>
     (\<forall>i. CInt i \<in> set cs \<longrightarrow> m \<le> i \<and> i \<le> M)"

definition equal_key_rows :: "cell list \<Rightarrow> cell \<Rightarrow> nat list" where
  "equal_key_rows cs c = (if c = CNull then [] else filter (\<lambda>i. cs ! i = c) [0..<length cs])"

lemma slot_of_eq:
  assumes "keys_within m M cs" and "i < length cs" and "is_i64 v"
  shows "slot_of (as_usize m) (cs ! i) = Some (wsub (as_usize v) (as_usize m)) \<longleftrightarrow> cs ! i = CInt v"
proof -
  have "cs ! i \<in> set cs" using assms(2) by simp
  then have "int_cell (cs ! i)" using assms(1) by (auto simp: keys_within_def)
  then show ?thesis using assms(3) by (cases "cs ! i") (auto simp: slot_of_def slot_inj)
qed

lemma array_candidates_eq:
  assumes w: "keys_within m M cs" and am: "am_offset am = as_usize m" "length (am_data am) = nat (M - m) + 1"
    and c: "int_cell c"
  shows "array_candidates am cs c = equal_key_rows cs c"
proof (cases c)
  case (CInt v)
  then have v: "is_i64 v" using c by simp
  let ?idx = "wsub (as_usize v) (as_usize m)"
  have rows: "slot_rows (as_usize m) cs 0 ?idx = filter (\<lambda>i. cs ! i = CInt v) [0..<length cs]"
    unfolding slot_rows_def using slot_of_eq [OF w _ v] by (intro filter_cong) auto
  have "filter (\<lambda>i. cs ! i = CInt v) [0..<length cs] = []" if "\<not> ?idx < length (am_data am)"
  proof -
    have "\<not> (m \<le> v \<and> v \<le> M)" using that am(2) w slot_range [of m M v] by (auto simp: keys_within_def)
    then have "CInt v \<notin> set cs" using w by (auto simp: keys_within_def)
    then show ?thesis by (auto simp: filter_empty_conv in_set_conv_nth)
  qed
  with rows show ?thesis by (simp add: array_candidates_def CInt slot_of_def am(1) equal_key_rows_def)
qed (use c in \<open>simp_all add: array_candidates_def slot_of_def equal_key_rows_def\<close>)

lemma array_map_try_new_ok:
  assumes w: "keys_within m M cs" and "is_supported_type t" and "length cs < 2 ^ 32" and "m \<le> M"
  shows "\<exists>am. array_map_try_new (t, cs) (as_usize m) (as_usize M) = Inr am \<and> am_inv cs 0 am
           \<and> am_offset am = as_usize m \<and> length (am_data am) = nat (M - m) + 1"
proof -
  have r: "wsub (as_usize M) (as_usize m) = nat (M - m)" using slot_range [of m M M] w assms(4) by (auto simp: keys_within_def)
  define am0 where "am0 = \<lparr>am_data = replicate (nat (M - m) + 1) 0, am_offset = as_usize m, am_next = [], am_distinct = 0\<rparr>"
  have "am_inv cs (length cs) am0"
    using assms(3) by (simp add: am_inv_def am0_def full_next_def slot_rows_def nth_append del: replicate.simps)
  moreover have "idx < nat (M - m) + 1" if i: "i < length cs" and slot: "slot_of (as_usize m) (cs ! i) = Some idx" for i idx
  proof -
    have mem: "cs ! i \<in> set cs" using i by simp
    obtain v where v: "cs ! i = CInt v" "m \<le> v" "v \<le> M" "idx = wsub (as_usize v) (as_usize m)"
      using w slot mem by (cases "cs ! i" rule: cell.exhaust) (auto simp: keys_within_def slot_of_def)
    with slot_range [of m M v] w show ?thesis by (auto simp: keys_within_def)
  qed
  ultimately obtain am where "fill_data (length cs) (rev (enumerate 0 cs)) am0 = Inr am" "am_inv cs 0 am"
      "length (am_data am) = nat (M - m) + 1" "am_offset am = as_usize m"
    using fill_data_ok [of cs "length cs" am0 "nat (M - m) + 1" "as_usize m"] by (auto simp: am0_def)
  moreover have "\<not> usize_max \<le> nat (M - m)" using w by (auto simp: keys_within_def usize_max_def usize_mod_def)
  ultimately show ?thesis using r assms(2) by (simp add: array_map_try_new_def am0_def)
qed

section \<open>Properties\<close>

text \<open>C12. The dense map agrees with equality of keys: built over an array of 64-bit integer
  keys and nulls between its smallest and largest key, and looked up until no offset is
  left, it yields for each probe key exactly the rows that hold this key, in order, and
  nothing for a null. Signed keys are handled through their unsigned patterns, and a probe
  key outside the range finds nothing.\<close>

theorem array_map_complete:
  assumes "keys_within m M cs" and "m \<le> M" and "is_supported_type t" and "is_supported_type t'"
    and "length cs < 2 ^ 32" and "length ps \<le> 2 ^ 32" and "\<And>c. c \<in> set ps \<Longrightarrow> int_cell c"
    and "0 < limit" and "limit < 2 ^ 63"
  shows "\<exists>am outs. array_map_try_new (t, cs) (as_usize m) (as_usize M) = Inr am
     \<and> drained (array_get_matched_indices am [(t', ps)] limit) (0, None) outs
     \<and> (\<forall>out \<in> set outs. length out \<le> limit)
     \<and> concat outs = concat (map (\<lambda>p. map (Pair p) (equal_key_rows cs (ps ! p))) [0..<length ps])"
proof -
  obtain am where am: "array_map_try_new (t, cs) (as_usize m) (as_usize M) = Inr am" "am_inv cs 0 am"
    "am_offset am = as_usize m" "length (am_data am) = nat (M - m) + 1"
    using array_map_try_new_ok [OF assms(1,3,5,2)] by blast
  let ?xs = "concat (map (\<lambda>p. map (Pair p) (equal_key_rows cs (ps ! p))) [0..<length ps])"
  have "pairs_from 0 (map (array_candidates am cs) ps) = ?xs"
    using array_candidates_eq [OF assms(1) am(3,4)] assms(7)
    by (auto simp: pairs_from_def intro!: arg_cong [of _ _ concat])
  then have "am_pending am ps (0, None) ?xs"
    using am(2) assms(6) by (auto simp: am_pending_def pending_def)
  from am.drains [OF this assms(8,9)] am(1) assms(4) show ?thesis
    by (auto simp: array_get_matched_indices_def [abs_def])
qed

theorem array_map_complete_witness:
  "\<exists>am outs. array_map_try_new (Int32, [CInt 3, CNull, CInt (-2), CInt 3]) (as_usize (-2)) (as_usize 3) = Inr am
     \<and> drained (array_get_matched_indices am [(Int64, [CInt 3, CNull, CInt 9])] 1) (0, None) outs
     \<and> concat outs = [(0, 0), (0, 3)]"
proof -
  let ?cs = "[CInt 3, CNull, CInt (-2), CInt 3]" and ?ps = "[CInt 3, CNull, CInt 9]"
  have pairs: "concat (map (\<lambda>p. map (Pair p) (equal_key_rows ?cs (?ps ! p))) [0..<length ?ps]) = [(0, 0), (0, 3)]"
    by code_simp
  have "\<exists>am outs. array_map_try_new (Int32, ?cs) (as_usize (-2)) (as_usize 3) = Inr am
     \<and> drained (array_get_matched_indices am [(Int64, ?ps)] 1) (0, None) outs
     \<and> (\<forall>out \<in> set outs. length out \<le> 1)
     \<and> concat outs = concat (map (\<lambda>p. map (Pair p) (equal_key_rows ?cs (?ps ! p))) [0..<length ?ps])"
    by (rule array_map_complete) (auto simp: keys_within_def is_i64_def)
  then show ?thesis unfolding pairs by blast
qed

end
