(* ===== verification/JoinIndices.thy ===== *)
theory JoinIndices
  imports JoinHashMap "HOL-Library.Multiset"
begin

text \<open>
  The index arithmetic of a hash join, \<open>physical-plan/src/joins/utils.rs\<close>: how the matched
  pairs of one lookup become the output of each join type, and what is emitted at the end
  from the bitmap of visited rows. An index array has nulls; a bitmap is a list of bits. A
  range that starts after its end is empty.
\<close>

section \<open>Definitions\<close>

type_synonym index_array = "nat option list"

type_synonym range = "nat \<times> nat"

definition need_produce_right_in_final :: "join_type \<Rightarrow> bool" where
  "need_produce_right_in_final t \<longleftrightarrow> t \<in> {Full, Right, RightAnti, RightMark, RightSemi}"

definition need_produce_result_in_final :: "join_type \<Rightarrow> bool" where
  "need_produce_result_in_final t \<longleftrightarrow> t \<in> {Left, LeftAnti, LeftSemi, LeftMark, Full}"

definition get_final_indices_from_bit_map :: "bool list \<Rightarrow> join_type \<Rightarrow> bool \<Rightarrow> index_array \<times> index_array" where
  "get_final_indices_from_bit_map left_bit_map t piecewise =
     (let left_size = length left_bit_map
      in if t = LeftMark \<or> t = RightMark \<and> piecewise
         then (map Some [0..<left_size], map (\<lambda>b. if b then Some 0 else None) left_bit_map)
         else let left_indices =
                    (if t = LeftSemi \<or> t = RightSemi \<and> piecewise
                     then map Some (filter (\<lambda>i. left_bit_map ! i) [0..<left_size])
                     else map Some (filter (\<lambda>i. \<not> left_bit_map ! i) [0..<left_size]))
              in (left_indices, replicate (length left_indices) None))"

definition range_len :: "range \<Rightarrow> nat" where
  "range_len r = snd r - fst r"

definition in_range :: "nat \<Rightarrow> range \<Rightarrow> bool" where
  "in_range i r \<longleftrightarrow> fst r \<le> i \<and> i < snd r"

fun set_range_bits :: "range \<Rightarrow> index_array \<Rightarrow> bool list \<Rightarrow> bool list" where
  "set_range_bits r [] bits = bits"
| "set_range_bits r (None # input) bits = set_range_bits r input bits"
| "set_range_bits r (Some i # input) bits =
     set_range_bits r input (if in_range i r then bits[i - fst r := True] else bits)"

definition build_range_bitmap :: "range \<Rightarrow> index_array \<Rightarrow> bool list" where
  "build_range_bitmap r input = set_range_bits r input (replicate (range_len r) False)"

definition get_anti_indices :: "range \<Rightarrow> index_array \<Rightarrow> index_array" where
  "get_anti_indices r input =
     (let bitmap = build_range_bitmap r input
      in map Some (filter (\<lambda>i. \<not> bitmap ! (i - fst r)) [fst r..<snd r]))"

definition get_semi_indices :: "range \<Rightarrow> index_array \<Rightarrow> index_array" where
  "get_semi_indices r input =
     (let bitmap = build_range_bitmap r input
      in map Some (filter (\<lambda>i. bitmap ! (i - fst r)) [fst r..<snd r]))"

definition get_mark_indices :: "range \<Rightarrow> index_array \<Rightarrow> index_array" where
  "get_mark_indices r input = map (\<lambda>b. if b then Some 0 else None) (build_range_bitmap r input)"

text \<open>The values of an index array, whatever its null bits say.\<close>

definition raw_values :: "index_array \<Rightarrow> nat list" where
  "raw_values xs = map (\<lambda>x. case x of None \<Rightarrow> 0 | Some v \<Rightarrow> v) xs"

fun in_order_loop :: "nat \<Rightarrow> (nat \<times> nat) list \<Rightarrow> index_array \<times> index_array \<Rightarrow> nat \<times> index_array \<times> index_array" where
  "in_order_loop prev_index [] (new_build, new_probe) = (prev_index, new_build, new_probe)"
| "in_order_loop prev_index ((build_index, probe_index) # rest) (new_build, new_probe) =
     in_order_loop (as_u32 (probe_index + 1)) rest
       (new_build @ replicate (probe_index - prev_index) None @ [Some build_index],
        new_probe @ map Some [prev_index..<probe_index] @ [Some probe_index])"

definition append_probe_indices_in_order :: "index_array \<Rightarrow> index_array \<Rightarrow> range \<Rightarrow> index_array \<times> index_array" where
  "append_probe_indices_in_order build_indices probe_indices r =
     (let (prev_index, new_build, new_probe) =
            in_order_loop (as_u32 (fst r)) (zip (raw_values build_indices) (raw_values probe_indices)) ([], [])
      in (new_build @ replicate (as_u32 (snd r) - prev_index) None,
          new_probe @ map Some [prev_index..<as_u32 (snd r)]))"

definition append_right_indices :: "index_array \<Rightarrow> index_array \<Rightarrow> range \<Rightarrow> bool \<Rightarrow> index_array \<times> index_array" where
  "append_right_indices left_indices right_indices r preserve_order_for_right =
     (if preserve_order_for_right then append_probe_indices_in_order left_indices right_indices r
      else let right_unmatched_indices = get_anti_indices r right_indices
           in if right_unmatched_indices = [] then (left_indices, right_indices)
              else (left_indices @ replicate (length right_unmatched_indices) None,
                    right_indices @ right_unmatched_indices))"

definition adjust_indices_by_join_type ::
  "index_array \<Rightarrow> index_array \<Rightarrow> range \<Rightarrow> join_type \<Rightarrow> bool \<Rightarrow> index_array \<times> index_array" where
  "adjust_indices_by_join_type left_indices right_indices r t preserve_order_for_right =
     (case t of
        Inner \<Rightarrow> (left_indices, right_indices)
      | Left \<Rightarrow> (left_indices, right_indices)
      | Right \<Rightarrow> append_right_indices left_indices right_indices r preserve_order_for_right
      | Full \<Rightarrow> append_right_indices left_indices right_indices r False
      | RightSemi \<Rightarrow> (left_indices, get_semi_indices r right_indices)
      | RightAnti \<Rightarrow> (left_indices, get_anti_indices r right_indices)
      | RightMark \<Rightarrow> (map Some [fst r..<snd r], get_mark_indices r right_indices)
      | LeftSemi \<Rightarrow> ([], [])
      | LeftAnti \<Rightarrow> ([], [])
      | LeftMark \<Rightarrow> ([], []))"

section \<open>Bitmaps\<close>

lemma length_set_range_bits [simp]: "length (set_range_bits r input bits) = length bits"
  by (induction r input bits rule: set_range_bits.induct) auto

lemma set_range_bits_nth:
  "k < length bits \<Longrightarrow> length bits = range_len r \<Longrightarrow>
     set_range_bits r input bits ! k \<longleftrightarrow> bits ! k \<or> Some (fst r + k) \<in> set input"
  by (induction r input bits rule: set_range_bits.induct)
     (auto simp: in_range_def range_len_def nth_list_update split: if_splits)

lemma length_build_range_bitmap [simp]: "length (build_range_bitmap r input) = range_len r"
  by (simp add: build_range_bitmap_def)

lemma build_range_bitmap_nth:
  "k < range_len r \<Longrightarrow> build_range_bitmap r input ! k \<longleftrightarrow> Some (fst r + k) \<in> set input"
  by (simp add: build_range_bitmap_def set_range_bits_nth)

lemma bitmap_at:
  "i \<in> set [fst r..<snd r] \<Longrightarrow> build_range_bitmap r input ! (i - fst r) \<longleftrightarrow> Some i \<in> set input"
  by (auto simp: build_range_bitmap_nth range_len_def)

lemma get_anti_indices_eq:
  "get_anti_indices r input = map Some (filter (\<lambda>i. Some i \<notin> set input) [fst r..<snd r])"
  unfolding get_anti_indices_def Let_def by (intro arg_cong [of _ _ "map Some"] filter_cong) (auto simp: bitmap_at)

lemma get_semi_indices_eq:
  "get_semi_indices r input = map Some (filter (\<lambda>i. Some i \<in> set input) [fst r..<snd r])"
  unfolding get_semi_indices_def Let_def by (intro arg_cong [of _ _ "map Some"] filter_cong) (auto simp: bitmap_at)

lemma get_mark_indices_eq:
  "get_mark_indices r input = map (\<lambda>i. if Some i \<in> set input then Some 0 else None) [fst r..<snd r]"
  by (rule nth_equalityI) (auto simp: get_mark_indices_def build_range_bitmap_nth range_len_def)

section \<open>Alignment\<close>

text \<open>
  The range of probe rows that a chunk of matches accounts for, \<open>process_probe_batch\<close> in
  \<open>hash_join/stream.rs\<close>: from the row after the last one joined before to the last one
  joined in this chunk, or to the end of the batch when this is the last chunk.
\<close>

definition last_joined :: "index_pairs \<Rightarrow> nat option" where
  "last_joined m = (if m = [] then None else Some (fst (last m)))"

definition alignment_range :: "nat option \<Rightarrow> bool \<Rightarrow> nat \<Rightarrow> nat option \<Rightarrow> range" where
  "alignment_range joined_probe_idx exhausted n last_joined_right_idx =
     ((case joined_probe_idx of None \<Rightarrow> 0 | Some v \<Rightarrow> v + 1),
      if exhausted then n else (case last_joined_right_idx of None \<Rightarrow> 0 | Some v \<Rightarrow> v + 1))"

definition advance_joined :: "nat option \<Rightarrow> nat option \<Rightarrow> nat option" where
  "advance_joined joined_probe_idx last_joined_right_idx =
     (if last_joined_right_idx = None then joined_probe_idx else last_joined_right_idx)"

fun aligned :: "nat \<Rightarrow> nat option \<Rightarrow> index_pairs list \<Rightarrow> (index_pairs \<times> range) list" where
  "aligned n joined [] = []"
| "aligned n joined [m] = [(m, alignment_range joined True n (last_joined m))]"
| "aligned n joined (m # m2 # ms) =
     (m, alignment_range joined False n (last_joined m)) # aligned n (advance_joined joined (last_joined m)) (m2 # ms)"

lemma map_fst_aligned [simp]: "map fst (aligned n joined ms) = ms"
  by (induction n joined ms rule: aligned.induct) auto

text \<open>The ranges cut the rest of the batch, and a chunk tells which rows of its range match.\<close>

definition row_from :: "nat option \<Rightarrow> nat" where
  "row_from joined = (case joined of None \<Rightarrow> 0 | Some v \<Rightarrow> v + 1)"

lemma aligned_rows:
  assumes "ms \<noteq> []" and "sorted (map fst (concat ms))" and "\<forall>p \<in> fst ` set (concat ms). row_from joined \<le> p + 1 \<and> p < n"
    and "row_from joined \<le> n"
  shows "concat (map (\<lambda>(m, r). map (\<lambda>i. (i, i \<in> fst ` set m)) [fst r..<snd r]) (aligned n joined ms)) =
         map (\<lambda>i. (i, i \<in> fst ` set (concat ms))) [row_from joined..<n]"
  using assms
proof (induction n joined ms rule: aligned.induct)
  case (2 n joined m)
  then show ?case by (simp add: alignment_range_def row_from_def)
next
  case (3 n joined m m2 ms)
  let ?rest = "concat (m2 # ms)"
  show ?case
  proof (cases "m = []")
    case True
    with 3 show ?thesis by (simp add: alignment_range_def advance_joined_def last_joined_def row_from_def)
  next
    case False
    define e where "e = fst (last m) + 1"
    have e: "advance_joined joined (last_joined m) = Some (e - 1)" "row_from (Some (e - 1)) = e"
      using False by (simp_all add: advance_joined_def last_joined_def e_def row_from_def)
    have r: "alignment_range joined False n (last_joined m) = (row_from joined, e)"
      using False by (simp add: alignment_range_def last_joined_def e_def row_from_def)
    have last: "last m \<in> set m" using False by simp
    have "sorted (map fst m @ map fst ?rest)" using 3(3) by simp
    then have ord: "\<forall>p \<in> fst ` set m. \<forall>q \<in> fst ` set ?rest. p \<le> q" unfolding sorted_append set_map by blast
    have above: "\<forall>p \<in> fst ` set ?rest. e \<le> p + 1"
    proof
      fix p assume "p \<in> fst ` set ?rest"
      moreover have "fst (last m) \<in> fst ` set m" using last by (rule imageI)
      ultimately have "fst (last m) \<le> p" using ord by blast
      then show "e \<le> p + 1" by (simp add: e_def)
    qed
    have "fst (last m) \<in> fst ` set (concat (m # m2 # ms))" using last by (intro imageI) simp
    from bspec [OF 3(4) this] have below: "e \<le> n" "row_from joined \<le> e" by (simp_all add: e_def)
    have same: "i \<in> fst ` set m \<longleftrightarrow> i \<in> fst ` set (concat (m # m2 # ms))" if "i < e" for i
    proof -
      have "i \<in> fst ` set m" if "i \<in> fst ` set ?rest"
      proof -
        have "e \<le> i + 1" using above that by (rule bspec)
        then have "i = fst (last m)" using \<open>i < e\<close> by (simp add: e_def)
        then show ?thesis using last by simp
      qed
      then show ?thesis by auto
    qed
    have later: "i \<in> fst ` set ?rest \<longleftrightarrow> i \<in> fst ` set (concat (m # m2 # ms))" if "e \<le> i" for i
    proof -
      have "fst x < e" if "x \<in> set m" for x
      proof -
        have "sorted (map fst m)" using 3(3) by (simp add: sorted_append)
        with that show ?thesis
          by (cases m rule: rev_cases) (auto simp: e_def sorted_append less_Suc_eq_le)
      qed
      with that have "i \<notin> fst ` set m" by (metis image_iff leD)
      then show ?thesis by auto
    qed
    have IH: "concat (map (\<lambda>(m, r). map (\<lambda>i. (i, i \<in> fst ` set m)) [fst r..<snd r]) (aligned n (Some (e - 1)) (m2 # ms))) =
         map (\<lambda>i. (i, i \<in> fst ` set ?rest)) [e..<n]"
      using 3(1) 3(3,4) above below(1) unfolding e by (simp add: sorted_append)
    have "[row_from joined..<n] = [row_from joined..<e] @ [e..<n]"
      using upt_add_eq_append [OF below(2), of "n - e"] below(1) by simp
    with IH r same later show ?thesis by (simp add: e(1))
  qed
qed simp

section \<open>Outer joins\<close>

text \<open>Matched pairs as index pairs, build side first, and unmatched probe rows.\<close>

definition matched :: "index_pairs \<Rightarrow> (nat option \<times> nat option) list" where
  "matched m = map (\<lambda>(p, j). (Some j, Some p)) m"

definition unmatched :: "nat list \<Rightarrow> (nat option \<times> nat option) list" where
  "unmatched is = map (\<lambda>i. (None, Some i)) is"

lemma matched_zip: "zip (map (Some \<circ> snd) m) (map (Some \<circ> fst) m) = matched m"
  by (induction m) (auto simp: matched_def)

lemma matched_append [simp]: "matched (m @ m') = matched m @ matched m'"
  by (simp add: matched_def)

lemma unmatched_append [simp]: "unmatched (a @ b) = unmatched a @ unmatched b"
  by (simp add: unmatched_def)

lemma zip_unmatched [simp]: "zip (replicate (length is) None) (map Some is) = unmatched is"
  by (induction "is") (auto simp: unmatched_def)

lemma zip_unmatched_upt [simp]: "zip (replicate (b - a) None) (map Some [a..<b]) = unmatched [a..<b]"
  using zip_unmatched [of "[a..<b]"] by simp

text \<open>Inserting the unmatched rows in order emits the pairs of appending them.\<close>

lemma in_order_loop_pairs:
  assumes "sorted (map fst m)" and "\<forall>p \<in> fst ` set m. prev \<le> p + 1 \<and> p < stop" and "stop < 2 ^ 32"
    and "length a = length b"
  shows "\<exists>prev' a' b'. in_order_loop prev (zip (map snd m) (map fst m)) (a, b) = (prev', a', b') \<and> length a' = length b' \<and>
           mset (zip a' b' @ unmatched [prev'..<stop]) =
           mset (zip a b @ matched m @ unmatched (filter (\<lambda>i. i \<notin> fst ` set m) [prev..<stop]))"
  using assms
proof (induction m arbitrary: prev a b)
  case Nil
  then show ?case by (simp add: matched_def)
next
  case (Cons x m)
  obtain p j where x: "x = (p, j)" by (cases x)
  let ?a = "a @ replicate (p - prev) None @ [Some j]" and ?b = "b @ map Some [prev..<p] @ [Some p]"
  have p: "prev \<le> p + 1" "p < stop" "as_u32 (p + 1) = p + 1" using Cons.prems(2,3) by (auto simp: x as_u32_def)
  have above: "\<forall>q \<in> fst ` set m. p \<le> q" using Cons.prems(1) by (simp add: x)
  have step: "in_order_loop prev (zip (map snd (x # m)) (map fst (x # m))) (a, b) =
      in_order_loop (p + 1) (zip (map snd m) (map fst m)) (?a, ?b)"
    using p(3) by (simp add: x)
  have rest: "filter (\<lambda>i. i \<notin> fst ` set (x # m)) [prev..<stop] = [prev..<p] @ filter (\<lambda>i. i \<notin> fst ` set m) [p + 1..<stop]"
  proof (cases "prev \<le> p")
    case True
    have "[prev..<stop] = [prev..<p] @ p # [p + 1..<stop]"
      using True p(2) upt_add_eq_append [OF True, of "stop - p"] by (simp add: upt_conv_Cons)
    moreover have "filter (\<lambda>i. i \<notin> fst ` set (x # m)) [prev..<p] = [prev..<p]"
      using above by (auto simp: filter_id_conv x)
    moreover have "filter (\<lambda>i. i \<notin> fst ` set (x # m)) [p + 1..<stop] = filter (\<lambda>i. i \<notin> fst ` set m) [p + 1..<stop]"
      by (intro filter_cong) (auto simp: x)
    ultimately show ?thesis by (simp add: x)
  next
    case False
    then have "prev = p + 1" using p(1) by simp
    then show ?thesis by (auto simp: x intro!: filter_cong)
  qed
  have "\<exists>prev' a' b'. in_order_loop (p + 1) (zip (map snd m) (map fst m)) (?a, ?b) = (prev', a', b') \<and> length a' = length b' \<and>
      mset (zip a' b' @ unmatched [prev'..<stop]) =
      mset (zip ?a ?b @ matched m @ unmatched (filter (\<lambda>i. i \<notin> fst ` set m) [p + 1..<stop]))"
    by (rule Cons.IH) (use Cons.prems above p in auto)
  then show ?case unfolding step rest using Cons.prems(4) by (simp add: x matched_def ac_simps)
qed

lemma append_right_pairs:
  assumes "sorted (map fst m)" and "\<forall>p \<in> fst ` set m. fst r \<le> p + 1 \<and> p < snd r"
    and "fst r < 2 ^ 32" "snd r < 2 ^ 32"
    and ab: "append_right_indices (map (Some \<circ> snd) m) (map (Some \<circ> fst) m) r preserve = (a, b)"
  shows "length a = length b \<and>
    mset (zip a b) = mset (matched m @ unmatched (filter (\<lambda>i. i \<notin> fst ` set m) [fst r..<snd r]))"
proof (cases preserve)
  case True
  obtain prev' a' b' where l: "in_order_loop (fst r) (zip (map snd m) (map fst m)) ([], []) = (prev', a', b')"
    "length a' = length b'" "mset (zip a' b' @ unmatched [prev'..<snd r]) =
      mset (matched m @ unmatched (filter (\<lambda>i. i \<notin> fst ` set m) [fst r..<snd r]))"
    using in_order_loop_pairs [OF assms(1,2,4), of "[]" "[]"] by auto
  have "raw_values (map (Some \<circ> f) m) = map f m" for f :: "nat \<times> nat \<Rightarrow> nat" by (simp add: raw_values_def)
  then have "a = a' @ replicate (snd r - prev') None" "b = b' @ map Some [prev'..<snd r]"
    using ab True l(1) assms(3,4) by (simp_all add: append_right_indices_def append_probe_indices_in_order_def as_u32_def)
  with l(2,3) show ?thesis by simp
next
  case False
  have anti: "get_anti_indices r (map (Some \<circ> fst) m) = map Some (filter (\<lambda>i. i \<notin> fst ` set m) [fst r..<snd r])"
    by (simp add: get_anti_indices_eq image_iff)
  then have "a = map (Some \<circ> snd) m @ replicate (length (filter (\<lambda>i. i \<notin> fst ` set m) [fst r..<snd r])) None"
    "b = map (Some \<circ> fst) m @ map Some (filter (\<lambda>i. i \<notin> fst ` set m) [fst r..<snd r])"
    using ab False by (auto simp: append_right_indices_def Let_def split: if_splits)
  then show ?thesis by (simp add: matched_zip)
qed

end
