(* ===== verification/BatchCoalescer.thy ===== *)
theory BatchCoalescer
  imports Plan
begin

text \<open>
  The output buffer of a join, \<open>physical-plan/src/coalesce/mod.rs\<close>: Arrow's batch coalescer
  with a limit on the number of rows. Arrow's coalescer is a parameter, the record of its
  methods; what it documents is stated over the batches it has completed and the rows it
  still buffers.
\<close>

section \<open>Arrow's coalescer\<close>

record 'c coalescer_ops =
  co_new :: "schema \<Rightarrow> nat \<Rightarrow> nat option \<Rightarrow> 'c"
  co_push :: "batch \<Rightarrow> 'c \<Rightarrow> 'c res"
  co_finish_buffered :: "'c \<Rightarrow> 'c res"
  co_next_completed :: "'c \<Rightarrow> (batch \<times> 'c) option"
  co_is_empty :: "'c \<Rightarrow> bool"

text \<open>
  \<open>ct\<close> gives the column types of a coalescer, \<open>done\<close> its completed batches in order and
  \<open>held\<close> the rows it buffers. Batches of these types are taken without loss and in order,
  finishing completes the buffered rows, and completed batches come out first in, first out.
\<close>

definition coalescer_spec ::
  "'c coalescer_ops \<Rightarrow> ('c \<Rightarrow> data_type list) \<Rightarrow> ('c \<Rightarrow> batch list) \<Rightarrow> ('c \<Rightarrow> row list) \<Rightarrow> bool" where
  "coalescer_spec co ct completed held \<longleftrightarrow>
     (\<forall>sch n big. ct (co_new co sch n big) = map field_type (schema_fields sch)
        \<and> completed (co_new co sch n big) = [] \<and> held (co_new co sch n big) = []) \<and>
     (\<forall>b c. col_types b = ct c \<longrightarrow> (\<exists>c'. co_push co b c = Inr c' \<and> ct c' = ct c
        \<and> flat_rows (completed c') @ held c' = flat_rows (completed c) @ held c @ rows b)) \<and>
     (\<forall>c. \<exists>c'. co_finish_buffered co c = Inr c' \<and> ct c' = ct c \<and> held c' = []
        \<and> flat_rows (completed c') = flat_rows (completed c) @ held c) \<and>
     (\<forall>c. case completed c of
            [] \<Rightarrow> co_next_completed co c = None
          | b # bs \<Rightarrow> (\<exists>c'. co_next_completed co c = Some (b, c') \<and> completed c' = bs \<and> held c' = held c \<and> ct c' = ct c)) \<and>
     (\<forall>c. co_is_empty co c \<longleftrightarrow> completed c = [] \<and> held c = [])"

section \<open>LimitedBatchCoalescer\<close>

record 'c limited_coalescer =
  lc_inner :: 'c
  lc_total_rows :: nat
  lc_fetch :: "nat option"
  lc_finished :: bool

datatype push_status = PushContinue | LimitReached

definition lc_new :: "'c coalescer_ops \<Rightarrow> schema \<Rightarrow> nat \<Rightarrow> nat option \<Rightarrow> 'c limited_coalescer" where
  "lc_new co sch target_batch_size fetch =
     \<lparr>lc_inner = co_new co sch target_batch_size (Some (target_batch_size div 2)),
      lc_total_rows = 0, lc_fetch = fetch, lc_finished = False\<rparr>"

definition slice :: "batch \<Rightarrow> nat \<Rightarrow> nat \<Rightarrow> batch" where
  "slice b offset len = b\<lparr>rows := take len (drop offset (rows b))\<rparr>"

definition lc_push_batch ::
  "'c coalescer_ops \<Rightarrow> batch \<Rightarrow> 'c limited_coalescer \<Rightarrow> (push_status \<times> 'c limited_coalescer) res" where
  "lc_push_batch co b lc =
     (if lc_finished lc then Inl (Internal ''LimitedBatchCoalescer: cannot push batch after finish'')
      else case lc_fetch lc of
             Some fetch \<Rightarrow>
               if fetch \<le> lc_total_rows lc then Inr (LimitReached, lc)
               else if fetch \<le> wadd (lc_total_rows lc) (num_rows b)
               then let batch_head = slice b 0 (fetch - lc_total_rows lc)
                    in bind_res (co_push co batch_head (lc_inner lc)) (\<lambda>c.
                         Inr (LimitReached, lc\<lparr>lc_total_rows := wadd (lc_total_rows lc) (num_rows batch_head), lc_inner := c\<rparr>))
               else bind_res (co_push co b (lc_inner lc)) (\<lambda>c.
                      Inr (PushContinue, lc\<lparr>lc_total_rows := wadd (lc_total_rows lc) (num_rows b), lc_inner := c\<rparr>))
           | None \<Rightarrow>
               bind_res (co_push co b (lc_inner lc)) (\<lambda>c.
                 Inr (PushContinue, lc\<lparr>lc_total_rows := wadd (lc_total_rows lc) (num_rows b), lc_inner := c\<rparr>)))"

definition lc_is_empty :: "'c coalescer_ops \<Rightarrow> 'c limited_coalescer \<Rightarrow> bool" where
  "lc_is_empty co lc = co_is_empty co (lc_inner lc)"

definition lc_finish :: "'c coalescer_ops \<Rightarrow> 'c limited_coalescer \<Rightarrow> 'c limited_coalescer res" where
  "lc_finish co lc =
     bind_res (co_finish_buffered co (lc_inner lc)) (\<lambda>c. Inr (lc\<lparr>lc_inner := c, lc_finished := True\<rparr>))"

definition lc_next_completed_batch :: "'c coalescer_ops \<Rightarrow> 'c limited_coalescer \<Rightarrow> (batch \<times> 'c limited_coalescer) option" where
  "lc_next_completed_batch co lc =
     map_option (\<lambda>(b, c). (b, lc\<lparr>lc_inner := c\<rparr>)) (co_next_completed co (lc_inner lc))"

section \<open>What a limited coalescer holds\<close>

definition take_room :: "'c limited_coalescer \<Rightarrow> 'a list \<Rightarrow> 'a list" where
  "take_room lc xs = (case lc_fetch lc of None \<Rightarrow> xs | Some f \<Rightarrow> take (f - lc_total_rows lc) xs)"

definition lc_rows :: "('c \<Rightarrow> batch list) \<Rightarrow> ('c \<Rightarrow> row list) \<Rightarrow> 'c limited_coalescer \<Rightarrow> row list" where
  "lc_rows completed held lc = flat_rows (completed (lc_inner lc)) @ held (lc_inner lc)"

text \<open>The row count cannot overflow while it matters.\<close>

definition fits :: "'c limited_coalescer \<Rightarrow> nat \<Rightarrow> bool" where
  "fits lc n \<longleftrightarrow> (case lc_fetch lc of None \<Rightarrow> True | Some f \<Rightarrow> f + n < usize_mod \<and> lc_total_rows lc \<le> f)"

lemma fits_mono: "fits lc n \<Longrightarrow> m \<le> n \<Longrightarrow> fits lc m"
  by (auto simp: fits_def split: option.splits)

lemma lc_push_batch_rows:
  assumes spec: "coalescer_spec co ct completed held" and "\<not> lc_finished lc" and "col_types b = ct (lc_inner lc)"
    and "fits lc (num_rows b + n)"
  shows "\<exists>st lc'. lc_push_batch co b lc = Inr (st, lc') \<and> \<not> lc_finished lc' \<and> fits lc' n \<and> ct (lc_inner lc') = ct (lc_inner lc)
     \<and> lc_rows completed held lc' = lc_rows completed held lc @ take_room lc (rows b)
     \<and> (\<forall>ys. take_room lc (rows b @ ys) = take_room lc (rows b) @ take_room lc' (ys :: row list))
     \<and> (st = LimitReached \<longrightarrow> (\<forall>ys. take_room lc' ys = ([] :: row list)))"
proof -
  have push: "\<exists>c'. co_push co b' c = Inr c' \<and> ct c' = ct c
      \<and> flat_rows (completed c') @ held c' = flat_rows (completed c) @ held c @ rows b'" if "col_types b' = ct c" for b' c
    using spec that unfolding coalescer_spec_def by blast
  show ?thesis
  proof (cases "lc_fetch lc")
    case None
    from push [OF assms(3)] None assms(2) show ?thesis
      by (auto simp: lc_push_batch_def take_room_def lc_rows_def fits_def)
  next
    case (Some f)
    have t: "lc_total_rows lc \<le> f" "wadd (lc_total_rows lc) (num_rows b) = lc_total_rows lc + num_rows b"
      using assms(4) Some by (simp_all add: fits_def wadd_small)
    consider "f \<le> lc_total_rows lc" | "lc_total_rows lc < f" "f \<le> lc_total_rows lc + num_rows b"
      | "lc_total_rows lc + num_rows b < f" by linarith
    then show ?thesis
    proof cases
      case 1
      with assms Some t show ?thesis
        by (intro exI [of _ LimitReached] exI [of _ lc]) (auto simp: lc_push_batch_def take_room_def fits_def)
    next
      case 2
      let ?h = "slice b 0 (f - lc_total_rows lc)"
      have h: "col_types ?h = ct (lc_inner lc)" "rows ?h = take (f - lc_total_rows lc) (rows b)"
        "num_rows ?h = f - lc_total_rows lc" "wadd (lc_total_rows lc) (f - lc_total_rows lc) = f"
        using 2 assms(3,4) t Some by (simp_all add: slice_def num_rows_def fits_def wadd_small)
      from push [OF h(1)] 2 assms(2,4) Some t h show ?thesis
        by (auto simp: lc_push_batch_def take_room_def lc_rows_def fits_def num_rows_def)
    next
      case 3
      from push [OF assms(3)] 3 assms(2,4) Some t show ?thesis
        by (auto simp: lc_push_batch_def take_room_def lc_rows_def fits_def num_rows_def)
    qed
  qed
qed

lemma lc_finish_rows:
  assumes "coalescer_spec co ct completed held"
  shows "\<exists>lc'. lc_finish co lc = Inr lc' \<and> lc_finished lc' \<and> held (lc_inner lc') = []
     \<and> lc_rows completed held lc' = lc_rows completed held lc"
proof -
  obtain c' where "co_finish_buffered co (lc_inner lc) = Inr c'" "held c' = []"
    "flat_rows (completed c') = flat_rows (completed (lc_inner lc)) @ held (lc_inner lc)"
    using assms unfolding coalescer_spec_def by blast
  then show ?thesis by (simp add: lc_finish_def lc_rows_def)
qed

lemma lc_next_rows:
  assumes "coalescer_spec co ct completed held"
  shows "case completed (lc_inner lc) of
           [] \<Rightarrow> lc_next_completed_batch co lc = None
         | b # bs \<Rightarrow> (\<exists>lc'. lc_next_completed_batch co lc = Some (b, lc') \<and> completed (lc_inner lc') = bs
              \<and> lc_finished lc' = lc_finished lc \<and> lc_total_rows lc' = lc_total_rows lc \<and> lc_fetch lc' = lc_fetch lc
              \<and> ct (lc_inner lc') = ct (lc_inner lc)
              \<and> lc_rows completed held lc = rows b @ lc_rows completed held lc')"
proof -
  have n: "case completed (lc_inner lc) of
            [] \<Rightarrow> co_next_completed co (lc_inner lc) = None
          | b # bs \<Rightarrow> (\<exists>c'. co_next_completed co (lc_inner lc) = Some (b, c') \<and> completed c' = bs
               \<and> held c' = held (lc_inner lc) \<and> ct c' = ct (lc_inner lc))"
    using assms unfolding coalescer_spec_def by blast
  show ?thesis
  proof (cases "completed (lc_inner lc)")
    case (Cons b bs)
    with n obtain c' where "co_next_completed co (lc_inner lc) = Some (b, c')" "completed c' = bs"
      "held c' = held (lc_inner lc)" "ct c' = ct (lc_inner lc)" by auto
    with Cons show ?thesis by (simp add: lc_next_completed_batch_def lc_rows_def flat_rows_def)
  qed (use n in \<open>simp add: lc_next_completed_batch_def\<close>)
qed

end
