(* ===== verification/HashJoinBuild.thy ===== *)
theory HashJoinBuild
  imports ArrayMap JoinIndices BatchCoalescer JoinSpec MemoryPool
begin

text \<open>
  The build side of a hash join, \<open>collect_left_input\<close> in
  \<open>physical-plan/src/joins/hash_join/exec.rs\<close>: the left input is collected against a memory
  reservation, and a dense map or a hash table is built over its keys. Also the helpers of
  \<open>physical-plan/src/joins/utils.rs\<close> that the join shares: comparing keys, applying a filter
  and building output batches from index arrays. Arrow's kernels are a parameter.
\<close>

section \<open>Arrow's kernels\<close>

record arrow_kernels =
  ak_take :: "cell list \<Rightarrow> index_array \<Rightarrow> cell list res"
  ak_eq :: "null_equality \<Rightarrow> cell list \<Rightarrow> cell list \<Rightarrow> bool option list res"
  ak_and :: "bool option list \<Rightarrow> bool option list \<Rightarrow> bool option list res"
  ak_filter :: "index_array \<Rightarrow> bool option list \<Rightarrow> index_array res"
  ak_concat :: "bool option list list \<Rightarrow> bool option list res"
  ak_concat_batches :: "schema \<Rightarrow> batch list \<Rightarrow> batch res"
  ak_try_new :: "schema \<Rightarrow> cell list list \<Rightarrow> batch res"

text \<open>
  What the kernels document. \<open>take\<close> gathers by index, a null index giving a null; the two
  equalities (\<open>eq\<close>, and \<open>not_distinct\<close> where null equals null; the comparator for nested
  types gives the same) compare arrays of one type and length; \<open>and\<close> is null when an
  operand is; \<open>filter\<close> keeps what the mask sets; concatenation keeps order; a batch can be
  made of columns that fit its schema, of one length and without nulls where the schema
  has none.
\<close>

definition gathered :: "cell list \<Rightarrow> index_array \<Rightarrow> cell list" where
  "gathered col idx = map (\<lambda>x. case x of None \<Rightarrow> CNull | Some i \<Rightarrow> col ! i) idx"

definition cells_equal :: "null_equality \<Rightarrow> cell \<Rightarrow> cell \<Rightarrow> bool option" where
  "cells_equal neq x y =
     (if neq = NullEqualsNothing \<and> (x = CNull \<or> y = CNull) then None else Some (x = y))"

fun and_null :: "bool option \<Rightarrow> bool option \<Rightarrow> bool option" where
  "and_null (Some x) (Some y) = Some (x \<and> y)"
| "and_null _ _ = None"

definition masked :: "'a list \<Rightarrow> bool option list \<Rightarrow> 'a list" where
  "masked xs msk = map fst (filter (\<lambda>(x, b). b = Some True) (zip xs msk))"

fun cell_fits :: "field \<Rightarrow> cell \<Rightarrow> bool" where
  "cell_fits f c = (cell_ok (field_type f) c \<and> (nullable f \<or> c \<noteq> CNull))"

definition columns_fit :: "schema \<Rightarrow> nat \<Rightarrow> cell list list \<Rightarrow> bool" where
  "columns_fit sch n cols \<longleftrightarrow>
     list_all2 (\<lambda>f col. length col = n \<and> list_all (cell_fits f) col) (schema_fields sch) cols"

definition batch_of_columns :: "schema \<Rightarrow> nat \<Rightarrow> cell list list \<Rightarrow> batch" where
  "batch_of_columns sch n cols =
     \<lparr>col_types = map field_type (schema_fields sch), rows = map (\<lambda>k. map (\<lambda>col. col ! k) cols) [0..<n]\<rparr>"

definition kernels_spec :: "arrow_kernels \<Rightarrow> bool" where
  "kernels_spec ak \<longleftrightarrow>
     (\<forall>col idx. (\<forall>i. Some i \<in> set idx \<longrightarrow> i < length col) \<longrightarrow> ak_take ak col idx = Inr (gathered col idx)) \<and>
     (\<forall>neq t xs ys. length xs = length ys \<longrightarrow> list_all (cell_ok t) xs \<longrightarrow> list_all (cell_ok t) ys \<longrightarrow>
        ak_eq ak neq xs ys = Inr (map2 (cells_equal neq) xs ys)) \<and>
     (\<forall>xs ys. length xs = length ys \<longrightarrow> ak_and ak xs ys = Inr (map2 and_null xs ys)) \<and>
     (\<forall>xs msk. length xs = length msk \<longrightarrow> ak_filter ak xs msk = Inr (masked xs msk)) \<and>
     (\<forall>xss. xss \<noteq> [] \<longrightarrow> ak_concat ak xss = Inr (concat xss)) \<and>
     (\<forall>sch bs. batches_ok sch bs \<longrightarrow> ak_concat_batches ak sch bs =
        Inr \<lparr>col_types = map field_type (schema_fields sch), rows = flat_rows bs\<rparr>) \<and>
     (\<forall>sch n cols. cols \<noteq> [] \<longrightarrow> columns_fit sch n cols \<longrightarrow> ak_try_new ak sch cols = Inr (batch_of_columns sch n cols))"

section \<open>Keys\<close>

text \<open>
  \<open>evaluate_expressions_to_arrays\<close>: one array per key expression; \<open>dt\<close> is the type of an
  expression. Evaluating an expression on a row never fails here.
\<close>

definition eval_keys :: "(pexpr \<Rightarrow> data_type) \<Rightarrow> pexpr list \<Rightarrow> batch \<Rightarrow> key_array list" where
  "eval_keys dt on b = map (\<lambda>e. (dt e, map (eval_pexpr e) (rows b))) on"

text \<open>
  \<open>create_hashes\<close> of \<open>common/src/hash_utils.rs\<close> is a parameter: a hash of the key cells of
  each row.
\<close>

definition row_keys :: "pexpr list \<Rightarrow> row \<Rightarrow> cell list" where
  "row_keys on r = map (\<lambda>e. eval_pexpr e r) on"

definition create_hashes :: "(cell list \<Rightarrow> nat) \<Rightarrow> pexpr list \<Rightarrow> batch \<Rightarrow> nat list" where
  "create_hashes hash on b = map (\<lambda>r. hash (row_keys on r)) (rows b)"

definition update_hash ::
  "(cell list \<Rightarrow> nat) \<Rightarrow> pexpr list \<Rightarrow> batch \<Rightarrow> nat \<Rightarrow> nat \<Rightarrow> bool \<Rightarrow> join_hash_map \<Rightarrow> join_hash_map res" where
  "update_hash hash on b offset deleted_offset fifo_hashmap m =
     (let hash_values_iter = enumerate offset (create_hashes hash on b)
      in if fifo_hashmap then update_from_iter deleted_offset (rev hash_values_iter) m
         else update_from_iter deleted_offset hash_values_iter m)"

fun equal_fold :: "arrow_kernels \<Rightarrow> null_equality \<Rightarrow> index_array \<Rightarrow> index_array \<Rightarrow> (key_array \<times> key_array) list
    \<Rightarrow> bool option list \<Rightarrow> bool option list res" where
  "equal_fold ak neq il ir [] acc = Inr acc"
| "equal_fold ak neq il ir ((l, r) # rest) acc =
     bind_res (ak_take ak (snd l) il) (\<lambda>arr_left.
     bind_res (ak_take ak (snd r) ir) (\<lambda>arr_right.
     bind_res (ak_eq ak neq arr_left arr_right) (\<lambda>equal2.
     bind_res (ak_and ak acc equal2) (\<lambda>acc'. equal_fold ak neq il ir rest acc'))))"

definition equal_rows_arr ::
  "arrow_kernels \<Rightarrow> index_array \<Rightarrow> index_array \<Rightarrow> key_array list \<Rightarrow> key_array list \<Rightarrow> null_equality
    \<Rightarrow> (index_array \<times> index_array) res" where
  "equal_rows_arr ak indices_left indices_right left_arrays right_arrays neq =
     (case zip left_arrays right_arrays of
        [] \<Rightarrow> Inr ([], [])
      | (first_left, first_right) # rest \<Rightarrow>
          bind_res (ak_take ak (snd first_left) indices_left) (\<lambda>arr_left.
          bind_res (ak_take ak (snd first_right) indices_right) (\<lambda>arr_right.
          bind_res (ak_eq ak neq arr_left arr_right) (\<lambda>equal0.
          bind_res (equal_fold ak neq indices_left indices_right rest equal0) (\<lambda>equal.
          bind_res (ak_filter ak indices_left equal) (\<lambda>left_filtered.
          bind_res (ak_filter ak indices_right equal) (\<lambda>right_filtered.
          Inr (left_filtered, right_filtered))))))))"

section \<open>Batches from indices\<close>

definition batch_column :: "batch \<Rightarrow> nat \<Rightarrow> cell list res" where
  "batch_column b i = (if i < length (col_types b) then Inr (map (\<lambda>r. r ! i) (rows b)) else Inl IndexOutOfBounds)"

definition take_or_null :: "arrow_kernels \<Rightarrow> cell list \<Rightarrow> index_array \<Rightarrow> cell list res" where
  "take_or_null ak col idx =
     (if col = [] \<or> list_all (\<lambda>x. x = None) idx
      then if list_all (\<lambda>x. x = None) idx then Inr (replicate (length idx) CNull)
           else Inl (Panic ''assertion `left == right` failed'')
      else ak_take ak col idx)"

definition new_empty_schema_batch :: "schema \<Rightarrow> nat \<Rightarrow> batch" where
  "new_empty_schema_batch sch row_count =
     \<lparr>col_types = map field_type (schema_fields sch), rows = replicate row_count []\<rparr>"

definition index_column ::
  "arrow_kernels \<Rightarrow> batch \<Rightarrow> batch \<Rightarrow> index_array \<Rightarrow> index_array \<Rightarrow> join_side \<Rightarrow> column_index \<Rightarrow> cell list res" where
  "index_column ak build_input_buffer probe_batch build_indices probe_indices build_side ci =
     (if snd ci = SideNone then Inr (map (\<lambda>x. CBool (x \<noteq> None)) probe_indices)
      else if snd ci = build_side
      then bind_res (batch_column build_input_buffer (fst ci)) (\<lambda>col. take_or_null ak col build_indices)
      else bind_res (batch_column probe_batch (fst ci)) (\<lambda>col. take_or_null ak col probe_indices))"

definition build_batch_from_indices ::
  "arrow_kernels \<Rightarrow> schema \<Rightarrow> batch \<Rightarrow> batch \<Rightarrow> index_array \<Rightarrow> index_array \<Rightarrow> column_index list \<Rightarrow> join_side
    \<Rightarrow> join_type \<Rightarrow> batch res" where
  "build_batch_from_indices ak sch build_input_buffer probe_batch build_indices probe_indices column_indices build_side t =
     (if schema_fields sch = []
      then Inr (new_empty_schema_batch sch
             (if t = RightAnti \<or> t = RightSemi then length probe_indices else length build_indices))
      else bind_res (collect_res (map (index_column ak build_input_buffer probe_batch build_indices probe_indices build_side)
                                      column_indices)) (ak_try_new ak sch))"

definition empty_build_column :: "batch \<Rightarrow> batch \<Rightarrow> nat \<Rightarrow> column_index \<Rightarrow> cell list res" where
  "empty_build_column build_batch probe_batch n ci =
     (case snd ci of
        SideLeft \<Rightarrow> bind_res (batch_column build_batch (fst ci)) (\<lambda>_. Inr (replicate n CNull))
      | SideRight \<Rightarrow> batch_column probe_batch (fst ci)
      | SideNone \<Rightarrow> Inr (replicate n (CBool False)))"

definition build_batch_empty_build_side ::
  "arrow_kernels \<Rightarrow> schema \<Rightarrow> batch \<Rightarrow> batch \<Rightarrow> column_index list \<Rightarrow> join_type \<Rightarrow> batch res" where
  "build_batch_empty_build_side ak sch build_batch probe_batch column_indices t =
     (if t \<in> {Inner, Left, LeftSemi, RightSemi, LeftAnti, LeftMark}
      then Inr \<lparr>col_types = map field_type (schema_fields sch), rows = []\<rparr>
      else let n = num_rows probe_batch
           in if schema_fields sch = [] then Inr (new_empty_schema_batch sch n)
              else bind_res (collect_res (map (empty_build_column build_batch probe_batch n) column_indices)) (ak_try_new ak sch))"

section \<open>Join filters\<close>

text \<open>A join filter: its schema, where its columns come from, and its expression on a batch.\<close>

record join_filter =
  jf_schema :: schema
  jf_column_indices :: "column_index list"
  jf_expression :: "batch \<Rightarrow> bool option list res"

definition filter_chunk ::
  "arrow_kernels \<Rightarrow> batch \<Rightarrow> batch \<Rightarrow> index_array \<Rightarrow> index_array \<Rightarrow> join_filter \<Rightarrow> join_side \<Rightarrow> join_type
    \<Rightarrow> bool option list res" where
  "filter_chunk ak build_input_buffer probe_batch li ri jf build_side t =
     bind_res (build_batch_from_indices ak (jf_schema jf) build_input_buffer probe_batch li ri (jf_column_indices jf) build_side t)
       (jf_expression jf)"

text \<open>\<open>(0..n).step_by(max_size)\<close>; a step of zero panics.\<close>

function slices :: "nat \<Rightarrow> nat \<Rightarrow> nat \<Rightarrow> (nat \<times> nat) list" where
  "slices n 0 i = []"
| "slices n (Suc k) i = (if i < n then (i, min n (i + Suc k) - i) # slices n (Suc k) (i + Suc k) else [])"
  by pat_completeness auto
termination by (relation "measure (\<lambda>(n, k, i). n - i)") auto

definition apply_join_filter_to_indices ::
  "arrow_kernels \<Rightarrow> batch \<Rightarrow> batch \<Rightarrow> index_array \<Rightarrow> index_array \<Rightarrow> join_filter \<Rightarrow> join_side \<Rightarrow> nat option \<Rightarrow> join_type
    \<Rightarrow> (index_array \<times> index_array) res" where
  "apply_join_filter_to_indices ak build_input_buffer probe_batch build_indices probe_indices jf build_side max_intermediate_size t =
     (if build_indices = [] \<and> probe_indices = [] then Inr (build_indices, probe_indices)
      else bind_res
        (case max_intermediate_size of
           None \<Rightarrow> filter_chunk ak build_input_buffer probe_batch build_indices probe_indices jf build_side t
         | Some max_size \<Rightarrow>
             if max_size = 0 then Inl (Panic ''assertion failed: step != 0'')
             else bind_res (collect_res (map (\<lambda>(i, len).
                    filter_chunk ak build_input_buffer probe_batch (take len (drop i build_indices))
                      (take len (drop i probe_indices)) jf build_side t) (slices (length build_indices) max_size 0)))
                    (ak_concat ak))
        (\<lambda>msk.
           bind_res (ak_filter ak build_indices msk) (\<lambda>left_filtered.
           bind_res (ak_filter ak probe_indices msk) (\<lambda>right_filtered.
           Inr (left_filtered, right_filtered)))))"

section \<open>Collecting the left input\<close>

datatype build_map = HashMap join_hash_map | ArrayMap array_map

fun num_of_distinct_key :: "build_map \<Rightarrow> nat" where
  "num_of_distinct_key (HashMap m) = jm_len m"
| "num_of_distinct_key (ArrayMap am) = am_distinct am"

definition map_is_empty :: "build_map \<Rightarrow> bool" where
  "map_is_empty m \<longleftrightarrow> num_of_distinct_key m = 0"

text \<open>
  \<open>JoinLeftData\<close>. The counter of probe threads, the bitmap and the two flags of a
  null-aware join are shared by the streams that probe one build side.
\<close>

record left_data =
  ld_map :: build_map
  ld_batch :: batch
  ld_values :: "key_array list"
  ld_visited :: "bool list"
  ld_threads :: nat
  ld_non_empty :: bool
  ld_has_null :: bool

fun next_power_of_two :: "nat \<Rightarrow> nat" where
  "next_power_of_two n = (if n \<le> 1 then 1 else 2 * next_power_of_two ((n + 1) div 2))"

declare next_power_of_two.simps [simp del]

definition checked_add :: "nat \<Rightarrow> nat \<Rightarrow> nat option" where
  "checked_add a b = (if a + b < usize_mod then Some (a + b) else None)"

text \<open>\<open>estimate_memory_size\<close> of \<open>common/src/utils/memory.rs\<close>, for entries of the given size.\<close>

definition estimate_table_size :: "nat \<Rightarrow> nat \<Rightarrow> nat \<Rightarrow> nat res" where
  "estimate_table_size size_of_entry num_elements fixed_size =
     (case (do { overestimate \<leftarrow> checked_mul num_elements 8;
                 let estimated_buckets = next_power_of_two (overestimate div 7)
                 in do { x \<leftarrow> checked_mul size_of_entry estimated_buckets;
                         y \<leftarrow> checked_add x estimated_buckets;
                         checked_add y fixed_size } }) of
        Some n \<Rightarrow> Inr n
      | None \<Rightarrow> Inl (Execution ''usize overflow while estimating the number of buckets''))"

text \<open>
  What the collection takes from its surroundings: the sizes of batches and of the two
  table headers, the two thresholds of the configuration, the hash, the types of the key
  expressions, Arrow's kernels and the methods of the memory pool.
\<close>

record 'p build_env =
  be_batch_size :: "batch \<Rightarrow> nat"
  be_fixed_u32 :: nat
  be_fixed_u64 :: nat
  be_small_threshold :: nat
  be_min_density :: f64
  be_hash :: "cell list \<Rightarrow> nat"
  be_types :: "pexpr \<Rightarrow> data_type"
  be_kernels :: arrow_kernels
  be_pool :: "'p pool_ops"

type_synonym 'p memory = "reservation \<times> 'p"

definition try_grow_mem :: "'p build_env \<Rightarrow> nat \<Rightarrow> 'p memory \<Rightarrow> 'p memory res" where
  "try_grow_mem env n mem = reservation_try_grow (be_pool env) n (fst mem) (snd mem)"

definition should_collect_min_max_for_perfect_hash :: "'p build_env \<Rightarrow> pexpr list \<Rightarrow> bool" where
  "should_collect_min_max_for_perfect_hash env on_left =
     (case on_left of [e] \<Rightarrow> is_supported_type (be_types env e) | _ \<Rightarrow> False)"

text \<open>The fold over the input stream: reserve each batch, keep it; the first error ends it.\<close>

fun collect_batches :: "'p build_env \<Rightarrow> batch res list \<Rightarrow> batch list \<Rightarrow> 'p memory \<Rightarrow> (batch list \<times> 'p memory) res" where
  "collect_batches env [] bs mem = Inr (bs, mem)"
| "collect_batches env (Inl e # items) bs mem = Inl e"
| "collect_batches env (Inr b # items) bs mem =
     bind_res (try_grow_mem env (be_batch_size env b) mem) (collect_batches env items (bs @ [b]))"

text \<open>The smallest and largest key: the accumulators skip nulls and start at null.\<close>

fun int_keys :: "cell list \<Rightarrow> int list" where
  "int_keys [] = []"
| "int_keys (CInt i # cs) = i # int_keys cs"
| "int_keys (_ # cs) = int_keys cs"

definition key_bounds :: "cell list \<Rightarrow> (int \<times> int) option" where
  "key_bounds cs = (case int_keys cs of [] \<Rightarrow> None | i # is \<Rightarrow> Some (foldl min i is, foldl max i is))"

definition on_left_cells :: "pexpr list \<Rightarrow> batch list \<Rightarrow> cell list" where
  "on_left_cells on_left bs = map (eval_pexpr (hd on_left)) (flat_rows bs)"

definition try_create_array_map ::
  "'p build_env \<Rightarrow> schema \<Rightarrow> batch list \<Rightarrow> pexpr list \<Rightarrow> null_equality \<Rightarrow> 'p memory
    \<Rightarrow> ((array_map \<times> batch \<times> key_array list) option \<times> 'p memory) res" where
  "try_create_array_map env sch bs on_left neq mem =
     (let keys = on_left_cells on_left bs; num_row = length (flat_rows bs)
      in if length on_left \<noteq> 1 \<or> neq = NullEqualsNull \<and> CNull \<in> set keys
            \<or> \<not> should_collect_min_max_for_perfect_hash env on_left
         then Inr (None, mem)
         else case key_bounds keys of
                None \<Rightarrow> Inr (None, mem)
              | Some (lo, hi) \<Rightarrow>
                  let min_val = as_usize lo; max_val = as_usize hi; range = calculate_range min_val max_val
                  in if 2 ^ 32 - 1 \<le> num_row \<or> range = usize_max
                        \<or> be_small_threshold env \<le> range
                          \<and> fle (fdiv (f64_of_usize num_row) (f64_of_usize (range + 1))) (be_min_density env)
                     then Inr (None, mem)
                     else bind_res (try_grow_mem env (estimate_memory_size min_val max_val num_row) mem) (\<lambda>mem'.
                          bind_res (ak_concat_batches (be_kernels env) sch bs) (\<lambda>b.
                          let left_values = eval_keys (be_types env) on_left b
                          in bind_res (array_map_try_new (hd left_values) min_val max_val) (\<lambda>am.
                             Inr (Some (am, b, left_values), mem')))))"

fun insert_batches ::
  "'p build_env \<Rightarrow> pexpr list \<Rightarrow> batch list \<Rightarrow> nat \<Rightarrow> join_hash_map \<Rightarrow> join_hash_map res" where
  "insert_batches env on_left [] offset m = Inr m"
| "insert_batches env on_left (b # bs) offset m =
     bind_res (update_hash (be_hash env) on_left b offset 0 True m) (insert_batches env on_left bs (offset + num_rows b))"

definition build_hash_map ::
  "'p build_env \<Rightarrow> schema \<Rightarrow> batch list \<Rightarrow> pexpr list \<Rightarrow> 'p memory
    \<Rightarrow> ((build_map \<times> batch \<times> key_array list) \<times> 'p memory) res" where
  "build_hash_map env sch bs on_left mem =
     (let n = length (flat_rows bs); wide = 2 ^ 32 - 1 < n
      in bind_res (estimate_table_size 16 n (if wide then be_fixed_u64 env else be_fixed_u32 env)) (\<lambda>sz.
         bind_res (try_grow_mem env sz mem) (\<lambda>mem'.
         bind_res (insert_batches env on_left (rev bs) 0 (with_capacity (if wide then 2 ^ 64 else 2 ^ 32) n)) (\<lambda>m.
         bind_res (ak_concat_batches (be_kernels env) sch (rev bs)) (\<lambda>b.
         Inr ((HashMap m, b, eval_keys (be_types env) on_left b), mem'))))))"

definition collect_left_input ::
  "'p build_env \<Rightarrow> schema \<Rightarrow> batch res list \<Rightarrow> pexpr list \<Rightarrow> bool \<Rightarrow> nat \<Rightarrow> null_equality \<Rightarrow> 'p memory
    \<Rightarrow> (left_data \<times> 'p memory) res" where
  "collect_left_input env sch left_stream on_left with_visited_indices_bitmap probe_threads_count neq mem =
     bind_res (collect_batches env left_stream [] mem) (\<lambda>(bs, mem1).
     bind_res (try_create_array_map env sch bs on_left neq mem1) (\<lambda>(dense, mem2).
     bind_res (case dense of
                 Some (am, b, left_values) \<Rightarrow> Inr ((ArrayMap am, b, left_values), mem2)
               | None \<Rightarrow> build_hash_map env sch bs on_left mem2) (\<lambda>((m, b, left_values), mem3).
     bind_res (if with_visited_indices_bitmap then try_grow_mem env ((num_rows b + 7) div 8) mem3 else Inr mem3) (\<lambda>mem4.
     Inr (\<lparr>ld_map = m, ld_batch = b, ld_values = left_values,
           ld_visited = (if with_visited_indices_bitmap then replicate (length (flat_rows bs)) False else []),
           ld_threads = probe_threads_count, ld_non_empty = False, ld_has_null = False\<rparr>, mem4)))))"

definition report_probe_completed :: "left_data \<Rightarrow> bool \<times> left_data" where
  "report_probe_completed ld = (ld_threads ld = 1, ld\<lparr>ld_threads := wsub (ld_threads ld) 1\<rparr>)"

end
