(* ===== verification/JoinSelection.thy ===== *)
theory JoinSelection
  imports JoinSpec Stats HashJoinBuild
begin

text \<open>
  The rule that picks the build side and the partition mode of joins,
  \<open>physical-optimizer/src/join_selection.rs\<close>, with the operations on plans it uses: swapping
  the inputs of a join (\<open>HashJoinExec::swap_inputs\<close>, \<open>NestedLoopJoinExec::swap_inputs\<close>,
  \<open>CrossJoinExec::swap_inputs\<close>), the projection that restores the order of the columns
  (\<open>joins/utils.rs\<close>, \<open>projection.rs\<close>) and the bottom-up rewriting of \<open>tree_node.rs\<close>. Cross,
  nested loop and symmetric hash joins stand for their specification: how they execute is not
  modelled.
\<close>

section \<open>Projections of columns\<close>

text \<open>A projection expression that is a column: its name, its index, and the alias of the output.\<close>

type_synonym column_expr = "(string \<times> nat) \<times> string"

definition projected_field :: "schema \<Rightarrow> column_expr \<Rightarrow> field res" where
  "projected_field input e =
     (case e of ((name, i), alias) \<Rightarrow>
        if i < length (schema_fields input) then Inr ((schema_fields input ! i)\<lparr>field_name := alias\<rparr>)
        else Inl (Internal (''PhysicalExpr Column references column '' @ name @ '' at index '' @ show_nat i)))"

definition projection_schema :: "column_expr list \<Rightarrow> schema \<Rightarrow> schema res" where
  "projection_schema exprs input =
     bind_res (collect_res (map (projected_field input) exprs)) (\<lambda>fs.
     Inr \<lparr>schema_fields = fs, metadata = metadata input\<rparr>)"

text \<open>\<open>ProjectionMapping::try_new\<close>: the name of a column is the name of the field it points to.\<close>

definition check_column :: "schema \<Rightarrow> column_expr \<Rightarrow> unit res" where
  "check_column input e =
     (case e of ((name, i), alias) \<Rightarrow>
        if length (schema_fields input) \<le> i then Inl IndexOutOfBounds
        else if name \<noteq> field_name (schema_fields input ! i)
        then Inl (Internal (''Input field name '' @ field_name (schema_fields input ! i) @
                    '' does not match with the projection expression '' @ name))
        else Inr ())"

definition projection_mapping :: "column_expr list \<Rightarrow> schema \<Rightarrow> unit res" where
  "projection_mapping exprs input = bind_res (collect_res (map (check_column input) exprs)) (\<lambda>_. Inr ())"

definition error_of :: "'a res \<Rightarrow> df_error option" where
  "error_of r = (case r of Inl e \<Rightarrow> Some e | Inr x \<Rightarrow> None)"

definition pick_columns :: "column_expr list \<Rightarrow> 'a list \<Rightarrow> 'a list" where
  "pick_columns exprs xs = map (\<lambda>((name, i), alias). xs ! i) exprs"

definition projection_op :: "column_expr list \<Rightarrow> schema \<Rightarrow> exec_op" where
  "projection_op exprs out_schema =
     \<lparr>op_name = ''ProjectionExec'', op_schema = (\<lambda>_. out_schema),
      op_rebuild = (\<lambda>ss. case ss of [] \<Rightarrow> Some IndexOutOfBounds | s # _ \<Rightarrow> error_of (projection_mapping exprs s)),
      op_run = (\<lambda>bss. case bss of [] \<Rightarrow> [] | bs # _ \<Rightarrow>
         map (\<lambda>b. \<lparr>col_types = pick_columns exprs (col_types b), rows = map (pick_columns exprs) (rows b)\<rparr>) bs)\<rparr>"

definition projection_try_new :: "column_expr list \<Rightarrow> plan \<Rightarrow> plan res" where
  "projection_try_new exprs input =
     bind_res (projection_schema exprs (plan_schema input)) (\<lambda>out_schema.
     bind_res (projection_mapping exprs (plan_schema input)) (\<lambda>_.
     Inr (OtherExec (projection_op exprs out_schema) [input])))"

section \<open>Swapping the inputs of a join\<close>

definition swap_reverting_projection :: "schema \<Rightarrow> schema \<Rightarrow> column_expr list" where
  "swap_reverting_projection left_schema right_schema =
     (let right_cols = map (\<lambda>(i, f). ((field_name f, i), field_name f)) (enumerate 0 (schema_fields right_schema));
          right_len = length right_cols;
          left_cols = map (\<lambda>(i, f). ((field_name f, right_len + i), field_name f)) (enumerate 0 (schema_fields left_schema))
      in left_cols @ right_cols)"

definition reorder_output_after_swap :: "plan \<Rightarrow> schema \<Rightarrow> schema \<Rightarrow> plan res" where
  "reorder_output_after_swap p left_schema right_schema =
     projection_try_new (swap_reverting_projection left_schema right_schema) p"

definition one_sided :: "join_type \<Rightarrow> bool" where
  "one_sided t \<longleftrightarrow> t \<in> {LeftSemi, RightSemi, LeftAnti, RightAnti, LeftMark, RightMark}"

definition swap_join_projection :: "nat \<Rightarrow> nat \<Rightarrow> nat list option \<Rightarrow> join_type \<Rightarrow> nat list option" where
  "swap_join_projection left_schema_len right_schema_len projection t =
     (if one_sided t then projection
      else map_option (map (\<lambda>i. if i < left_schema_len then i + right_schema_len else i - left_schema_len)) projection)"

text \<open>\<open>JoinFilter::swap\<close>. The filter of a plan is what it computes on a left and a right row.\<close>

definition join_filter_swap :: "join_filter \<Rightarrow> join_filter" where
  "join_filter_swap jf = jf\<lparr>jf_column_indices := map (\<lambda>(i, side). (i, negate_side side)) (jf_column_indices jf)\<rparr>"

definition swap_info :: "schema \<Rightarrow> schema \<Rightarrow> partition_mode \<Rightarrow> join_info \<Rightarrow> join_info" where
  "swap_info ls rs m ji = ji\<lparr>
     ji_on := map (\<lambda>(l, r). (r, l)) (ji_on ji),
     ji_filter := (\<lambda>l r. ji_filter ji r l),
     ji_type := swap (ji_type ji),
     ji_mode := m,
     ji_projection := swap_join_projection (length (schema_fields ls)) (length (schema_fields rs)) (ji_projection ji) (ji_type ji)\<rparr>"

definition swap_inputs :: "partition_mode \<Rightarrow> join_info \<Rightarrow> plan \<Rightarrow> plan \<Rightarrow> plan res" where
  "swap_inputs m ji l r =
     bind_res (hash_join_build (swap_info (plan_schema l) (plan_schema r) m ji) r l) (\<lambda>new_join.
     if one_sided (ji_type ji) \<or> ji_projection ji \<noteq> None then Inr new_join
     else reorder_output_after_swap new_join (plan_schema l) (plan_schema r))"

section \<open>Other joins\<close>

definition cross_join_op :: exec_op where
  "cross_join_op =
     \<lparr>op_name = ''CrossJoinExec'',
      op_schema = (\<lambda>ss. case ss of
         l # r # _ \<Rightarrow> \<lparr>schema_fields = schema_fields l @ schema_fields r, metadata = metadata l ++ metadata r\<rparr>
       | _ \<Rightarrow> \<lparr>schema_fields = [], metadata = Map.empty\<rparr>),
      op_rebuild = (\<lambda>ss. case ss of l # r # _ \<Rightarrow> None | _ \<Rightarrow> Some IndexOutOfBounds),
      op_run = (\<lambda>bss. case bss of
         L # R # _ \<Rightarrow> concat (map (\<lambda>b. map (\<lambda>l. \<lparr>col_types = concat (map col_types (take 1 L)) @ col_types b,
                                                rows = map (\<lambda>r. l @ r) (rows b)\<rparr>) (flat_rows L)) R)
       | _ \<Rightarrow> [])\<rparr>"

definition cross_swap_inputs :: "plan \<Rightarrow> plan \<Rightarrow> plan res" where
  "cross_swap_inputs l r =
     reorder_output_after_swap (OtherExec cross_join_op [r, l]) (plan_schema l) (plan_schema r)"

text \<open>
  A join without keys, \<open>NestedLoopJoinExec\<close>, and a join of two streams,
  \<open>SymmetricHashJoinExec\<close>: what each computes is the specified join. The first panics on a
  projection that is out of bounds; the second has no projection. A node keeps the schemas it
  was made with; they give the columns of the output.
\<close>

definition spec_batch :: "join_info \<Rightarrow> schema \<Rightarrow> schema \<Rightarrow> row list \<Rightarrow> batch" where
  "spec_batch ji ls rs rws = \<lparr>col_types = map field_type (schema_fields (hash_join_schema ji ls rs)), rows = rws\<rparr>"

definition two_schemas :: "(schema \<Rightarrow> schema \<Rightarrow> 'a) \<Rightarrow> 'a \<Rightarrow> schema list \<Rightarrow> 'a" where
  "two_schemas f d ss = (case ss of l # r # _ \<Rightarrow> f l r | _ \<Rightarrow> d)"

definition nested_loop_check :: "join_info \<Rightarrow> schema \<Rightarrow> schema \<Rightarrow> df_error option" where
  "nested_loop_check ji ls rs =
     (case ji_projection ji of
        None \<Rightarrow> None
      | Some is \<Rightarrow>
          if list_all (\<lambda>i. i < length (schema_fields (fst (build_join_schema ls rs (ji_type ji))))) is then None
          else Some IndexOutOfBounds)"

definition spec_join_op :: "string \<Rightarrow> join_info \<Rightarrow> (schema \<Rightarrow> schema \<Rightarrow> df_error option) \<Rightarrow> schema \<Rightarrow> schema \<Rightarrow> exec_op" where
  "spec_join_op name ji check ls rs =
     \<lparr>op_name = name,
      op_schema = two_schemas (hash_join_schema ji) \<lparr>schema_fields = [], metadata = Map.empty\<rparr>,
      op_rebuild = two_schemas check (Some IndexOutOfBounds),
      op_run = (\<lambda>bss. case bss of
         L # R # _ \<Rightarrow> [spec_batch ji ls rs (join_rows ji (output_columns ji ls rs) (flat_rows L) (flat_rows R))]
       | _ \<Rightarrow> [])\<rparr>"

definition nested_loop_op :: "join_info \<Rightarrow> schema \<Rightarrow> schema \<Rightarrow> exec_op" where
  "nested_loop_op ji = spec_join_op ''NestedLoopJoinExec'' ji (nested_loop_check ji)"

definition nested_loop_try_new :: "join_info \<Rightarrow> plan \<Rightarrow> plan \<Rightarrow> plan res" where
  "nested_loop_try_new ji l r =
     (case nested_loop_check ji (plan_schema l) (plan_schema r) of
        Some e \<Rightarrow> Inl e
      | None \<Rightarrow> Inr (OtherExec (nested_loop_op ji (plan_schema l) (plan_schema r)) [l, r]))"

definition nested_loop_swap_inputs :: "join_info \<Rightarrow> plan \<Rightarrow> plan \<Rightarrow> plan res" where
  "nested_loop_swap_inputs ji l r =
     bind_res (nested_loop_try_new (swap_info (plan_schema l) (plan_schema r) (ji_mode ji) ji) r l) (\<lambda>new_join.
     if one_sided (ji_type ji) \<or> ji_projection ji \<noteq> None then Inr new_join
     else reorder_output_after_swap new_join (plan_schema l) (plan_schema r))"

definition symmetric_check :: "join_info \<Rightarrow> schema \<Rightarrow> schema \<Rightarrow> unit res" where
  "symmetric_check ji ls rs =
     (if ji_on ji = [] then Inl (Plan ''On constraints in SymmetricHashJoinExec should be non-empty'')
      else check_join_is_valid ls rs (ji_on ji))"

definition symmetric_op :: "join_info \<Rightarrow> schema \<Rightarrow> schema \<Rightarrow> exec_op" where
  "symmetric_op ji = spec_join_op ''SymmetricHashJoinExec'' ji (\<lambda>ls rs. error_of (symmetric_check ji ls rs))"

definition symmetric_try_new :: "join_info \<Rightarrow> plan \<Rightarrow> plan \<Rightarrow> plan res" where
  "symmetric_try_new ji l r =
     bind_res (symmetric_check ji (plan_schema l) (plan_schema r)) (\<lambda>_.
     Inr (OtherExec (symmetric_op ji (plan_schema l) (plan_schema r)) [l, r]))"

section \<open>The rule\<close>

text \<open>
  What the rule asks of a plan through the \<open>ExecutionPlan\<close> trait, and the downcasts to the
  join operators that are not hash joins.
\<close>

record 'v plan_env =
  pe_statistics :: "plan \<Rightarrow> 'v statistics res"
  pe_unbounded :: "plan \<Rightarrow> bool"
  pe_incremental :: "plan \<Rightarrow> bool"
  pe_cross :: "exec_op \<Rightarrow> bool"
  pe_nested_loop :: "exec_op \<Rightarrow> join_info option"

record join_options =
  join_reordering :: bool
  single_partition_threshold :: nat
  single_partition_threshold_rows :: nat

definition should_swap_join_order :: "'v plan_env \<Rightarrow> join_options \<Rightarrow> plan \<Rightarrow> plan \<Rightarrow> bool res" where
  "should_swap_join_order env opts left right =
     (if \<not> join_reordering opts then Inr False
      else bind_res (pe_statistics env left) (\<lambda>left_stats.
           bind_res (pe_statistics env right) (\<lambda>right_stats.
           Inr (case (get_value (st_total_byte_size left_stats), get_value (st_total_byte_size right_stats)) of
                  (Some l, Some r) \<Rightarrow> r < l
                | _ \<Rightarrow> (case (get_value (st_num_rows left_stats), get_value (st_num_rows right_stats)) of
                          (Some l, Some r) \<Rightarrow> r < l
                        | _ \<Rightarrow> False)))))"

definition supports_collect_by_thresholds :: "'v plan_env \<Rightarrow> plan \<Rightarrow> nat \<Rightarrow> nat \<Rightarrow> bool" where
  "supports_collect_by_thresholds env p threshold_byte_size threshold_num_rows =
     (case pe_statistics env p of
        Inl e \<Rightarrow> False
      | Inr stats \<Rightarrow>
          (case get_value (st_total_byte_size stats) of
             Some byte_size \<Rightarrow> byte_size < threshold_byte_size
           | None \<Rightarrow> (case get_value (st_num_rows stats) of Some n \<Rightarrow> n < threshold_num_rows | None \<Rightarrow> False)))"

definition with_mode :: "partition_mode \<Rightarrow> join_info \<Rightarrow> plan \<Rightarrow> plan \<Rightarrow> plan res" where
  "with_mode m ji l r = hash_join_build (ji\<lparr>ji_mode := m\<rparr>) l r"

definition try_collect_left :: "'v plan_env \<Rightarrow> join_options \<Rightarrow> bool \<Rightarrow> join_info \<Rightarrow> plan \<Rightarrow> plan \<Rightarrow> plan option res" where
  "try_collect_left env opts ignore_threshold ji left right =
     (let can = (\<lambda>p. ignore_threshold \<or> supports_collect_by_thresholds env p (single_partition_threshold opts)
                       (single_partition_threshold_rows opts))
      in case (can left, can right) of
           (True, True) \<Rightarrow>
             bind_res (if supports_swap (ji_type ji) \<and> \<not> ji_null_aware ji
                       then should_swap_join_order env opts left right else Inr False) (\<lambda>swp.
             bind_res (if swp then swap_inputs CollectLeft ji left right else with_mode CollectLeft ji left right) (\<lambda>p.
             Inr (Some p)))
         | (True, False) \<Rightarrow> bind_res (with_mode CollectLeft ji left right) (\<lambda>p. Inr (Some p))
         | (False, True) \<Rightarrow>
             if join_reordering opts \<and> supports_swap (ji_type ji) \<and> \<not> ji_null_aware ji
             then bind_res (swap_inputs CollectLeft ji left right) (\<lambda>p. Inr (Some p))
             else Inr None
         | (False, False) \<Rightarrow> Inr None)"

definition partitioned_hash_join :: "'v plan_env \<Rightarrow> join_options \<Rightarrow> join_info \<Rightarrow> plan \<Rightarrow> plan \<Rightarrow> plan res" where
  "partitioned_hash_join env opts ji left right =
     bind_res (if supports_swap (ji_type ji) \<and> \<not> ji_null_aware ji
               then should_swap_join_order env opts left right else Inr False) (\<lambda>swp.
     if swp then swap_inputs Partitioned ji left right
     else with_mode (if ji_null_aware ji then CollectLeft else Partitioned) ji left right)"

text \<open>A rewritten plan, and whether it is a new plan.\<close>

type_synonym transformed = "plan \<times> bool"

definition statistical_hash_join :: "'v plan_env \<Rightarrow> join_options \<Rightarrow> join_info \<Rightarrow> plan \<Rightarrow> plan \<Rightarrow> transformed res" where
  "statistical_hash_join env opts ji left right =
     (if ji_mode ji = Partitioned
      then bind_res (if supports_swap (ji_type ji) \<and> \<not> ji_null_aware ji
                     then should_swap_join_order env opts left right else Inr False) (\<lambda>swp.
           if swp then bind_res (swap_inputs Partitioned ji left right) (\<lambda>p. Inr (p, True))
           else Inr (HashJoinExec ji left right, False))
      else bind_res (try_collect_left env opts (ji_mode ji = CollectLeft) ji left right) (\<lambda>collected.
           case collected of
             Some p \<Rightarrow> Inr (p, True)
           | None \<Rightarrow> bind_res (partitioned_hash_join env opts ji left right) (\<lambda>p. Inr (p, True))))"

definition swap_if :: "'v plan_env \<Rightarrow> join_options \<Rightarrow> plan \<Rightarrow> plan res \<Rightarrow> plan \<Rightarrow> plan \<Rightarrow> transformed res" where
  "swap_if env opts p swapped left right =
     bind_res (should_swap_join_order env opts left right) (\<lambda>swp.
     if swp then bind_res swapped (\<lambda>q. Inr (q, True)) else Inr (p, False))"

fun statistical_join_selection_subrule :: "'v plan_env \<Rightarrow> join_options \<Rightarrow> plan \<Rightarrow> transformed res" where
  "statistical_join_selection_subrule env opts (HashJoinExec ji left right) = statistical_hash_join env opts ji left right"
| "statistical_join_selection_subrule env opts (OtherExec op [left, right]) =
     (let p = OtherExec op [left, right]
      in if pe_cross env op then swap_if env opts p (cross_swap_inputs left right) left right
         else case pe_nested_loop env op of
                Some ji \<Rightarrow>
                  if supports_swap (ji_type ji) then swap_if env opts p (nested_loop_swap_inputs ji left right) left right
                  else Inr (p, False)
              | None \<Rightarrow> Inr (p, False))"
| "statistical_join_selection_subrule env opts p = Inr (p, False)"

fun hash_join_convert_symmetric_subrule :: "'v plan_env \<Rightarrow> plan \<Rightarrow> transformed res" where
  "hash_join_convert_symmetric_subrule env (HashJoinExec ji left right) =
     (if pe_unbounded env left \<and> pe_unbounded env right \<and> pe_incremental env left \<and> pe_incremental env right
      then bind_res (symmetric_try_new (ji\<lparr>ji_projection := None, ji_null_aware := False, ji_fetch := None\<rparr>) left right) (\<lambda>p.
           Inr (p, True))
      else Inr (HashJoinExec ji left right, False))"
| "hash_join_convert_symmetric_subrule env p = Inr (p, False)"

definition swap_join_according_to_unboundedness :: "join_info \<Rightarrow> plan \<Rightarrow> plan \<Rightarrow> plan res" where
  "swap_join_according_to_unboundedness ji left right =
     (if ji_type ji \<in> {Right, RightSemi, RightAnti, RightMark, Full}
      then Inl (Internal (show_join_type (ji_type ji) @ '' join cannot be swapped for unbounded input.''))
      else swap_inputs (if ji_mode ji = CollectLeft then CollectLeft else Partitioned) ji left right)"

fun hash_join_swap_subrule :: "'v plan_env \<Rightarrow> plan \<Rightarrow> transformed res" where
  "hash_join_swap_subrule env (HashJoinExec ji left right) =
     (if pe_unbounded env left \<and> \<not> pe_unbounded env right \<and> \<not> ji_null_aware ji
         \<and> ji_type ji \<in> {Inner, Left, LeftSemi, LeftAnti}
      then bind_res (swap_join_according_to_unboundedness ji left right) (\<lambda>p. Inr (p, True))
      else Inr (HashJoinExec ji left right, False))"
| "hash_join_swap_subrule env p = Inr (p, False)"

definition apply_subrules :: "'v plan_env \<Rightarrow> plan \<Rightarrow> transformed res" where
  "apply_subrules env p =
     bind_res (hash_join_convert_symmetric_subrule env p) (\<lambda>(p1, t1).
     bind_res (hash_join_swap_subrule env p1) (\<lambda>(p2, t2).
     Inr (p2, t1 \<or> t2)))"

text \<open>\<open>transform_up\<close>: the children first; the node is rebuilt if one of them changed.\<close>

lemma size_child: "c \<in> set (children p) \<Longrightarrow> size c < size p"
proof (cases p)
  case (OtherExec op ps)
  assume "c \<in> set (children p)"
  then have "size c \<le> size_list size ps" using OtherExec by (simp add: size_list_estimation')
  then show ?thesis using OtherExec by simp
qed auto

function transform_up :: "(plan \<Rightarrow> transformed res) \<Rightarrow> plan \<Rightarrow> transformed res" where
  "transform_up f p =
     bind_res (collect_res (map (transform_up f) (children p))) (\<lambda>new_children.
     bind_res (if list_ex snd new_children
               then bind_res (with_new_children p (map fst new_children)) (\<lambda>q. Inr (q, True))
               else Inr (p, False)) (\<lambda>(q, t).
     bind_res (f q) (\<lambda>(q', t').
     Inr (q', t' \<or> t))))"
  by pat_completeness auto
termination by (relation "measure (\<lambda>(f, p). size p)") (auto intro: size_child)

declare transform_up.simps [simp del]

definition join_selection_optimize :: "'v plan_env \<Rightarrow> join_options \<Rightarrow> plan \<Rightarrow> plan res" where
  "join_selection_optimize env opts p =
     bind_res (transform_up (apply_subrules env) p) (\<lambda>(new_plan, _).
     bind_res (transform_up (statistical_join_selection_subrule env opts) new_plan) (\<lambda>(q, _).
     Inr q))"

section \<open>The check of the planner\<close>

text \<open>
  \<open>is_allowed_schema_change\<close> of \<open>core/src/physical_planner.rs\<close>, which the planner applies to
  the schemas before and after this rule, since its \<open>schema_check\<close> is true. Fields of the
  model have no metadata of their own.
\<close>

definition is_allowed_field_change :: "field \<Rightarrow> field \<Rightarrow> bool" where
  "is_allowed_field_change old_field new_field \<longleftrightarrow>
     field_name new_field = field_name old_field \<and> field_type new_field = field_type old_field \<and>
     (nullable new_field = nullable old_field \<or> \<not> nullable new_field)"

definition is_allowed_schema_change :: "schema \<Rightarrow> schema \<Rightarrow> bool" where
  "is_allowed_schema_change old new \<longleftrightarrow>
     metadata new = metadata old \<and> length (schema_fields new) = length (schema_fields old) \<and>
     list_all2 is_allowed_field_change (schema_fields old) (schema_fields new)"

end
