(* ===== verification/JoinSwap.thy ===== *)
theory JoinSwap
  imports JoinSelection
begin

text \<open>
  Swapping the inputs of a join keeps its rows and its fields: the swapped join, with the
  columns put back in order, is the join.
\<close>

section \<open>Rows\<close>

definition flip_column :: "column_index \<Rightarrow> column_index" where
  "flip_column c = (fst c, negate_side (snd c))"

lemma negate_negate [simp]: "negate_side (negate_side s) = s"
  by (cases s) simp_all

lemma flip_flip [simp]: "flip_column (flip_column c) = c"
  by (simp add: flip_column_def)

lemma join_row_flip: "join_row (map flip_column cols) r l m = join_row cols l r m"
proof -
  have "join_cell r l m (flip_column c) = join_cell l r m c" for c
    by (cases c rule: prod.exhaust; cases "snd c") (auto simp: flip_column_def)
  then show ?thesis by (simp add: join_row_def)
qed

lemma swap_info_simps [simp]:
  "ji_on (swap_info ls rs m ji) = map (\<lambda>(l, r). (r, l)) (ji_on ji)" "ji_type (swap_info ls rs m ji) = swap (ji_type ji)"
  "ji_mode (swap_info ls rs m ji) = m" "ji_null_aware (swap_info ls rs m ji) = ji_null_aware ji"
  "ji_null_equality (swap_info ls rs m ji) = ji_null_equality ji" "ji_fetch (swap_info ls rs m ji) = ji_fetch ji"
  "ji_filter (swap_info ls rs m ji) = (\<lambda>l r. ji_filter ji r l)"
  by (simp_all add: swap_info_def)

lemma joins_swap: "joins (swap_info ls rs m ji) r l = joins ji l r"
  by (auto simp: joins_def keys_match_def list_all_iff)

lemma joined_swap:
  "left_joined (swap_info ls rs m ji) L r = right_joined ji L r" "right_joined (swap_info ls rs m ji) R l = left_joined ji R l"
  by (simp_all add: left_joined_def right_joined_def joins_swap)

lemma mset_pairs:
  "mset (concat (map (\<lambda>r. map (\<lambda>l. f l r) (filter (\<lambda>l. P l r) L)) R)) =
   mset (concat (map (\<lambda>l. map (\<lambda>r. f l r) (filter (\<lambda>r. P l r) R)) L))"
proof (induction R)
  case (Cons r R)
  have "mset (concat (map (\<lambda>l. map (\<lambda>r. f l r) (filter (\<lambda>r. P l r) (r # R))) L)) =
      mset (map (\<lambda>l. f l r) (filter (\<lambda>l. P l r) L)) + mset (concat (map (\<lambda>l. map (\<lambda>r. f l r) (filter (\<lambda>r. P l r) R)) L))"
    by (induction L) auto
  with Cons show ?case by simp
qed (induction L, auto)

lemma matched_swap:
  "mset (matched_rows (swap_info ls rs m ji) (map flip_column cols) R L) = mset (matched_rows ji cols L R)"
  unfolding matched_rows_def joins_swap join_row_flip by (rule mset_pairs [symmetric])

text \<open>The swapped join, on columns whose sides are exchanged, has the rows of the join.\<close>

lemma join_rows_swap:
  "mset (join_rows (swap_info ls rs m ji) (map flip_column cols) R L) = mset (join_rows ji cols L R)"
  by (cases "ji_type ji")
     (simp_all add: join_rows_def matched_swap left_rows_def right_rows_def joined_swap join_row_flip)

lemma map_join_rows:
  assumes "\<And>l r m. g (join_row cols l r m) = join_row cols' l r m"
  shows "map g (join_rows ji cols L R) = join_rows ji cols' L R"
  by (simp add: join_rows_def matched_rows_def left_rows_def right_rows_def map_concat comp_def assms split: join_type.split)

text \<open>The rows of a join depend on its inputs as multisets.\<close>

lemma joined_mset:
  "mset R = mset R' \<Longrightarrow> left_joined ji R l = left_joined ji R' l" "mset L = mset L' \<Longrightarrow> right_joined ji L r = right_joined ji L' r"
  by (auto simp: left_joined_def right_joined_def list_ex_iff dest: mset_eq_setD)

lemma mset_concat_map:
  assumes "mset R = mset R'" and "\<And>r. mset (f r) = mset (f' r)"
  shows "mset (concat (map f R)) = mset (concat (map f' R'))"
proof -
  have "mset (concat (map f R)) = (\<Sum>r \<in># mset R. mset (f r))" for f :: "'a \<Rightarrow> 'b list" and R by (induction R) auto
  then show ?thesis using assms by simp
qed

lemma matched_mset:
  assumes "mset L = mset L'" and "mset R = mset R'"
  shows "mset (matched_rows ji cols L R) = mset (matched_rows ji cols L' R')"
  unfolding matched_rows_def using assms by (intro mset_concat_map) (simp_all add: mset_filter)

lemma side_mset:
  assumes "mset X = mset X'" and "\<And>x. P x = P' x"
  shows "mset (left_rows cols P X) = mset (left_rows cols P' X')" and "mset (right_rows cols P X) = mset (right_rows cols P' X')"
proof -
  have "P = P'" using assms(2) by blast
  with assms(1) show "mset (left_rows cols P X) = mset (left_rows cols P' X')" "mset (right_rows cols P X) = mset (right_rows cols P' X')"
    by (simp_all add: left_rows_def right_rows_def mset_filter)
qed

lemma join_rows_mset:
  assumes "mset L = mset L'" and "mset R = mset R'"
  shows "mset (join_rows ji cols L R) = mset (join_rows ji cols L' R')"
proof -
  note m = matched_mset [OF assms] joined_mset(1) [OF assms(2)] joined_mset(2) [OF assms(1)]
  note l = side_mset(1) [OF assms(1)] and r = side_mset(2) [OF assms(2)]
  show ?thesis
    by (cases "ji_type ji") (simp_all add: join_rows_def m assms l [of _ "\<lambda>l. left_joined ji R' l"] l [of _ "\<lambda>l. \<not> left_joined ji R' l"]
        r [of _ "\<lambda>r. right_joined ji L' r"] r [of _ "\<lambda>r. \<not> right_joined ji L' r"])
qed

section \<open>Columns and fields\<close>

lemma side_columns:
  "map snd (side_fields sch t b) = map (\<lambda>i. (i, if b then SideLeft else SideRight)) [0..<length (schema_fields sch)]"
  by (intro nth_equalityI) (simp_all add: side_fields_def enumerate_eq_zip)

lemma side_fields_fields: "map fst (side_fields sch t b) = map (\<lambda>f. output_join_field f t b) (schema_fields sch)"
  by (intro nth_equalityI) (simp_all add: side_fields_def enumerate_eq_zip)

definition left_columns :: "schema \<Rightarrow> column_index list" where
  "left_columns sch = map (\<lambda>i. (i, SideLeft)) [0..<length (schema_fields sch)]"

definition right_columns :: "schema \<Rightarrow> column_index list" where
  "right_columns sch = map (\<lambda>i. (i, SideRight)) [0..<length (schema_fields sch)]"

lemma flip_columns [simp]:
  "map flip_column (left_columns sch) = right_columns sch" "map flip_column (right_columns sch) = left_columns sch"
  "length (left_columns sch) = length (schema_fields sch)" "length (right_columns sch) = length (schema_fields sch)"
  by (simp_all add: left_columns_def right_columns_def flip_column_def comp_def)

lemma built_columns:
  "snd (build_join_schema ls rs t) =
     (if \<not> one_sided t then left_columns ls @ right_columns rs
      else if t \<in> {LeftSemi, LeftAnti} then left_columns ls
      else if t = LeftMark then left_columns ls @ [(0, SideNone)]
      else if t \<in> {RightSemi, RightAnti} then right_columns rs
      else right_columns rs @ [(0, SideNone)])"
  by (cases t) (simp_all add: build_join_schema_def Let_def one_sided_def side_columns left_columns_def right_columns_def mark_field_def)

lemma built_fields:
  "schema_fields (fst (build_join_schema ls rs t)) =
     (let lf = map (\<lambda>f. output_join_field f t True) (schema_fields ls); rf = map (\<lambda>f. output_join_field f t False) (schema_fields rs)
      in if \<not> one_sided t then lf @ rf
         else if t \<in> {LeftSemi, LeftAnti} then lf
         else if t = LeftMark then lf @ [fst mark_field]
         else if t \<in> {RightSemi, RightAnti} then rf
         else rf @ [fst mark_field])"
  by (cases t) (simp_all add: build_join_schema_def Let_def one_sided_def side_fields_fields)

lemma one_sided_swap [simp]: "one_sided (swap t) = one_sided t"
  by (cases t) (simp_all add: one_sided_def)

lemma output_join_field_swap: "output_join_field f (swap t) b = output_join_field f t (\<not> b)"
  by (cases t; cases b) (simp_all add: output_join_field_def)

lemma output_join_field_name [simp]: "field_name (output_join_field f t b) = field_name f"
  by (simp add: output_join_field_def Let_def)

text \<open>Both lists after a swap: the same if one side is output, else with the halves exchanged.\<close>

lemma one_sided_schema:
  assumes "one_sided t"
  shows "snd (build_join_schema rs ls (swap t)) = map flip_column (snd (build_join_schema ls rs t))"
    and "schema_fields (fst (build_join_schema rs ls (swap t))) = schema_fields (fst (build_join_schema ls rs t))"
proof -
  show "snd (build_join_schema rs ls (swap t)) = map flip_column (snd (build_join_schema ls rs t))"
    using assms by (cases t) (simp_all add: built_columns one_sided_def flip_column_def)
  show "schema_fields (fst (build_join_schema rs ls (swap t))) = schema_fields (fst (build_join_schema ls rs t))"
    using assms output_join_field_swap [of _ t]
    by (cases t) (simp_all add: built_fields one_sided_def)
qed

lemma two_sided_schema:
  assumes "\<not> one_sided t"
  shows "snd (build_join_schema rs ls (swap t)) = map flip_column (right_columns rs @ left_columns ls)"
    and "schema_fields (fst (build_join_schema rs ls (swap t))) =
      map (\<lambda>f. output_join_field f t False) (schema_fields rs) @ map (\<lambda>f. output_join_field f t True) (schema_fields ls)"
  using assms by (simp_all add: built_columns built_fields output_join_field_swap Let_def)

lemma length_join_schema: "length (snd (build_join_schema ls rs t)) = length (schema_fields (fst (build_join_schema ls rs t)))"
  by (simp add: build_join_schema_def Let_def)

lemma projection_bound:
  "can_project sch (Some is) = Inr () \<longleftrightarrow> (\<forall>i \<in> set is. i < length (schema_fields sch))"
proof -
  have le: "fold max is k < n \<longleftrightarrow> k < n \<and> (\<forall>i \<in> set is. i < n)" for k n :: nat by (induction "is" arbitrary: k) auto
  show ?thesis using le [of 0 "length (schema_fields sch)"] by (cases "is") (auto simp: not_le)
qed

text \<open>The index a projection has after the swap.\<close>

definition swap_index :: "nat \<Rightarrow> nat \<Rightarrow> nat \<Rightarrow> nat" where
  "swap_index nl nr i = (if i < nl then i + nr else i - nl)"

lemma nth_swap_index:
  assumes "length xs = nl" and "length ys = nr" and "i < nl + nr"
  shows "(ys @ xs) ! swap_index nl nr i = (xs @ ys) ! i" and "swap_index nl nr i < nr + nl"
  using assms by (auto simp: swap_index_def nth_append)

lemma swap_join_projection_eq:
  "swap_join_projection nl nr proj t = (if one_sided t then proj else map_option (map (swap_index nl nr)) proj)"
  by (simp add: swap_join_projection_def swap_index_def [abs_def])

text \<open>The projection that puts the columns back.\<close>

lemma pick_columns_reverting:
  assumes "length xs = length (schema_fields ls)" and "length ys = length (schema_fields rs)"
  shows "pick_columns (swap_reverting_projection ls rs) (ys @ xs) = xs @ ys"
proof (intro nth_equalityI)
  fix i assume "i < length (pick_columns (swap_reverting_projection ls rs) (ys @ xs))"
  then show "pick_columns (swap_reverting_projection ls rs) (ys @ xs) ! i = (xs @ ys) ! i"
    using assms by (auto simp: pick_columns_def swap_reverting_projection_def Let_def nth_append enumerate_eq_zip)
qed (use assms in \<open>simp add: pick_columns_def swap_reverting_projection_def Let_def\<close>)

lemma reverting_index:
  "e \<in> set (swap_reverting_projection ls rs) \<Longrightarrow> snd (fst e) < length (schema_fields rs) + length (schema_fields ls)"
  by (auto simp: swap_reverting_projection_def Let_def in_set_enumerate_eq)

lemma pick_columns_map:
  assumes "\<forall>e \<in> set exprs. snd (fst e) < length xs"
  shows "pick_columns exprs (map f xs) = map f (pick_columns exprs xs)"
  using assms by (auto simp: pick_columns_def)

section \<open>The swapped join\<close>

lemma swap_info_projection:
  "ji_projection (swap_info ls rs m ji) = (if one_sided (ji_type ji) then ji_projection ji
     else map_option (map (swap_index (length (schema_fields ls)) (length (schema_fields rs)))) (ji_projection ji))"
  by (simp add: swap_info_def swap_join_projection_eq)

text \<open>A join that outputs one side, or has a projection, outputs the same columns after the swap.\<close>

lemma projected_swap:
  assumes "one_sided (ji_type ji) \<or> ji_projection ji \<noteq> None"
    and "can_project (fst (build_join_schema ls rs (ji_type ji))) (ji_projection ji) = Inr ()"
  shows "output_columns (swap_info ls rs m ji) rs ls = map flip_column (output_columns ji ls rs)"
    and "schema_fields (hash_join_schema (swap_info ls rs m ji) rs ls) = schema_fields (hash_join_schema ji ls rs)"
    and "can_project (fst (build_join_schema rs ls (swap (ji_type ji)))) (ji_projection (swap_info ls rs m ji)) = Inr ()"
proof -
  let ?t = "ji_type ji" and ?nl = "length (schema_fields ls)" and ?nr = "length (schema_fields rs)"
  have "output_columns (swap_info ls rs m ji) rs ls = map flip_column (output_columns ji ls rs)
    \<and> schema_fields (hash_join_schema (swap_info ls rs m ji) rs ls) = schema_fields (hash_join_schema ji ls rs)
    \<and> can_project (fst (build_join_schema rs ls (swap ?t))) (ji_projection (swap_info ls rs m ji)) = Inr ()"
  proof (cases "ji_projection ji")
    case None
    then have "one_sided ?t" using assms(1) by simp
    then show ?thesis using one_sided_schema [of ?t rs ls] None
      by (simp add: output_columns_def hash_join_schema_def swap_info_projection)
  next
    case (Some "is")
    have bound: "\<forall>i \<in> set is. i < length (schema_fields (fst (build_join_schema ls rs ?t)))"
      using assms(2) Some by (simp add: projection_bound del: can_project.simps)
    show ?thesis
    proof (cases "one_sided ?t")
      case True
      then show ?thesis using one_sided_schema [of ?t rs ls] Some bound
        by (simp add: output_columns_def hash_join_schema_def swap_info_projection projection_bound length_join_schema
            del: can_project.simps)
    next
      case False
      let ?lf = "map (\<lambda>f. output_join_field f ?t True) (schema_fields ls)" and ?rf = "map (\<lambda>f. output_join_field f ?t False) (schema_fields rs)"
      have b: "i < ?nl + ?nr" if "i \<in> set is" for i using bound that False by (simp add: built_fields Let_def)
      note two = two_sided_schema [OF False, of rs ls]
      have c: "(right_columns rs @ left_columns ls) ! swap_index ?nl ?nr i = (left_columns ls @ right_columns rs) ! i" if "i \<in> set is" for i
        using nth_swap_index(1) [OF _ _ b [OF that], of "left_columns ls" "right_columns rs"] by simp
      have f: "(?rf @ ?lf) ! swap_index ?nl ?nr i = (?lf @ ?rf) ! i" if "i \<in> set is" for i
        using nth_swap_index(1) [OF _ _ b [OF that], of ?lf ?rf] by simp
      have n: "swap_index ?nl ?nr i < ?nr + ?nl" if "i \<in> set is" for i
        using nth_swap_index(2) [OF _ _ b [OF that], of ?lf ?rf] by simp
      have "map (\<lambda>i. (map flip_column (right_columns rs @ left_columns ls)) ! swap_index ?nl ?nr i) is =
          map (\<lambda>i. flip_column ((left_columns ls @ right_columns rs) ! i)) is"
      proof (rule map_cong [OF refl])
        fix i assume i: "i \<in> set is"
        have "map flip_column (right_columns rs @ left_columns ls) ! swap_index ?nl ?nr i =
            flip_column ((right_columns rs @ left_columns ls) ! swap_index ?nl ?nr i)" using n [OF i] by (intro nth_map) simp
        then show "map flip_column (right_columns rs @ left_columns ls) ! swap_index ?nl ?nr i = flip_column ((left_columns ls @ right_columns rs) ! i)"
          by (simp only: c [OF i])
      qed
      moreover have "map (\<lambda>i. (?rf @ ?lf) ! swap_index ?nl ?nr i) is = map (\<lambda>i. (?lf @ ?rf) ! i) is" using f by (intro map_cong) simp_all
      moreover have "\<forall>i \<in> set is. swap_index ?nl ?nr i < length (schema_fields (fst (build_join_schema rs ls (swap ?t))))"
        unfolding two(2) using n by simp
      ultimately show ?thesis
        using Some False two by (simp add: output_columns_def hash_join_schema_def swap_info_projection projection_bound
            built_columns [of ls rs] built_fields [of ls rs] Let_def comp_def del: can_project.simps map_append)
    qed
  qed
  then show "output_columns (swap_info ls rs m ji) rs ls = map flip_column (output_columns ji ls rs)"
    and "schema_fields (hash_join_schema (swap_info ls rs m ji) rs ls) = schema_fields (hash_join_schema ji ls rs)"
    and "can_project (fst (build_join_schema rs ls (swap (ji_type ji)))) (ji_projection (swap_info ls rs m ji)) = Inr ()"
    by blast+
qed

text \<open>A join that outputs both sides outputs them exchanged after the swap.\<close>

lemma plain_swap:
  assumes "\<not> one_sided (ji_type ji)" and "ji_projection ji = None"
  shows "pick_columns (swap_reverting_projection ls rs) (output_columns (swap_info ls rs m ji) rs ls) =
      map flip_column (output_columns ji ls rs)"
    and "length (output_columns (swap_info ls rs m ji) rs ls) = length (schema_fields rs) + length (schema_fields ls)"
    and "schema_fields (hash_join_schema (swap_info ls rs m ji) rs ls) =
      map (\<lambda>f. output_join_field f (ji_type ji) False) (schema_fields rs) @ map (\<lambda>f. output_join_field f (ji_type ji) True) (schema_fields ls)"
    and "schema_fields (hash_join_schema ji ls rs) =
      map (\<lambda>f. output_join_field f (ji_type ji) True) (schema_fields ls) @ map (\<lambda>f. output_join_field f (ji_type ji) False) (schema_fields rs)"
proof -
  note two = two_sided_schema [OF assms(1), of rs ls]
  have cols: "output_columns (swap_info ls rs m ji) rs ls = left_columns rs @ right_columns ls"
    using two(1) assms by (simp add: output_columns_def swap_info_projection)
  have orig: "output_columns ji ls rs = left_columns ls @ right_columns rs"
    using assms by (simp add: output_columns_def built_columns)
  show "pick_columns (swap_reverting_projection ls rs) (output_columns (swap_info ls rs m ji) rs ls) =
      map flip_column (output_columns ji ls rs)"
    unfolding cols orig by (subst pick_columns_reverting) simp_all
  show "length (output_columns (swap_info ls rs m ji) rs ls) = length (schema_fields rs) + length (schema_fields ls)"
    by (simp add: cols)
  show "schema_fields (hash_join_schema (swap_info ls rs m ji) rs ls) =
      map (\<lambda>f. output_join_field f (ji_type ji) False) (schema_fields rs) @ map (\<lambda>f. output_join_field f (ji_type ji) True) (schema_fields ls)"
    using two(2) assms by (simp add: hash_join_schema_def swap_info_projection)
  show "schema_fields (hash_join_schema ji ls rs) =
      map (\<lambda>f. output_join_field f (ji_type ji) True) (schema_fields ls) @ map (\<lambda>f. output_join_field f (ji_type ji) False) (schema_fields rs)"
    using assms by (simp add: hash_join_schema_def built_fields Let_def)
qed

lemma projected_rows:
  assumes "one_sided (ji_type ji) \<or> ji_projection ji \<noteq> None"
    and "can_project (fst (build_join_schema ls rs (ji_type ji))) (ji_projection ji) = Inr ()"
  shows "mset (join_rows (swap_info ls rs m ji) (output_columns (swap_info ls rs m ji) rs ls) R L) =
    mset (join_rows ji (output_columns ji ls rs) L R)"
  by (simp add: projected_swap(1) [OF assms] join_rows_swap)

lemma reverted_rows:
  assumes "\<not> one_sided (ji_type ji)" and "ji_projection ji = None"
  shows "mset (map (pick_columns (swap_reverting_projection ls rs))
      (join_rows (swap_info ls rs m ji) (output_columns (swap_info ls rs m ji) rs ls) R L)) =
    mset (join_rows ji (output_columns ji ls rs) L R)"
proof -
  note p = plain_swap(1,2) [OF assms, of ls rs m]
  have "pick_columns (swap_reverting_projection ls rs) (join_row (output_columns (swap_info ls rs m ji) rs ls) r l k) =
      join_row (map flip_column (output_columns ji ls rs)) r l k" for r l k
    unfolding join_row_def using p reverting_index [of _ ls rs] by (subst pick_columns_map) simp_all
  then have "map (pick_columns (swap_reverting_projection ls rs))
      (join_rows (swap_info ls rs m ji) (output_columns (swap_info ls rs m ji) rs ls) R L) =
      join_rows (swap_info ls rs m ji) (map flip_column (output_columns ji ls rs)) R L" by (rule map_join_rows)
  then show ?thesis by (simp only: join_rows_swap)
qed

end
