(* ===== verification/JoinSelectionProps.thy ===== *)
theory JoinSelectionProps
  imports JoinSwap Pipeline
begin

text \<open>
  The rule that picks build sides keeps the result of a query: the fields of the plan and,
  up to their order, its rows.
\<close>

section \<open>What a plan computes\<close>

text \<open>The specified rows of a hash join of any type, as one batch.\<close>

definition hash_join_rows :: "join_info \<Rightarrow> schema \<Rightarrow> schema \<Rightarrow> row list \<Rightarrow> row list \<Rightarrow> row list" where
  "hash_join_rows ji ls rs L R = take_fetch (ji_fetch ji)
     (if ji_null_aware ji then left_rows (output_columns ji ls rs) (not_in ji R) L
      else join_rows ji (output_columns ji ls rs) L R)"

definition spec_run :: join_runner where
  "spec_run ji ls rs L R = [spec_batch ji ls rs (hash_join_rows ji ls rs (flat_rows L) (flat_rows R))]"

abbreviation plan_rows :: "plan \<Rightarrow> row list" where
  "plan_rows p \<equiv> flat_rows (denote spec_run p)"

abbreviation plan_fields :: "plan \<Rightarrow> field list" where
  "plan_fields p \<equiv> schema_fields (plan_schema p)"

definition fits_schema :: "plan \<Rightarrow> bool" where
  "fits_schema p = list_all (\<lambda>r. length r = length (plan_fields p)) (plan_rows p)"

lemma join_row_append:
  assumes "length l = length (schema_fields ls)" and "length r = length (schema_fields rs)"
  shows "join_row (left_columns ls @ right_columns rs) (Some l) (Some r) m = l @ r"
  using assms by (intro nth_equalityI) (auto simp: join_row_def left_columns_def right_columns_def nth_append)

text \<open>The two ways of writing an inner join agree.\<close>

lemma inner_rows_columns:
  assumes "ji_type ji = Inner" and "\<forall>l \<in> set L. length l = length (schema_fields ls)" and "\<forall>r \<in> set R. length r = length (schema_fields rs)"
    and "can_project (fst (build_join_schema ls rs Inner)) (ji_projection ji) = Inr ()"
  shows "map (project_row (ji_projection ji)) (inner_join_rows ji L R) = join_rows ji (output_columns ji ls rs) L R"
proof -
  let ?cols = "left_columns ls @ right_columns rs"
  have plain: "join_row ?cols (Some l) (Some r) True = l @ r" if "l \<in> set L" "r \<in> set R" for l r
    using assms(2,3) that by (intro join_row_append) simp_all
  have cols: "snd (build_join_schema ls rs Inner) = ?cols" by (simp add: built_columns one_sided_def)
  have "project_row (ji_projection ji) (l @ r) = join_row (output_columns ji ls rs) (Some l) (Some r) True" if "l \<in> set L" "r \<in> set R" for l r
  proof (cases "ji_projection ji")
    case (Some "is")
    have "\<forall>i \<in> set is. i < length ?cols"
      using assms(4) Some by (simp add: projection_bound built_fields one_sided_def Let_def del: can_project.simps)
    then have "map ((!) (l @ r)) is = map (join_cell (Some l) (Some r) True) (map ((!) ?cols) is)"
      unfolding plain [OF that, symmetric] join_row_def map_map comp_def by (intro map_cong) (simp_all add: nth_map del: map_append)
    then show ?thesis using Some by (simp add: project_row_def output_columns_def assms(1) cols join_row_def)
  qed (use plain [OF that] in \<open>simp add: project_row_def output_columns_def assms(1) cols\<close>)
  then show ?thesis
    by (auto simp: inner_join_rows_def join_rows_def assms(1) matched_rows_def joins_def map_concat comp_def
        intro!: arg_cong [of _ _ concat] map_cong)
qed

lemma can_project_built:
  assumes "hash_join_build ji l r = Inr q"
  shows "can_project (fst (build_join_schema (plan_schema l) (plan_schema r) (ji_type ji))) (ji_projection ji) = Inr ()"
    and "check_join_is_valid (plan_schema l) (plan_schema r) (ji_on ji) = Inr ()" and "ji_on ji \<noteq> []"
    and "ji_null_aware ji \<longrightarrow> ji_type ji = LeftAnti \<and> length (ji_on ji) = 1"
  using assms by (auto simp: hash_join_build_def simp del: can_project.simps split: if_splits)

lemma hash_join_plan_rows:
  assumes "hash_join_build ji l r = Inr q" and "fits_schema l" and "fits_schema r"
  shows "plan_rows (HashJoinExec ji l r) = hash_join_rows ji (plan_schema l) (plan_schema r) (plan_rows l) (plan_rows r)"
proof (cases "ji_type ji = Inner")
  case True
  have "map (project_row (ji_projection ji)) (inner_join_rows ji (plan_rows l) (plan_rows r)) =
      join_rows ji (output_columns ji (plan_schema l) (plan_schema r)) (plan_rows l) (plan_rows r)"
    using assms(2,3) can_project_built(1) [OF assms(1)] True by (intro inner_rows_columns) (auto simp: fits_schema_def list_all_iff)
  moreover have "\<not> ji_null_aware ji" using can_project_built(4) [OF assms(1)] True by auto
  ultimately show ?thesis using True by (simp add: hash_join_run_def hash_join_rows_def flat_rows_def)
next
  case False
  then show ?thesis by (simp add: hash_join_run_def spec_run_def spec_batch_def flat_rows_def)
qed

section \<open>Equivalent plans\<close>

definition same_result :: "plan \<Rightarrow> plan \<Rightarrow> bool" where
  "same_result p q \<longleftrightarrow> plan_fields q = plan_fields p \<and> mset (plan_rows q) = mset (plan_rows p)"

lemma same_result_refl [simp]: "same_result p p"
  by (simp add: same_result_def)

lemma same_result_trans: "same_result p q \<Longrightarrow> same_result q r \<Longrightarrow> same_result p r"
  by (simp add: same_result_def)

lemma same_result_fits: "same_result p q \<Longrightarrow> fits_schema q = fits_schema p"
  by (auto simp: same_result_def fits_schema_def list_all_iff dest!: mset_eq_setD)

text \<open>An operator that does not depend on the order of its input rows or on schema metadata.\<close>

definition order_free :: "exec_op \<Rightarrow> bool" where
  "order_free op \<longleftrightarrow>
     (\<forall>bss bss'. list_all2 (\<lambda>bs bs'. mset (flat_rows bs) = mset (flat_rows bs')) bss bss'
        \<longrightarrow> mset (flat_rows (op_run op bss)) = mset (flat_rows (op_run op bss'))) \<and>
     (\<forall>ss ss'. map schema_fields ss = map schema_fields ss'
        \<longrightarrow> schema_fields (op_schema op ss) = schema_fields (op_schema op ss') \<and> op_rebuild op ss = op_rebuild op ss')"

lemma order_free_run:
  assumes "order_free op" and "list_all2 (\<lambda>bs bs'. mset (flat_rows bs) = mset (flat_rows bs')) bss bss'"
  shows "mset (flat_rows (op_run op bss)) = mset (flat_rows (op_run op bss'))"
  using assms unfolding order_free_def by blast

lemma order_free_schema:
  assumes "order_free op" and "map schema_fields ss = map schema_fields ss'"
  shows "schema_fields (op_schema op ss) = schema_fields (op_schema op ss')" and "op_rebuild op ss = op_rebuild op ss'"
  using assms unfolding order_free_def by blast+

text \<open>A node that was built by the constructors, over inputs whose rows fit their schemas.\<close>

definition sound_node :: "plan \<Rightarrow> bool" where
  "sound_node p = (case p of
       HashJoinExec ji l r \<Rightarrow> hash_join_build ji l r = Inr p \<and> ji_fetch ji = None \<and> fits_schema l \<and> fits_schema r
     | OtherExec op ps \<Rightarrow> op_rebuild op (map plan_schema ps) = None \<and> order_free op \<and> list_all fits_schema ps
     | _ \<Rightarrow> True)"

function all_nodes :: "(plan \<Rightarrow> bool) \<Rightarrow> plan \<Rightarrow> bool" where
  "all_nodes P p \<longleftrightarrow> P p \<and> list_all (all_nodes P) (children p)"
  by pat_completeness auto
termination by (relation "measure (\<lambda>(P, p). size p)") (auto intro: size_child)

declare all_nodes.simps [simp del]

lemma same_results_columns:
  assumes "list_all2 same_result ps qs"
  shows "map schema_fields (map plan_schema qs) = map schema_fields (map plan_schema ps)"
    and "list_all2 (\<lambda>bs bs'. mset (flat_rows bs) = mset (flat_rows bs')) (map (denote spec_run) qs) (map (denote spec_run) ps)"
    and "list_all fits_schema qs = list_all fits_schema ps"
proof -
  show "map schema_fields (map plan_schema qs) = map schema_fields (map plan_schema ps)"
    using assms by (induction rule: list_all2_induct) (simp_all add: same_result_def)
  show "list_all2 (\<lambda>bs bs'. mset (flat_rows bs) = mset (flat_rows bs')) (map (denote spec_run) qs) (map (denote spec_run) ps)"
    using assms by (induction rule: list_all2_induct) (simp_all add: same_result_def)
  show "list_all fits_schema qs = list_all fits_schema ps"
    using assms
  proof (induction rule: list_all2_induct)
    case (Cons p ps q qs)
    then show ?case using same_result_fits [OF Cons.hyps(1)] by simp
  qed simp
qed

lemma check_join_is_valid_fields:
  "schema_fields ls' = schema_fields ls \<Longrightarrow> schema_fields rs' = schema_fields rs \<Longrightarrow>
     check_join_is_valid ls' rs' on = check_join_is_valid ls rs on"
  by (simp add: check_join_is_valid_def schema_columns_def)

lemma build_join_schema_fields:
  assumes "schema_fields ls' = schema_fields ls" and "schema_fields rs' = schema_fields rs"
  shows "schema_fields (fst (build_join_schema ls' rs' t)) = schema_fields (fst (build_join_schema ls rs t))"
    and "snd (build_join_schema ls' rs' t) = snd (build_join_schema ls rs t)"
  using assms by (simp_all add: build_join_schema_def side_fields_def Let_def)

lemma can_project_fields: "schema_fields s' = schema_fields s \<Longrightarrow> can_project s' proj = can_project s proj"
  by (cases proj) simp_all

lemma hash_join_schema_fields:
  assumes "schema_fields ls' = schema_fields ls" and "schema_fields rs' = schema_fields rs"
  shows "schema_fields (hash_join_schema ji ls' rs') = schema_fields (hash_join_schema ji ls rs)"
    and "output_columns ji ls' rs' = output_columns ji ls rs"
  using build_join_schema_fields [OF assms, of "ji_type ji"]
  by (cases "ji_projection ji"; simp add: hash_join_schema_def output_columns_def)+

lemma hash_join_build_fields:
  assumes "plan_fields l' = plan_fields l" and "plan_fields r' = plan_fields r" and "hash_join_build ji l r = Inr q"
  shows "hash_join_build ji l' r' = Inr (HashJoinExec ji l' r')"
  using assms check_join_is_valid_fields [OF assms(1,2)] can_project_fields [OF build_join_schema_fields(1) [OF assms(1,2)]]
  by (auto simp: hash_join_build_def simp del: can_project.simps split: if_splits)

lemma not_in_mset: "mset R = mset R' \<Longrightarrow> not_in ji R = not_in ji R'"
  unfolding not_in_def [abs_def] list_all_iff by (drule mset_eq_setD) simp

lemma hash_join_rows_mset:
  assumes "ji_fetch ji = None" and "mset L = mset L'" and "mset R = mset R'"
    and "schema_fields ls' = schema_fields ls" and "schema_fields rs' = schema_fields rs"
  shows "mset (hash_join_rows ji ls' rs' L R) = mset (hash_join_rows ji ls rs L' R')"
proof -
  have cols: "output_columns ji ls' rs' = output_columns ji ls rs" by (rule hash_join_schema_fields(2) [OF assms(4,5)])
  have "mset (left_rows cols (not_in ji R) L) = mset (left_rows cols (not_in ji R') L')" for cols
    unfolding not_in_mset [OF assms(3)] by (rule side_mset(1) [OF assms(2)]) simp
  then show ?thesis
    using assms(1) join_rows_mset [OF assms(2,3), of ji] by (simp only: hash_join_rows_def take_fetch_def option.case cols split: if_split) simp
qed

text \<open>Rebuilding a node over equivalent children.\<close>

lemma with_new_children_same:
  assumes "sound_node p" and "list_all2 same_result (children p) cs"
  shows "\<exists>q. with_new_children p cs = Inr q \<and> sound_node q \<and> same_result p q \<and> children q = cs"
proof (cases p)
  case (HashJoinExec ji l r)
  obtain l' r' where cs: "cs = [l', r']" "same_result l l'" "same_result r r'"
    using assms(2) HashJoinExec by (auto simp: list_all2_Cons1)
  have s: "hash_join_build ji l r = Inr p" "ji_fetch ji = None" "fits_schema l" "fits_schema r"
    using assms(1) HashJoinExec by (simp_all add: sound_node_def)
  have f: "plan_fields l' = plan_fields l" "plan_fields r' = plan_fields r" "fits_schema l'" "fits_schema r'"
    using cs(2,3) s(3,4) same_result_fits [OF cs(2)] same_result_fits [OF cs(3)] by (simp_all add: same_result_def)
  have b: "hash_join_build ji l' r' = Inr (HashJoinExec ji l' r')" by (rule hash_join_build_fields [OF f(1,2) s(1)])
  have "mset (plan_rows (HashJoinExec ji l' r')) = mset (plan_rows (HashJoinExec ji l r))"
    unfolding hash_join_plan_rows [OF b f(3,4)] hash_join_plan_rows [OF s(1,3,4)]
    using cs(2,3) s(2) f by (intro hash_join_rows_mset) (simp_all add: same_result_def)
  moreover have "plan_fields (HashJoinExec ji l' r') = plan_fields (HashJoinExec ji l r)"
    using hash_join_schema_fields(1) [OF f(1,2)] by simp
  ultimately have "sound_node (HashJoinExec ji l' r') \<and> same_result p (HashJoinExec ji l' r')"
    using HashJoinExec b f(3,4) s(2) by (simp add: sound_node_def same_result_def del: denote.simps plan_schema.simps)
  then show ?thesis using HashJoinExec cs(1) b by simp
next
  case (OtherExec op ps)
  note same = same_results_columns [of ps cs]
  have s: "op_rebuild op (map plan_schema ps) = None" "order_free op" "list_all fits_schema ps" "list_all2 same_result ps cs"
    using assms OtherExec by (simp_all add: sound_node_def)
  have "op_rebuild op (map plan_schema cs) = None"
    "schema_fields (op_schema op (map plan_schema cs)) = schema_fields (op_schema op (map plan_schema ps))"
    using order_free_schema [OF s(2) same(1) [OF s(4)]] s(1) by simp_all
  moreover have "mset (flat_rows (op_run op (map (denote spec_run) cs))) = mset (flat_rows (op_run op (map (denote spec_run) ps)))"
    by (rule order_free_run [OF s(2) same(2) [OF s(4)]])
  ultimately show ?thesis
    using OtherExec s same(3) [OF s(4)] by (simp add: sound_node_def same_result_def)
qed (use assms in \<open>auto simp: list_all2_Cons1 sound_node_def same_result_def\<close>)

text \<open>
  Bottom-up rewriting with a function that keeps results: \<open>N\<close> is what the function needs of a
  node, \<open>M\<close> what its result has in every node.
\<close>

lemma transform_up_same:
  assumes "all_nodes (\<lambda>p. sound_node p \<and> N p) p"
    and keep: "\<And>p cs q. N p \<Longrightarrow> list_all2 same_result (children p) cs \<Longrightarrow> with_new_children p cs = Inr q \<Longrightarrow> N q"
    and f: "\<And>p. sound_node p \<Longrightarrow> N p \<Longrightarrow> list_all (all_nodes M) (children p) \<Longrightarrow>
      \<exists>q t. f p = Inr (q, t) \<and> same_result p q \<and> all_nodes M q \<and> (\<not> t \<longrightarrow> q = p)"
  shows "\<exists>q t. transform_up f p = Inr (q, t) \<and> same_result p q \<and> all_nodes M q \<and> (\<not> t \<longrightarrow> q = p)"
  using assms(1)
proof (induction "size p" arbitrary: p rule: less_induct)
  case less
  have node: "sound_node p" "N p" "list_all (all_nodes (\<lambda>p. sound_node p \<and> N p)) (children p)"
    using less.prems by (simp_all add: all_nodes.simps [of _ p])
  let ?Q = "\<lambda>c z. transform_up f c = Inr z \<and> same_result c (fst z) \<and> all_nodes M (fst z) \<and> (\<not> snd z \<longrightarrow> fst z = c)"
  have "\<exists>z. ?Q c z" if c: "c \<in> set (children p)" for c
  proof -
    have "all_nodes (\<lambda>p. sound_node p \<and> N p) c" using node(3) c by (simp add: list_all_iff)
    from less.hyps [OF size_child [OF c] this] show ?thesis by auto
  qed
  then obtain g where g: "\<forall>c \<in> set (children p). ?Q c (g c)" using bchoice [of "set (children p)" ?Q] by blast
  let ?zs = "map g (children p)"
  have zs: "collect_res (map (transform_up f) (children p)) = Inr ?zs"
    unfolding collect_res_Inr_iff using g by (auto intro: map_cong)
  have same: "list_all2 same_result (children p) (map fst ?zs)" and ms: "list_all (all_nodes M) (map fst ?zs)"
    using g by (auto simp: list_all2_conv_all_nth list_all_iff)
  have "\<exists>q t. (if list_ex snd ?zs then bind_res (with_new_children p (map fst ?zs)) (\<lambda>q. Inr (q, True)) else Inr (p, False)) = Inr (q, t)
      \<and> sound_node q \<and> N q \<and> same_result p q \<and> list_all (all_nodes M) (children q) \<and> (\<not> t \<longrightarrow> q = p)"
  proof (cases "list_ex snd ?zs")
    case True
    obtain q where q: "with_new_children p (map fst ?zs) = Inr q" "sound_node q" "same_result p q" "children q = map fst ?zs"
      using with_new_children_same [OF node(1) same] by blast
    with True ms keep [OF node(2) same q(1)] show ?thesis by (intro exI [of _ q] exI [of _ True]) simp
  next
    case False
    then have "map fst ?zs = children p" using g by (auto simp: list_ex_iff intro!: map_idI)
    with False ms node show ?thesis by (intro exI [of _ p] exI [of _ False]) simp
  qed
  then obtain q t where q: "(if list_ex snd ?zs then bind_res (with_new_children p (map fst ?zs)) (\<lambda>q. Inr (q, True)) else Inr (p, False)) = Inr (q, t)"
    "sound_node q" "N q" "same_result p q" "list_all (all_nodes M) (children q)" "\<not> t \<longrightarrow> q = p" by blast
  obtain q' t' where q': "f q = Inr (q', t')" "same_result q q'" "all_nodes M q'" "\<not> t' \<longrightarrow> q' = q" using f [OF q(2,3,5)] by blast
  have "transform_up f p = Inr (q', t' \<or> t)"
    unfolding transform_up.simps [of f p] zs bind_res.simps q(1) prod.case q'(1) ..
  moreover have "same_result p q'" using q(4) q'(2) by (rule same_result_trans)
  ultimately show ?case using q(6) q'(3,4) by auto
qed

section \<open>Swapped joins\<close>

lemma length_output_columns: "length (output_columns ji ls rs) = length (schema_fields (hash_join_schema ji ls rs))"
  by (cases "ji_projection ji") (simp_all add: output_columns_def hash_join_schema_def length_join_schema)

lemma join_rows_length: "r \<in> set (join_rows ji cols L R) \<Longrightarrow> length r = length cols"
  by (cases "ji_type ji") (auto simp: join_rows_def matched_rows_def left_rows_def right_rows_def join_row_def)

lemma set_take_fetch: "set (take_fetch n xs) \<subseteq> set xs"
  by (cases n) (auto simp: take_fetch_def dest: in_set_takeD)

lemma hash_join_rows_length:
  "r \<in> set (hash_join_rows ji ls rs L R) \<Longrightarrow> length r = length (schema_fields (hash_join_schema ji ls rs))"
proof -
  let ?cols = "output_columns ji ls rs"
  assume "r \<in> set (hash_join_rows ji ls rs L R)"
  then have "r \<in> set (if ji_null_aware ji then left_rows ?cols (not_in ji R) L else join_rows ji ?cols L R)"
    unfolding hash_join_rows_def by (rule subsetD [OF set_take_fetch])
  then have "length r = length ?cols" by (cases "ji_null_aware ji") (auto simp: left_rows_def join_row_def join_rows_length)
  then show ?thesis by (simp only: length_output_columns)
qed

lemma fits_hash_join:
  assumes "hash_join_build ji l r = Inr q" and "fits_schema l" and "fits_schema r"
  shows "fits_schema (HashJoinExec ji l r)"
  unfolding fits_schema_def hash_join_plan_rows [OF assms] list_all_iff by (auto dest: hash_join_rows_length)

text \<open>The node that restores the order of the columns.\<close>

lemma projection_op_free: "order_free (projection_op exprs out)"
proof -
  have rows: "flat_rows (op_run (projection_op exprs out) bss) = (case bss of [] \<Rightarrow> [] | bs # _ \<Rightarrow> map (pick_columns exprs) (flat_rows bs))" for bss
    by (cases bss) (simp_all add: projection_op_def flat_rows_def map_concat comp_def)
  have pm: "projection_mapping exprs s = projection_mapping exprs s'" if "schema_fields s = schema_fields s'" for s s'
  proof -
    have "check_column s = check_column s'" using that by (simp add: fun_eq_iff check_column_def)
    then show ?thesis by (simp only: projection_mapping_def)
  qed
  have "op_rebuild (projection_op exprs out) ss = op_rebuild (projection_op exprs out) ss'" if m: "map schema_fields ss = map schema_fields ss'" for ss ss'
  proof (cases ss)
    case (Cons x xs)
    then obtain y ys where "ss' = y # ys" "schema_fields x = schema_fields y" using m by (cases ss') auto
    then show ?thesis using Cons pm [of x y] by (simp add: projection_op_def)
  qed (use m in simp)
  moreover have "mset (flat_rows (op_run (projection_op exprs out) bss)) = mset (flat_rows (op_run (projection_op exprs out) bss'))"
    if "list_all2 (\<lambda>bs bs'. mset (flat_rows bs) = mset (flat_rows bs')) bss bss'" for bss bss'
    using that unfolding rows by (cases bss; cases bss') simp_all
  moreover have "schema_fields (op_schema (projection_op exprs out) ss) = schema_fields (op_schema (projection_op exprs out) ss')" for ss ss'
    by (simp add: projection_op_def)
  ultimately show ?thesis unfolding order_free_def by blast
qed

lemma reorder_ok:
  assumes c: "plan_fields c = rf @ lf" "fits_schema c"
    and names: "map field_name rf = map field_name (schema_fields rs)" "map field_name lf = map field_name (schema_fields ls)"
  shows "\<exists>out. reorder_output_after_swap c ls rs = Inr (OtherExec (projection_op (swap_reverting_projection ls rs) out) [c])
      \<and> schema_fields out = lf @ rf"
    and "sound_node (OtherExec (projection_op (swap_reverting_projection ls rs) out) [c])"
    and "plan_rows (OtherExec (projection_op (swap_reverting_projection ls rs) out) [c]) =
      map (pick_columns (swap_reverting_projection ls rs)) (plan_rows c)"
proof -
  let ?exprs = "swap_reverting_projection ls rs"
  have len: "length rf = length (schema_fields rs)" "length lf = length (schema_fields ls)"
    using names [THEN arg_cong [of _ _ length]] by simp_all
  have ex: "\<exists>k. ?exprs ! i = ((field_name ((lf @ rf) ! i), k), field_name ((lf @ rf) ! i)) \<and> k < length (rf @ lf) \<and> (rf @ lf) ! k = (lf @ rf) ! i"
    if i: "i < length (lf @ rf)" for i
  proof (cases "i < length lf")
    case True
    then have "field_name (lf ! i) = field_name (schema_fields ls ! i)" using arg_cong [OF names(2), of "\<lambda>xs. xs ! i"] len by simp
    with True len show ?thesis by (intro exI [of _ "length rf + i"]) (simp add: swap_reverting_projection_def Let_def nth_append enumerate_eq_zip)
  next
    case False
    then have "field_name (rf ! (i - length lf)) = field_name (schema_fields rs ! (i - length lf))"
      using arg_cong [OF names(1), of "\<lambda>xs. xs ! (i - length lf)"] len i by simp
    with False len i show ?thesis
      by (intro exI [of _ "i - length lf"]) (simp add: swap_reverting_projection_def Let_def nth_append enumerate_eq_zip)
  qed
  have n: "length ?exprs = length (lf @ rf)" by (simp add: swap_reverting_projection_def Let_def len)
  have each: "projected_field (plan_schema c) (?exprs ! i) = Inr ((lf @ rf) ! i)" "check_column (plan_schema c) (?exprs ! i) = Inr ()"
    if i: "i < length (lf @ rf)" for i
  proof -
    obtain k where k: "?exprs ! i = ((field_name ((lf @ rf) ! i), k), field_name ((lf @ rf) ! i))" "k < length (rf @ lf)" "(rf @ lf) ! k = (lf @ rf) ! i"
      using ex [OF i] by blast
    show "projected_field (plan_schema c) (?exprs ! i) = Inr ((lf @ rf) ! i)" "check_column (plan_schema c) (?exprs ! i) = Inr ()"
      unfolding k(1) projected_field_def check_column_def prod.case c(1) using k(2,3) by simp_all
  qed
  have fs: "map (projected_field (plan_schema c)) ?exprs = map Inr (lf @ rf)"
    using each(1) n by (intro nth_equalityI) (simp_all del: map_append)
  have "map (check_column (plan_schema c)) ?exprs = map Inr (map (\<lambda>_. ()) ?exprs)"
    using each(2) n by (intro nth_equalityI) simp_all
  then have ck: "projection_mapping ?exprs (plan_schema c) = Inr ()"
    by (simp only: projection_mapping_def collect_res_map_Inr bind_res.simps)
  show "\<exists>out. reorder_output_after_swap c ls rs = Inr (OtherExec (projection_op ?exprs out) [c]) \<and> schema_fields out = lf @ rf"
    by (simp only: reorder_output_after_swap_def projection_try_new_def projection_schema_def fs collect_res_map_Inr bind_res.simps ck)
       (intro exI [of _ "\<lparr>schema_fields = lf @ rf, metadata = metadata (plan_schema c)\<rparr>"], simp)
  show "sound_node (OtherExec (projection_op ?exprs out) [c])"
  proof -
    have "op_rebuild (projection_op ?exprs out) [plan_schema c] = None" by (simp add: projection_op_def error_of_def ck)
    then show ?thesis using c(2) projection_op_free by (simp add: sound_node_def)
  qed
  show "plan_rows (OtherExec (projection_op ?exprs out) [c]) = map (pick_columns ?exprs) (plan_rows c)"
    by (simp add: projection_op_def flat_rows_def map_concat comp_def)
qed

lemma check_join_is_valid_swap:
  "check_join_is_valid ls rs on = Inr () \<Longrightarrow> check_join_is_valid rs ls (map (\<lambda>(l, r). (r, l)) on) = Inr ()"
  by (auto simp: check_join_is_valid_def Let_def comp_def case_prod_unfold split: if_splits)

text \<open>The plan after a swap: the swapped join, or a projection of it.\<close>

definition swapped_plan :: "join_info \<Rightarrow> plan \<Rightarrow> plan \<Rightarrow> plan \<Rightarrow> bool" where
  "swapped_plan ji l r q \<longleftrightarrow> q = HashJoinExec ji r l \<or>
     (\<exists>exprs out. q = OtherExec (projection_op exprs out) [HashJoinExec ji r l] \<and> sound_node q)"

lemma swap_inputs_same:
  assumes s: "sound_node (HashJoinExec ji l r)" and na: "\<not> ji_null_aware ji"
  shows "\<exists>q. swap_inputs m ji l r = Inr q \<and> same_result (HashJoinExec ji l r) q
    \<and> swapped_plan (swap_info (plan_schema l) (plan_schema r) m ji) l r q
    \<and> sound_node (HashJoinExec (swap_info (plan_schema l) (plan_schema r) m ji) r l)"
proof -
  let ?ls = "plan_schema l" and ?rs = "plan_schema r"
  let ?ji = "swap_info ?ls ?rs m ji"
  have b: "hash_join_build ji l r = Inr (HashJoinExec ji l r)" "ji_fetch ji = None" "fits_schema l" "fits_schema r"
    using s by (simp_all add: sound_node_def)
  note built = can_project_built [OF b(1)]
  let ?simple = "one_sided (ji_type ji) \<or> ji_projection ji \<noteq> None"
  have proj: "can_project (fst (build_join_schema ?rs ?ls (swap (ji_type ji)))) (ji_projection ?ji) = Inr ()"
    using projected_swap(3) [OF _ built(1)] by (cases ?simple) (auto simp: swap_info_projection)
  have b': "hash_join_build ?ji r l = Inr (HashJoinExec ?ji r l)"
    using proj check_join_is_valid_swap [OF built(2)] built(3) na
    by (simp add: hash_join_build_def del: can_project.simps)
  have snd': "sound_node (HashJoinExec ?ji r l)" using b' b by (simp add: sound_node_def)
  have rows: "plan_rows (HashJoinExec ?ji r l) = join_rows ?ji (output_columns ?ji ?rs ?ls) (plan_rows r) (plan_rows l)"
    "plan_rows (HashJoinExec ji l r) = join_rows ji (output_columns ji ?ls ?rs) (plan_rows l) (plan_rows r)"
    unfolding hash_join_plan_rows [OF b' b(4,3)] hash_join_plan_rows [OF b(1,3,4)]
    using b(2) na by (simp_all add: hash_join_rows_def take_fetch_def)
  show ?thesis
  proof (cases ?simple)
    case True
    have "same_result (HashJoinExec ji l r) (HashJoinExec ?ji r l)"
      unfolding same_result_def rows using projected_rows [OF True built(1)] projected_swap(2) [OF True built(1)] by simp
    with True b' snd' show ?thesis by (simp add: swap_inputs_def swapped_plan_def)
  next
    case False
    then have f: "\<not> one_sided (ji_type ji)" "ji_projection ji = None" by auto
    note ps = plain_swap(3) [OF f, of ?ls ?rs m] plain_swap(4) [OF f, of ?ls ?rs]
    have fit: "fits_schema (HashJoinExec ?ji r l)" by (rule fits_hash_join [OF b' b(4,3)])
    have pf: "plan_fields (HashJoinExec ?ji r l) = map (\<lambda>f. output_join_field f (ji_type ji) False) (plan_fields r) @
        map (\<lambda>f. output_join_field f (ji_type ji) True) (plan_fields l)" using ps(1) by simp
    note ro = reorder_ok [OF pf fit, of ?rs ?ls]
    obtain out where out: "reorder_output_after_swap (HashJoinExec ?ji r l) ?ls ?rs =
        Inr (OtherExec (projection_op (swap_reverting_projection ?ls ?rs) out) [HashJoinExec ?ji r l])"
      "schema_fields out = plan_fields (HashJoinExec ji l r)"
      using ro(1) ps(2) by (auto simp: comp_def)
    let ?q = "OtherExec (projection_op (swap_reverting_projection ?ls ?rs) out) [HashJoinExec ?ji r l]"
    have "same_result (HashJoinExec ji l r) ?q"
      using ro(3) [of out] out(2) reverted_rows [OF f, of ?ls ?rs m]
      by (simp add: same_result_def rows comp_def projection_op_def [of "swap_reverting_projection ?ls ?rs" out] del: denote.simps)
    moreover have "sound_node ?q" using ro(2) [of out] by (simp add: comp_def)
    ultimately show ?thesis using False b' snd' out(1) by (auto simp: swap_inputs_def swapped_plan_def)
  qed
qed

section \<open>Other joins\<close>

lemma spec_join_rows:
  "plan_rows (OtherExec (spec_join_op n ji ck ls rs) [l, r]) = join_rows ji (output_columns ji ls rs) (plan_rows l) (plan_rows r)"
  by (simp add: spec_join_op_def spec_batch_def flat_rows_def)

lemma spec_join_fields:
  "plan_fields (OtherExec (spec_join_op n ji ck ls rs) [l, r]) = schema_fields (hash_join_schema ji (plan_schema l) (plan_schema r))"
  by (simp add: spec_join_op_def two_schemas_def)

lemma spec_join_rebuild: "op_rebuild (spec_join_op n ji ck ls rs) (map plan_schema [l, r]) = ck (plan_schema l) (plan_schema r)"
  by (simp add: spec_join_op_def two_schemas_def)

lemma output_columns_width:
  assumes "length (schema_fields ls') = length (schema_fields ls)" and "length (schema_fields rs') = length (schema_fields rs)"
  shows "output_columns ji ls' rs' = output_columns ji ls rs"
proof -
  have "left_columns ls' = left_columns ls" "right_columns rs' = right_columns rs" using assms by (simp_all add: left_columns_def right_columns_def)
  then have "snd (build_join_schema ls' rs' (ji_type ji)) = snd (build_join_schema ls rs (ji_type ji))" by (simp only: built_columns)
  then show ?thesis by (simp only: output_columns_def)
qed

lemma two_schemas_short: "length ss < 2 \<Longrightarrow> two_schemas f d ss = d"
  by (cases ss rule: remdups_adj.cases) (simp_all add: two_schemas_def)

lemma spec_join_free:
  assumes ck: "\<And>l l' r r'. schema_fields l = schema_fields l' \<Longrightarrow> schema_fields r = schema_fields r' \<Longrightarrow> ck l r = ck l' r'"
  shows "order_free (spec_join_op n ji ck ls rs)"
proof -
  let ?op = "spec_join_op n ji ck ls rs" and ?cols = "output_columns ji ls rs"
  have "mset (flat_rows (op_run ?op bss)) = mset (flat_rows (op_run ?op bss'))"
    if same: "list_all2 (\<lambda>bs bs'. mset (flat_rows bs) = mset (flat_rows bs')) bss bss'" for bss bss'
  proof (cases "\<exists>L R rest. bss = L # R # rest")
    case True
    then obtain L R rest where bss: "bss = L # R # rest" by blast
    then obtain L' R' rest' where b: "bss = L # R # rest" "bss' = L' # R' # rest'"
      "mset (flat_rows L) = mset (flat_rows L')" "mset (flat_rows R) = mset (flat_rows R')"
      using same by (cases bss' rule: remdups_adj.cases) auto
    have "flat_rows (op_run ?op (L # R # rest)) = join_rows ji ?cols (flat_rows L) (flat_rows R)" for L R rest
      by (simp add: spec_join_op_def spec_batch_def flat_rows_def)
    then show ?thesis unfolding b(1,2) by (simp only: join_rows_mset [OF b(3,4)])
  next
    case False
    have "length bss = length bss'" using same by (rule list_all2_lengthD)
    moreover have "length bss < 2" using False by (cases bss rule: remdups_adj.cases) auto
    moreover have "op_run ?op xs = []" if "length xs < 2" for xs
      using that by (cases xs rule: remdups_adj.cases) (simp_all add: spec_join_op_def)
    ultimately show ?thesis by simp
  qed
  moreover have "schema_fields (op_schema ?op ss) = schema_fields (op_schema ?op ss') \<and> op_rebuild ?op ss = op_rebuild ?op ss'"
    if same: "map schema_fields ss = map schema_fields ss'" for ss ss'
  proof (cases "\<exists>x y zs. ss = x # y # zs")
    case True
    then obtain x y zs where ss: "ss = x # y # zs" by blast
    then obtain x' y' zs' where b: "ss = x # y # zs" "ss' = x' # y' # zs'" "schema_fields x = schema_fields x'" "schema_fields y = schema_fields y'"
      using same by (cases ss' rule: remdups_adj.cases) auto
    show ?thesis unfolding b(1,2) using ck [OF b(3,4)] hash_join_schema_fields(1) [OF b(3,4), of ji]
      by (simp add: spec_join_op_def two_schemas_def)
  next
    case False
    have "length ss = length ss'" using arg_cong [OF same, of length] by simp
    moreover have "length ss < 2" using False by (cases ss rule: remdups_adj.cases) auto
    ultimately show ?thesis by (simp add: spec_join_op_def two_schemas_short)
  qed
  ultimately show ?thesis unfolding order_free_def by blast
qed

lemma nested_loop_check_project:
  "nested_loop_check ji ls rs = None \<longleftrightarrow> can_project (fst (build_join_schema ls rs (ji_type ji))) (ji_projection ji) = Inr ()"
  by (cases "ji_projection ji") (simp_all add: nested_loop_check_def projection_bound list_all_iff del: can_project.simps(2))

lemma nested_loop_free: "order_free (nested_loop_op ji ls rs)"
  unfolding nested_loop_op_def
proof (rule spec_join_free)
  fix l l' r r' :: schema assume "schema_fields l = schema_fields l'" "schema_fields r = schema_fields r'"
  then show "nested_loop_check ji l r = nested_loop_check ji l' r'" by (simp only: nested_loop_check_def build_join_schema_fields(1) [of l l' r r'])
qed

lemma symmetric_free: "order_free (symmetric_op ji ls rs)"
  unfolding symmetric_op_def
proof (rule spec_join_free)
  fix l l' r r' :: schema assume "schema_fields l = schema_fields l'" "schema_fields r = schema_fields r'"
  then show "error_of (symmetric_check ji l r) = error_of (symmetric_check ji l' r')"
    by (simp only: symmetric_check_def check_join_is_valid_fields [of l l' r r'])
qed

lemma spec_join_fits:
  assumes "length (schema_fields ls) = length (plan_fields l)" and "length (schema_fields rs) = length (plan_fields r)"
  shows "fits_schema (OtherExec (spec_join_op n ji ck ls rs) [l, r])"
  unfolding fits_schema_def spec_join_rows spec_join_fields list_all_iff
  using output_columns_width [OF assms, of ji] length_output_columns [of ji "plan_schema l" "plan_schema r"] by (auto dest: join_rows_length)

end
