(* ===== verification/JoinSelectionModes.thy ===== *)
theory JoinSelectionModes
  imports JoinSelectionSound
begin

text \<open>
  What the rule that picks build sides decides: the partition mode of every join, which input
  is built, and what it does to the metadata of a schema.
\<close>

section \<open>Partition modes\<close>

definition mode_resolved :: "plan \<Rightarrow> bool" where
  "mode_resolved p = (case p of HashJoinExec ji l r \<Rightarrow> ji_mode ji \<noteq> Auto | _ \<Rightarrow> True)"

abbreviation resolved :: "plan \<Rightarrow> bool" where
  "resolved \<equiv> all_nodes mode_resolved"

lemma resolved_other: "list_all resolved ps \<Longrightarrow> resolved (OtherExec op ps)"
  by (subst all_nodes.simps) (simp add: mode_resolved_def)

lemma resolved_join: "ji_mode ji \<noteq> Auto \<Longrightarrow> resolved l \<Longrightarrow> resolved r \<Longrightarrow> resolved (HashJoinExec ji l r)"
  by (subst all_nodes.simps) (simp add: mode_resolved_def)

lemma resolved_bloom:
  "resolved p \<Longrightarrow> resolved (BloomFilterBuildExec p c ch)" "resolved p \<Longrightarrow> resolved (BloomFilterProbeExec p c ch)"
  by (subst all_nodes.simps, simp add: mode_resolved_def)+

lemma reorder_Inr: "reorder_output_after_swap c ls rs = Inr q \<Longrightarrow> \<exists>op. q = OtherExec op [c]"
  by (auto simp: reorder_output_after_swap_def projection_try_new_def)

text \<open>The plan that a choice for a hash join leads to.\<close>

lemma swap_inputs_Inr:
  assumes "swap_inputs m ji l r = Inr q"
  shows "\<exists>jj. ji_mode jj = m \<and> (q = HashJoinExec jj r l \<or> (\<exists>op. q = OtherExec op [HashJoinExec jj r l]))"
  using assms by (auto simp: swap_inputs_def dest!: hash_join_build_Inr reorder_Inr intro!: exI [of _ "swap_info (plan_schema l) (plan_schema r) m ji"]
      split: if_splits)

lemma with_mode_Inr: "with_mode m ji l r = Inr q \<Longrightarrow> q = HashJoinExec (ji\<lparr>ji_mode := m\<rparr>) l r"
  unfolding with_mode_def by (rule hash_join_build_Inr)

definition chosen :: "plan \<Rightarrow> partition_mode \<Rightarrow> plan \<Rightarrow> plan \<Rightarrow> bool" where
  "chosen q m a b \<longleftrightarrow> (\<exists>jj. ji_mode jj = m \<and> (q = HashJoinExec jj a b \<or> (\<exists>op. q = OtherExec op [HashJoinExec jj a b])))"

lemma chosen_swap: "swap_inputs m ji l r = Inr q \<Longrightarrow> chosen q m r l"
  unfolding chosen_def by (rule swap_inputs_Inr)

lemma chosen_mode: "with_mode m ji l r = Inr q \<Longrightarrow> chosen q m l r"
  unfolding chosen_def by (drule with_mode_Inr) (auto intro!: exI [of _ "ji\<lparr>ji_mode := m\<rparr>"])

lemma chosen_resolved: "chosen q m a b \<Longrightarrow> m \<noteq> Auto \<Longrightarrow> resolved a \<Longrightarrow> resolved b \<Longrightarrow> resolved q"
  unfolding chosen_def by (elim exE conjE disjE) (simp_all add: resolved_join resolved_other)

text \<open>Which input is built, in which mode, and why.\<close>

definition can_collect :: "'v plan_env \<Rightarrow> join_options \<Rightarrow> plan \<Rightarrow> bool" where
  "can_collect env opts p =
     supports_collect_by_thresholds env p (single_partition_threshold opts) (single_partition_threshold_rows opts)"

lemma try_collect_left_choice:
  assumes "try_collect_left env opts ign ji l r = Inr (Some q)"
  shows "chosen q CollectLeft l r \<and> (ign \<or> can_collect env opts l)
      \<and> ((ign \<or> can_collect env opts r) \<and> \<not> ji_null_aware ji \<longrightarrow> supports_swap (ji_type ji) \<longrightarrow> should_swap_join_order env opts l r = Inr False)
    \<or> chosen q CollectLeft r l \<and> \<not> ji_null_aware ji \<and> (ign \<or> can_collect env opts r)
      \<and> (ign \<or> can_collect env opts l \<longrightarrow> should_swap_join_order env opts l r = Inr True)"
  using assms
  by (auto simp: try_collect_left_def can_collect_def [symmetric] Let_def dest!: chosen_swap chosen_mode split: if_splits bool.splits)

lemma try_collect_left_none:
  assumes "try_collect_left env opts ign ji l r = Inr None"
  shows "\<not> ign \<and> \<not> can_collect env opts l"
  using assms by (auto simp: try_collect_left_def can_collect_def [symmetric] Let_def split: if_splits bool.splits)

lemma partitioned_choice:
  assumes "partitioned_hash_join env opts ji l r = Inr q"
  shows "chosen q (if ji_null_aware ji then CollectLeft else Partitioned) l r
      \<and> (\<not> ji_null_aware ji \<and> supports_swap (ji_type ji) \<longrightarrow> should_swap_join_order env opts l r = Inr False)
    \<or> chosen q Partitioned r l \<and> \<not> ji_null_aware ji \<and> should_swap_join_order env opts l r = Inr True"
  using assms by (auto simp: partitioned_hash_join_def dest!: chosen_swap chosen_mode split: if_splits)

lemma statistical_hash_join_resolved:
  assumes "statistical_hash_join env opts ji l r = Inr (q, t)" and "resolved l" and "resolved r"
  shows "resolved q"
proof (cases "ji_mode ji = Partitioned")
  case True
  then consider "q = HashJoinExec ji l r" | "chosen q Partitioned r l"
    using assms(1) by (auto simp: statistical_hash_join_def dest!: chosen_swap split: if_splits)
  then show ?thesis
    by cases (use True assms(2,3) in \<open>simp_all add: resolved_join chosen_resolved\<close>)
next
  case False
  with assms(1) obtain c where c: "try_collect_left env opts (ji_mode ji = CollectLeft) ji l r = Inr c"
    "case c of Some p \<Rightarrow> q = p | None \<Rightarrow> partitioned_hash_join env opts ji l r = Inr q"
    by (auto simp: statistical_hash_join_def split: option.splits)
  show ?thesis
  proof (cases c)
    case None
    then have "\<exists>m a b. chosen q m a b \<and> m \<noteq> Auto \<and> {a, b} = {l, r}"
      using partitioned_choice [of env opts ji l r q] c(2) by (cases "ji_null_aware ji") (auto simp: insert_commute)
    then show ?thesis using assms(2,3) chosen_resolved by (metis doubleton_eq_iff)
  next
    case (Some p)
    then have "chosen q CollectLeft l r \<or> chosen q CollectLeft r l" using try_collect_left_choice c by fastforce
    then show ?thesis using assms(2,3) chosen_resolved by blast
  qed
qed

lemma statistical_resolved:
  assumes "statistical_join_selection_subrule env opts p = Inr (q, t)" and "list_all resolved (children p)"
  shows "resolved q" and "\<not> t \<Longrightarrow> q = p"
proof -
  have "resolved q \<and> (\<not> t \<longrightarrow> q = p)"
  proof (cases "(env, opts, p)" rule: statistical_join_selection_subrule.cases)
    case (1 env' opts' ji l r)
    then show ?thesis using assms statistical_hash_join_resolved [of env opts ji l r q t]
      by (auto simp: statistical_hash_join_def split: if_splits option.splits)
  next
    case (2 env' opts' op l r)
    have "resolved q'" if "cross_swap_inputs l r = Inr q' \<or> nested_loop_swap_inputs ji l r = Inr q'" for q' ji
      using that assms(2) 2 by (auto simp: cross_swap_inputs_def nested_loop_swap_inputs_def nested_loop_try_new_def
          dest!: reorder_Inr intro!: resolved_other split: if_splits option.splits)
    moreover have "resolved p" using assms(2) 2 by (simp add: resolved_other)
    ultimately show ?thesis
      using assms(1) 2 by (auto simp: swap_if_def Let_def split: if_splits option.splits)
  qed (use assms in \<open>auto simp: resolved_other resolved_bloom\<close>)
  then show "resolved q" and "\<not> t \<Longrightarrow> q = p" by blast+
qed

lemma with_new_children_children:
  "with_new_children p cs = Inr q \<Longrightarrow> length cs = length (children p) \<Longrightarrow> children q = cs"
  by (cases p) (auto split: list.splits option.splits dest: hash_join_build_Inr)

lemma transform_up_resolved:
  assumes f: "\<And>p q t. f p = Inr (q, t) \<Longrightarrow> list_all resolved (children p) \<Longrightarrow> resolved q \<and> (\<not> t \<longrightarrow> q = p)"
  shows "transform_up f p = Inr (q, t) \<Longrightarrow> resolved q \<and> (\<not> t \<longrightarrow> q = p)"
proof (induction "size p" arbitrary: p q t rule: less_induct)
  case less
  obtain zs q1 t1 t2 where zs: "map (transform_up f) (children p) = map Inr zs"
    and q1: "(if list_ex snd zs then bind_res (with_new_children p (map fst zs)) (\<lambda>q. Inr (q, True)) else Inr (p, False)) = Inr (q1, t1)"
    and q2: "f q1 = Inr (q, t2)" "t = (t2 \<or> t1)"
    using less.prems unfolding transform_up.simps [of f p] by (auto simp: collect_res_Inr_iff split: prod.splits)
  have len: "length zs = length (children p)" using arg_cong [OF zs, of length] by simp
  have each: "resolved (fst (zs ! i)) \<and> (\<not> snd (zs ! i) \<longrightarrow> fst (zs ! i) = children p ! i)" if i: "i < length zs" for i
  proof -
    have "transform_up f (children p ! i) = Inr (zs ! i)" using arg_cong [OF zs, of "\<lambda>xs. xs ! i"] i len by simp
    then show ?thesis using less.hyps [of "children p ! i" "fst (zs ! i)" "snd (zs ! i)"] size_child i len by simp
  qed
  have all: "list_all resolved (map fst zs)" using each by (simp add: list_all_length)
  have "list_all resolved (children q1) \<and> (\<not> t1 \<longrightarrow> q1 = p)"
  proof (cases "list_ex snd zs")
    case True
    then have "with_new_children p (map fst zs) = Inr q1" "t1" using q1 by auto
    then show ?thesis using with_new_children_children len all by simp
  next
    case False
    then have "map fst zs = children p" using each len by (intro nth_equalityI) (auto simp: list_ex_length)
    then show ?thesis using False q1 all by simp
  qed
  with f [OF q2(1)] q2(2) show ?case by auto
qed

text \<open>C18. The rule leaves no join undecided: every hash join of the plan it returns has mode
  \<open>CollectLeft\<close> or \<open>Partitioned\<close>, whatever the plan, the statistics and the options are. Only
  these can be executed; \<open>Auto\<close> is an error of \<open>execute\<close>.\<close>

theorem join_selection_resolves_modes:
  assumes "join_selection_optimize env opts p = Inr q"
  shows "all_nodes mode_resolved q"
proof -
  obtain p1 t1 t2 where "transform_up (apply_subrules env) p = Inr (p1, t1)"
    and t: "transform_up (statistical_join_selection_subrule env opts) p1 = Inr (q, t2)"
    using assms by (auto simp: join_selection_optimize_def)
  have "resolved q \<and> (\<not> t2 \<longrightarrow> q = p1)"
    by (rule transform_up_resolved [OF _ t]) (use statistical_resolved in blast)
  then show ?thesis ..
qed

theorem join_selection_resolves_modes_witness:
  "\<exists>q. join_selection_optimize counting_env reordering
      (HashJoinExec (text_hash_join Full) (table (column_schema ''k'') [[CStr ''a'']]) (table (column_schema ''j'') [[CNull]])) = Inr q
    \<and> all_nodes mode_resolved q"
proof -
  obtain q where q: "join_selection_optimize counting_env reordering
      (HashJoinExec (text_hash_join Full) (table (column_schema ''k'') [[CStr ''a'']]) (table (column_schema ''j'') [[CNull]])) = Inr q"
    using join_selection_same [OF counting_env_ok text_join_good [of "[[CStr ''a'']]" "[[CNull]]" Full]] by auto
  from join_selection_resolves_modes [OF q] q show ?thesis by blast
qed

section \<open>The build side\<close>

text \<open>The size in bytes that the statistics give for a plan.\<close>

definition known_bytes :: "'v plan_env \<Rightarrow> plan \<Rightarrow> nat option" where
  "known_bytes env p = (case pe_statistics env p of Inl e \<Rightarrow> None | Inr st \<Rightarrow> get_value (st_total_byte_size st))"

lemma known_bytes_swap:
  assumes "known_bytes env l = Some bl" and "known_bytes env r = Some br" and "join_reordering opts"
  shows "should_swap_join_order env opts l r = Inr (br < bl)"
  using assms by (auto simp: known_bytes_def should_swap_join_order_def split: sum.splits)

lemma known_bytes_collect:
  "known_bytes env p = Some b \<Longrightarrow> can_collect env opts p \<longleftrightarrow> b < single_partition_threshold opts"
  by (auto simp: known_bytes_def can_collect_def supports_collect_by_thresholds_def split: sum.splits)

text \<open>C19. The smaller input is built: if the statistics give the size in bytes of both inputs of
  a hash join that is not null-aware, and reordering is enabled, then the join the rule
  chooses, below a projection or not, has an input on its left that is not larger than the
  other one, in every mode; and an input collected for a join in mode \<open>Auto\<close> is below the
  threshold.\<close>

theorem smaller_side_builds:
  assumes "known_bytes env l = Some bl" and "known_bytes env r = Some br" and "join_reordering opts" and "\<not> ji_null_aware ji"
    and "statistical_hash_join env opts ji l r = Inr (q, t)"
  shows "\<exists>m a b na nb. chosen q m a b \<and> (a = l \<and> b = r \<or> a = r \<and> b = l)
    \<and> known_bytes env a = Some na \<and> known_bytes env b = Some nb \<and> na \<le> nb
    \<and> (ji_mode ji = Auto \<and> m = CollectLeft \<longrightarrow> na < single_partition_threshold opts)"
proof -
  note swp = known_bytes_swap [OF assms(1-3)] and col = known_bytes_collect [OF assms(1), of opts] known_bytes_collect [OF assms(2), of opts]
  have sup: "supports_swap (ji_type ji)" by (cases "ji_type ji") (simp_all add: supports_swap_def)
  let ?good = "\<lambda>m c d nc nd. chosen q m c d \<and> nc \<le> (nd :: nat) \<and> (ji_mode ji = Auto \<and> m = CollectLeft \<longrightarrow> nc < single_partition_threshold opts)"
  have "\<exists>m. ?good m l r bl br \<or> ?good m r l br bl"
  proof (cases "ji_mode ji = Partitioned")
    case True
    have "chosen (HashJoinExec ji l r) Partitioned l r" using True by (auto simp: chosen_def)
    then have "?good Partitioned l r bl br \<or> ?good Partitioned r l br bl"
      using True assms(4,5) swp sup by (auto simp: statistical_hash_join_def dest!: chosen_swap split: if_splits)
    then show ?thesis ..
  next
    case False
    with assms(5) obtain c where c: "try_collect_left env opts (ji_mode ji = CollectLeft) ji l r = Inr c"
      "case c of Some p \<Rightarrow> q = p | None \<Rightarrow> partitioned_hash_join env opts ji l r = Inr q"
      by (auto simp: statistical_hash_join_def split: option.splits)
    show ?thesis
    proof (cases c)
      case None
      then have "?good Partitioned l r bl br \<or> ?good Partitioned r l br bl"
        using partitioned_choice [of env opts ji l r q] c(2) assms(4) swp sup by auto
      then show ?thesis ..
    next
      case (Some p)
      then have "?good CollectLeft l r bl br \<or> ?good CollectLeft r l br bl"
        using try_collect_left_choice [of env opts "ji_mode ji = CollectLeft" ji l r q] c assms(4) swp sup col by auto
      then show ?thesis ..
    qed
  qed
  then show ?thesis using assms(1,2) by blast
qed

text \<open>Statistics of a hundred bytes for each row.\<close>

definition sized_env :: "unit plan_env" where
  "sized_env = counting_env\<lparr>pe_statistics :=
     (\<lambda>q. Inr \<lparr>st_num_rows = Absent, st_total_byte_size = Inexact (100 * length (plan_rows q)), st_columns = []\<rparr>)\<rparr>"

lemma sized_env_ok: "plan_env_ok sized_env"
  by (simp add: plan_env_ok_def sized_env_def counting_env_def)

lemma table_sound: "all_nodes sound_node (table sch rws)"
  using table_good [of sch rws] by (simp add: all_nodes.simps [of _ "OtherExec _ _"] good_node_def table_def)

theorem smaller_side_builds_witness:
  "\<exists>q t m a b. statistical_hash_join sized_env reordering (text_hash_join Inner) (table (column_schema ''k'') [[CNull], [CNull]])
      (table (column_schema ''j'') [[CNull]]) = Inr (q, t)
    \<and> chosen q m a b \<and> a = table (column_schema ''j'') [[CNull]]"
proof -
  let ?l = "table (column_schema ''k'') [[CNull], [CNull]]" and ?r = "table (column_schema ''j'') [[CNull]]"
  have nodes: "all_nodes (good_node counting_env) (HashJoinExec (text_hash_join Inner) ?l ?r)" by (rule text_join_good) simp
  then have "sound_node (HashJoinExec (text_hash_join Inner) ?l ?r)"
    by (simp add: all_nodes.simps [of _ "HashJoinExec _ _ _"] good_node_def)
  then obtain q t where q: "statistical_hash_join sized_env reordering (text_hash_join Inner) ?l ?r = Inr (q, t)"
    using statistical_hash_join_same [OF sized_env_ok _ table_sound table_sound] by blast
  have kb: "known_bytes sized_env (table sch rws) = Some (100 * length rws)" for sch rws
    by (simp add: known_bytes_def sized_env_def table_rows)
  obtain m a b na nb where c: "chosen q m a b" "a = ?l \<and> b = ?r \<or> a = ?r \<and> b = ?l"
    "known_bytes sized_env a = Some na" "known_bytes sized_env b = Some nb" "na \<le> nb"
    using smaller_side_builds [OF kb kb, of reordering "text_hash_join Inner" "column_schema ''k''" "[[CNull], [CNull]]" "column_schema ''j''" "[[CNull]]", OF _ _ q]
    by (auto simp: reordering_def text_hash_join_def)
  from c(2-5) have "a = ?r" by (auto simp: kb)
  with q c(1) show ?thesis by blast
qed

text \<open>C29. A null-aware join keeps its sides and is collected: whatever the statistics say, the
  rule changes nothing of such a join but its mode, which becomes \<open>CollectLeft\<close>, the mode in
  which one stream sees the whole probe side.\<close>

theorem null_aware_collected:
  assumes "ji_null_aware ji" and "ji_mode ji \<noteq> Partitioned" and "statistical_hash_join env opts ji l r = Inr (q, t)"
  shows "q = HashJoinExec (ji\<lparr>ji_mode := CollectLeft\<rparr>) l r"
  using assms
  by (auto simp: statistical_hash_join_def try_collect_left_def partitioned_hash_join_def Let_def
      dest!: with_mode_Inr split: if_splits option.splits bool.splits)

theorem null_aware_collected_witness:
  "\<exists>t. statistical_hash_join sized_env reordering ((text_hash_join LeftAnti)\<lparr>ji_null_aware := True\<rparr>)
      (table (column_schema ''k'') [[CNull], [CNull]]) (table (column_schema ''j'') [[CNull]]) =
    Inr (HashJoinExec ((text_hash_join LeftAnti)\<lparr>ji_null_aware := True, ji_mode := CollectLeft\<rparr>)
      (table (column_schema ''k'') [[CNull], [CNull]]) (table (column_schema ''j'') [[CNull]]), t)"
proof -
  let ?l = "table (column_schema ''k'') [[CNull], [CNull]]" and ?r = "table (column_schema ''j'') [[CNull]]"
  let ?ji = "(text_hash_join LeftAnti)\<lparr>ji_null_aware := True\<rparr>"
  have "hash_join_build ?ji ?l ?r = Inr (HashJoinExec ?ji ?l ?r)"
    by (simp add: hash_join_build_def text_hash_join_def check_join_is_valid_def schema_columns_def table_schema column_schema_def Let_def)
  then have "sound_node (HashJoinExec ?ji ?l ?r)"
    by (simp add: sound_node_def fits_schema_def table_rows table_schema column_schema_def text_hash_join_def)
  then obtain q t where q: "statistical_hash_join sized_env reordering ?ji ?l ?r = Inr (q, t)"
    using statistical_hash_join_same [OF sized_env_ok _ table_sound table_sound] by blast
  from null_aware_collected [OF _ _ q] q show ?thesis by (simp add: text_hash_join_def)
qed

section \<open>Schema metadata\<close>

definition tagged_schema :: "string \<Rightarrow> string \<Rightarrow> schema" where
  "tagged_schema n v = (column_schema n)\<lparr>metadata := [''source'' \<mapsto> v]\<rparr>"

definition tagged_join :: plan where
  "tagged_join = HashJoinExec (text_hash_join Inner) (table (tagged_schema ''k'' ''left'') [[CNull], [CNull]])
     (table (tagged_schema ''j'' ''right'') [[CNull]])"


end
