(* ===== verification/HashJoinOutput.thy ===== *)
theory HashJoinOutput
  imports HashJoinBuild
begin

text \<open>
  What the batches of a hash join hold: building a batch from index arrays gives the rows
  of the specification, whatever the join type, and the result fits the schema of the join.
\<close>

section \<open>Fields and columns\<close>

definition row_fits :: "schema \<Rightarrow> row \<Rightarrow> bool" where
  "row_fits sch r \<longleftrightarrow> list_all2 cell_fits (schema_fields sch) r"

definition batch_fits :: "schema \<Rightarrow> batch \<Rightarrow> bool" where
  "batch_fits sch b \<longleftrightarrow> col_types b = map field_type (schema_fields sch) \<and> list_all (row_fits sch) (rows b)"

lemma batch_fits_ok: "batch_fits sch b \<Longrightarrow> batch_ok sch b"
  by (auto simp: batch_fits_def batch_ok_def list_all_iff row_fits_def list_all2_conv_all_nth)

fun column_field :: "schema \<Rightarrow> schema \<Rightarrow> join_type \<Rightarrow> column_index \<Rightarrow> field" where
  "column_field ls rs t (i, SideLeft) = output_join_field (schema_fields ls ! i) t True"
| "column_field ls rs t (i, SideRight) = output_join_field (schema_fields rs ! i) t False"
| "column_field ls rs t (i, SideNone) = fst mark_field"

text \<open>The sides whose columns a join type outputs.\<close>

fun side_used :: "join_type \<Rightarrow> join_side \<Rightarrow> bool" where
  "side_used t SideLeft = (t \<notin> {RightSemi, RightAnti, RightMark})"
| "side_used t SideRight = (t \<notin> {LeftSemi, LeftAnti, LeftMark})"
| "side_used t SideNone = (t \<in> {LeftMark, RightMark})"

fun column_valid :: "schema \<Rightarrow> schema \<Rightarrow> join_type \<Rightarrow> column_index \<Rightarrow> bool" where
  "column_valid ls rs t (i, s) =
     (side_used t s \<and> (s = SideLeft \<longrightarrow> i < length (schema_fields ls)) \<and> (s = SideRight \<longrightarrow> i < length (schema_fields rs)))"

lemma side_fields_columns:
  assumes "(f, ci) \<in> set (side_fields sch t is_left)"
  shows "\<exists>i < length (schema_fields sch).
    ci = (i, if is_left then SideLeft else SideRight) \<and> f = output_join_field (schema_fields sch ! i) t is_left"
  using assms by (auto simp: side_fields_def in_set_enumerate_eq)

lemma join_schema_columns:
  assumes "ci \<in> set (snd (build_join_schema ls rs t))"
  shows "column_valid ls rs t ci"
  using assms
  by (cases t) (auto simp: build_join_schema_def Let_def mark_field_def dest!: side_fields_columns split: if_splits)

lemma join_schema_fields:
  "schema_fields (fst (build_join_schema ls rs t)) = map (column_field ls rs t) (snd (build_join_schema ls rs t))"
proof -
  have "map fst (side_fields sch t b) = map (column_field ls rs t \<circ> snd) (side_fields sch t b)"
    if "b \<and> sch = ls \<or> \<not> b \<and> sch = rs" for sch b
    using that by (auto simp: side_fields_def comp_def in_set_enumerate_eq)
  from this [of True ls] this [of False rs] show ?thesis
    by (cases t) (simp_all add: build_join_schema_def Let_def mark_field_def)
qed

lemma can_project_bound: "can_project sch (Some is) = Inr () \<Longrightarrow> i \<in> set is \<Longrightarrow> i < length (schema_fields sch)"
proof -
  have "i \<le> fold max is 0" if "i \<in> set is" for i :: nat and "is"
    using that Max_ge [of "set (0 # is)" i] by (simp add: Max.set_eq_fold [symmetric] del: Max_insert)
  then show "can_project sch (Some is) = Inr () \<Longrightarrow> i \<in> set is \<Longrightarrow> i < length (schema_fields sch)"
    by (fastforce split: if_splits)
qed

lemma output_columns_valid:
  assumes "can_project (fst (build_join_schema ls rs (ji_type ji))) (ji_projection ji) = Inr ()"
  shows "\<forall>ci \<in> set (output_columns ji ls rs). column_valid ls rs (ji_type ji) ci"
    and "schema_fields (hash_join_schema ji ls rs) = map (column_field ls rs (ji_type ji)) (output_columns ji ls rs)"
proof -
  let ?js = "build_join_schema ls rs (ji_type ji)"
  have len: "length (schema_fields (fst ?js)) = length (snd ?js)" by (simp add: join_schema_fields)
  show "\<forall>ci \<in> set (output_columns ji ls rs). column_valid ls rs (ji_type ji) ci"
  proof (cases "ji_projection ji")
    case None
    then show ?thesis using join_schema_columns by (auto simp: output_columns_def)
  next
    case (Some "is")
    then have "can_project (fst ?js) (Some is) = Inr ()" using assms by simp
    from can_project_bound [OF this] len have "\<forall>i \<in> set is. snd ?js ! i \<in> set (snd ?js)" by simp
    with Some show ?thesis using join_schema_columns by (auto simp: output_columns_def)
  qed
  show "schema_fields (hash_join_schema ji ls rs) = map (column_field ls rs (ji_type ji)) (output_columns ji ls rs)"
  proof (cases "ji_projection ji")
    case (Some "is")
    then have "can_project (fst ?js) (Some is) = Inr ()" using assms by simp
    from can_project_bound [OF this] len have "\<forall>i \<in> set is. i < length (snd ?js)" by simp
    with Some show ?thesis by (simp add: hash_join_schema_def output_columns_def join_schema_fields)
  qed (simp add: hash_join_schema_def output_columns_def join_schema_fields)
qed

section \<open>Columns from indices\<close>

definition valid_indices :: "index_array \<Rightarrow> nat \<Rightarrow> bool" where
  "valid_indices idx n \<longleftrightarrow> (\<forall>i. Some i \<in> set idx \<longrightarrow> i < n)"

definition row_at :: "batch \<Rightarrow> index_array \<Rightarrow> nat \<Rightarrow> row option" where
  "row_at b idx k = map_option ((!) (rows b)) (idx ! k)"

lemma take_or_null_gathers:
  assumes "kernels_spec ak" and "valid_indices idx (length col)"
  shows "take_or_null ak col idx = Inr (gathered col idx)"
proof (cases "col = [] \<or> list_all (\<lambda>x. x = None) idx")
  case True
  then have n: "list_all (\<lambda>x. x = None) idx" using assms(2)
    by (auto simp: valid_indices_def list_all_iff) (metis not_Some_eq)
  then have "gathered col idx = replicate (length idx) CNull"
    by (induction idx) (auto simp: gathered_def)
  with n show ?thesis by (simp add: take_or_null_def)
next
  case False
  with assms show ?thesis unfolding take_or_null_def kernels_spec_def valid_indices_def by simp
qed

lemma column_of_rows:
  assumes "kernels_spec ak" and "i < length (col_types b)" and "valid_indices idx (num_rows b)"
  shows "bind_res (batch_column b i) (\<lambda>col. take_or_null ak col idx) =
    Inr (map (\<lambda>k. case row_at b idx k of None \<Rightarrow> CNull | Some r \<Rightarrow> r ! i) [0..<length idx])"
proof -
  have "valid_indices idx (length (map (\<lambda>r. r ! i) (rows b)))" using assms(3) by (simp add: num_rows_def)
  from take_or_null_gathers [OF assms(1) this] assms(2)
  have "bind_res (batch_column b i) (\<lambda>col. take_or_null ak col idx) = Inr (gathered (map (\<lambda>r. r ! i) (rows b)) idx)"
    by (simp add: batch_column_def)
  moreover have "gathered (map (\<lambda>r. r ! i) (rows b)) idx =
      map (\<lambda>k. case row_at b idx k of None \<Rightarrow> CNull | Some r \<Rightarrow> r ! i) [0..<length idx]"
  proof (rule nth_equalityI)
    fix k assume "k < length (gathered (map (\<lambda>r. r ! i) (rows b)) idx)"
    then have k: "k < length idx" by (simp add: gathered_def)
    then have "x < num_rows b" if "idx ! k = Some x" for x
      using assms(3) that nth_mem [OF k] by (simp add: valid_indices_def)
    with k show "gathered (map (\<lambda>r. r ! i) (rows b)) idx ! k =
        map (\<lambda>k. case row_at b idx k of None \<Rightarrow> CNull | Some r \<Rightarrow> r ! i) [0..<length idx] ! k"
      by (auto simp: gathered_def row_at_def valid_indices_def num_rows_def split: option.split)
  qed (simp add: gathered_def)
  ultimately show ?thesis by simp
qed

section \<open>Batches from indices\<close>

text \<open>A batch made of columns that are given cell by cell.\<close>

lemma batch_from_cells:
  assumes "kernels_spec ak" and "cols \<noteq> []" and "schema_fields sch = map fld cols"
    and "\<And>ci. ci \<in> set cols \<Longrightarrow> colf ci = Inr (map (\<lambda>k. c k ci) [0..<n])"
    and "\<And>ci k. ci \<in> set cols \<Longrightarrow> k < n \<Longrightarrow> cell_fits (fld ci) (c k ci)"
  shows "\<exists>b. bind_res (collect_res (map colf cols)) (ak_try_new ak sch) = Inr b
    \<and> col_types b = map field_type (schema_fields sch) \<and> rows b = map (\<lambda>k. map (c k) cols) [0..<n]"
proof -
  let ?cols = "map (\<lambda>ci. map (\<lambda>k. c k ci) [0..<n]) cols"
  have "map colf cols = map Inr ?cols" using assms(4) by simp
  then have "collect_res (map colf cols) = Inr ?cols" by (simp only: collect_res_map_Inr)
  moreover have "columns_fit sch n ?cols"
    using assms(3,5) by (auto simp: columns_fit_def list_all2_conv_all_nth list_all_iff)
  then have "ak_try_new ak sch ?cols = Inr (batch_of_columns sch n ?cols)"
    using assms(1,2) unfolding kernels_spec_def by blast
  ultimately show ?thesis by (auto simp: batch_of_columns_def)
qed

text \<open>Which sides of an output row may be missing.\<close>

definition sides_ok :: "join_type \<Rightarrow> 'a option \<Rightarrow> 'b option \<Rightarrow> bool" where
  "sides_ok t l r \<longleftrightarrow> (side_used t SideLeft \<longrightarrow> l = None \<longrightarrow> t \<in> {Right, Full})
     \<and> (side_used t SideRight \<longrightarrow> r = None \<longrightarrow> t \<in> {Left, Full})"

lemma join_cell_fits:
  assumes "column_valid ls rs t ci" and "sides_ok t l r"
    and "\<And>row. side_used t SideLeft \<Longrightarrow> l = Some row \<Longrightarrow> row_fits ls row"
    and "\<And>row. side_used t SideRight \<Longrightarrow> r = Some row \<Longrightarrow> row_fits rs row"
  shows "cell_fits (column_field ls rs t ci) (join_cell l r mark ci)"
proof -
  obtain i s where ci: "ci = (i, s)" by (cases ci)
  have null: "cell_fits (output_join_field f t b) CNull" if "(b \<and> t \<in> {Right, Full}) \<or> (\<not> b \<and> t \<in> {Left, Full})" for f b
    using that by (auto simp: output_join_field_def)
  have keep: "cell_fits (output_join_field f t b) c" if "cell_fits f c" for f b c
    using that by (auto simp: output_join_field_def Let_def)
  show ?thesis
  proof (cases s)
    case SideLeft
    show ?thesis
    proof (cases l)
      case None
      with assms SideLeft ci null [of True] show ?thesis by (simp add: sides_ok_def del: cell_fits.simps)
    next
      case (Some row)
      have "side_used t SideLeft" "i < length (schema_fields ls)" using assms(1) SideLeft ci by simp_all
      with assms(3) Some have "cell_fits (schema_fields ls ! i) (row ! i)"
        unfolding row_fits_def list_all2_conv_all_nth by blast
      from keep [OF this] Some SideLeft ci show ?thesis by (simp del: cell_fits.simps)
    qed
  next
    case SideRight
    show ?thesis
    proof (cases r)
      case None
      with assms SideRight ci null [of False] show ?thesis by (simp add: sides_ok_def del: cell_fits.simps)
    next
      case (Some row)
      have "side_used t SideRight" "i < length (schema_fields rs)" using assms(1) SideRight ci by simp_all
      with assms(4) Some have "cell_fits (schema_fields rs ! i) (row ! i)"
        unfolding row_fits_def list_all2_conv_all_nth by blast
      from keep [OF this] Some SideRight ci show ?thesis by (simp del: cell_fits.simps)
    qed
  next
    case SideNone
    with ci show ?thesis by (simp add: mark_field_def)
  qed
qed

text \<open>The schema and columns of a join, and the row a batch has at an index.\<close>

definition columns_ok :: "schema \<Rightarrow> schema \<Rightarrow> join_type \<Rightarrow> schema \<Rightarrow> column_index list \<Rightarrow> bool" where
  "columns_ok ls rs t sch cols \<longleftrightarrow>
     (\<forall>ci \<in> set cols. column_valid ls rs t ci) \<and> schema_fields sch = map (column_field ls rs t) cols"

lemma row_at_fits:
  assumes "batch_fits sch b" and "valid_indices idx (num_rows b)" and "k < length idx" and "row_at b idx k = Some r"
  shows "row_fits sch r"
proof -
  obtain x where x: "idx ! k = Some x" "r = rows b ! x" using assms(4) by (auto simp: row_at_def)
  then have "x < length (rows b)" using assms(2) nth_mem [OF assms(3)] by (simp add: valid_indices_def num_rows_def)
  then have "r \<in> set (rows b)" using x by simp
  then show ?thesis using assms(1) by (simp add: batch_fits_def list_all_iff)
qed

lemma row_at_None [simp]: "row_at b idx k = None \<longleftrightarrow> idx ! k = None"
  by (simp add: row_at_def)

lemma build_batch_rows:
  assumes ak: "kernels_spec ak" and cols: "columns_ok ls rs t sch cols"
    and fits: "batch_fits ls bb" "batch_fits rs pb"
    and idx: "side_used t SideLeft \<Longrightarrow> valid_indices li (num_rows bb)" "side_used t SideRight \<Longrightarrow> valid_indices ri (num_rows pb)"
    and len: "side_used t SideLeft \<Longrightarrow> length li = n" "side_used t SideRight \<Longrightarrow> length ri = n"
      "side_used t SideNone \<Longrightarrow> length ri = n"
      "(if t = RightAnti \<or> t = RightSemi then length ri else length li) = n"
    and sides: "\<And>k. k < n \<Longrightarrow> sides_ok t (li ! k) (ri ! k)"
  shows "\<exists>b. build_batch_from_indices ak sch bb pb li ri cols SideLeft t = Inr b
    \<and> col_types b = map field_type (schema_fields sch)
    \<and> rows b = map (\<lambda>k. join_row cols (row_at bb li k) (row_at pb ri k) (ri ! k \<noteq> None)) [0..<n]"
proof (cases "cols = []")
  case True
  then have "schema_fields sch = []" using cols by (simp add: columns_ok_def)
  with True len(4) show ?thesis
    by (auto simp: build_batch_from_indices_def new_empty_schema_batch_def join_row_def map_replicate_const)
next
  case False
  let ?c = "\<lambda>k ci. join_cell (row_at bb li k) (row_at pb ri k) (ri ! k \<noteq> None) ci"
  have colf: "index_column ak bb pb li ri SideLeft ci = Inr (map (\<lambda>k. ?c k ci) [0..<n])" if "ci \<in> set cols" for ci
  proof -
    obtain i s where ci: "ci = (i, s)" by (cases ci)
    have v: "column_valid ls rs t (i, s)" using cols that ci by (auto simp: columns_ok_def)
    show ?thesis
    proof (cases s)
      case SideLeft
      with v fits(1) have i: "i < length (col_types bb)" and u: "side_used t SideLeft" by (simp_all add: batch_fits_def)
      from column_of_rows [OF ak i idx(1) [OF u]] SideLeft v len(1) ci show ?thesis by (simp add: index_column_def)
    next
      case SideRight
      with v fits(2) have i: "i < length (col_types pb)" and u: "side_used t SideRight" by (simp_all add: batch_fits_def)
      from column_of_rows [OF ak i idx(2) [OF u]] SideRight v len(2) ci show ?thesis by (simp add: index_column_def)
    next
      case SideNone
      have "map (\<lambda>x. CBool (x \<noteq> None)) ri = map (\<lambda>k. CBool (ri ! k \<noteq> None)) [0..<n]"
        using v len(3) SideNone by (intro nth_equalityI) auto
      with SideNone ci show ?thesis by (simp add: index_column_def)
    qed
  qed
  have "cell_fits (column_field ls rs t ci) (?c k ci)" if "ci \<in> set cols" "k < n" for ci k
  proof (rule join_cell_fits)
    show "column_valid ls rs t ci" using cols that(1) by (auto simp: columns_ok_def)
    show "sides_ok t (row_at bb li k) (row_at pb ri k)" using sides [OF that(2)] by (simp add: sides_ok_def)
    show "row_fits ls row" if "side_used t SideLeft" "row_at bb li k = Some row" for row
      using row_at_fits [OF fits(1) idx(1) [OF that(1)] _ that(2)] len(1) [OF that(1)] \<open>k < n\<close> by simp
    show "row_fits rs row" if "side_used t SideRight" "row_at pb ri k = Some row" for row
      using row_at_fits [OF fits(2) idx(2) [OF that(1)] _ that(2)] len(2) [OF that(1)] \<open>k < n\<close> by simp
  qed
  from batch_from_cells [OF ak False _ colf this] cols show ?thesis
    using False by (simp add: build_batch_from_indices_def columns_ok_def join_row_def)
qed

text \<open>A right mark join takes the probe batch as its build side.\<close>

lemma build_mark_rows:
  assumes ak: "kernels_spec ak" and cols: "columns_ok ls rs RightMark sch cols"
    and fits: "batch_fits rs pb" and idx: "valid_indices li (num_rows pb)" and "None \<notin> set li"
    and len: "length li = n" "length ri = n"
  shows "\<exists>b. build_batch_from_indices ak sch pb bb li ri cols SideRight RightMark = Inr b
    \<and> col_types b = map field_type (schema_fields sch)
    \<and> rows b = map (\<lambda>k. join_row cols None (row_at pb li k) (ri ! k \<noteq> None)) [0..<n]"
proof (cases "cols = []")
  case True
  then have "schema_fields sch = []" using cols by (simp add: columns_ok_def)
  with True len show ?thesis
    by (auto simp: build_batch_from_indices_def new_empty_schema_batch_def join_row_def map_replicate_const)
next
  case False
  let ?c = "\<lambda>k ci. join_cell None (row_at pb li k) (ri ! k \<noteq> None) ci"
  have colf: "index_column ak pb bb li ri SideRight ci = Inr (map (\<lambda>k. ?c k ci) [0..<n])" if "ci \<in> set cols" for ci
  proof -
    obtain i s where ci: "ci = (i, s)" by (cases ci)
    have v: "column_valid ls rs RightMark (i, s)" using cols that ci by (auto simp: columns_ok_def)
    show ?thesis
    proof (cases s)
      case SideLeft
      with v show ?thesis by simp
    next
      case SideRight
      with v fits have "i < length (col_types pb)" by (simp add: batch_fits_def)
      from column_of_rows [OF ak this idx] SideRight v len ci show ?thesis by (simp add: index_column_def)
    next
      case SideNone
      have "map (\<lambda>x. CBool (x \<noteq> None)) ri = map (\<lambda>k. CBool (ri ! k \<noteq> None)) [0..<n]"
        using len by (intro nth_equalityI) auto
      with SideNone ci show ?thesis by (simp add: index_column_def)
    qed
  qed
  have "cell_fits (column_field ls rs RightMark ci) (?c k ci)" if "ci \<in> set cols" "k < n" for ci k
  proof (rule join_cell_fits)
    show "column_valid ls rs RightMark ci" using cols that(1) by (auto simp: columns_ok_def)
    have "li ! k \<noteq> None" using that(2) len(1) assms(5) by (metis nth_mem)
    then show "sides_ok RightMark None (row_at pb li k)" by (simp add: sides_ok_def)
    show "row_fits rs row" if "row_at pb li k = Some row" for row
      using row_at_fits [OF fits idx _ that] len \<open>k < n\<close> by simp
  qed simp
  from batch_from_cells [OF ak False _ colf this] cols show ?thesis
    using False by (simp add: build_batch_from_indices_def columns_ok_def join_row_def)
qed

text \<open>Over an empty build side every probe row is unmatched.\<close>

definition unmatched_probe_rows :: "join_type \<Rightarrow> column_index list \<Rightarrow> row list \<Rightarrow> row list" where
  "unmatched_probe_rows t cols R =
     (if t \<in> {Right, Full, RightAnti, RightMark} then map (\<lambda>r. join_row cols None (Some r) False) R else [])"

lemma empty_build_rows:
  assumes ak: "kernels_spec ak" and cols: "columns_ok ls rs t sch cols"
    and fits: "batch_fits ls bb" "batch_fits rs pb"
  shows "\<exists>b. build_batch_empty_build_side ak sch bb pb cols t = Inr b
    \<and> col_types b = map field_type (schema_fields sch) \<and> rows b = unmatched_probe_rows t cols (rows pb)"
proof (cases "t \<in> {Right, Full, RightAnti, RightMark}")
  case False
  then have "t \<in> {Inner, Left, LeftSemi, RightSemi, LeftAnti, LeftMark}" by (cases t) auto
  with False show ?thesis by (auto simp: build_batch_empty_build_side_def unmatched_probe_rows_def)
next
  case True
  then have t: "t \<notin> {Inner, Left, LeftSemi, RightSemi, LeftAnti, LeftMark}" by auto
  show ?thesis
  proof (cases "cols = []")
    case True
    then have "schema_fields sch = []" using cols by (simp add: columns_ok_def)
    with True t \<open>t \<in> _\<close> show ?thesis
      by (auto simp: build_batch_empty_build_side_def new_empty_schema_batch_def unmatched_probe_rows_def join_row_def
          num_rows_def map_replicate_const)
  next
    case False
    let ?n = "num_rows pb" and ?c = "\<lambda>k ci. join_cell None (Some (rows pb ! k)) False ci"
    have colf: "empty_build_column bb pb ?n ci = Inr (map (\<lambda>k. ?c k ci) [0..<?n])" if "ci \<in> set cols" for ci
    proof -
      obtain i s where ci: "ci = (i, s)" by (cases ci)
      have v: "column_valid ls rs t (i, s)" using cols that ci by (auto simp: columns_ok_def)
      have "map (\<lambda>r. r ! i) (rows pb) = map (\<lambda>k. rows pb ! k ! i) [0..<length (rows pb)]"
        by (intro nth_equalityI) auto
      with v fits ci show ?thesis
        by (cases s) (simp_all add: empty_build_column_def batch_column_def batch_fits_def num_rows_def map_replicate_const)
    qed
    have cellf: "cell_fits (column_field ls rs t ci) (?c k ci)" if "ci \<in> set cols" "k < ?n" for ci k
    proof (rule join_cell_fits)
      show "column_valid ls rs t ci" using cols that(1) by (auto simp: columns_ok_def)
      show "sides_ok t None (Some (rows pb ! k))" using \<open>t \<in> _\<close> by (auto simp: sides_ok_def)
      show "row_fits rs row" if "Some (rows pb ! k) = Some row" for row
        using fits(2) \<open>k < ?n\<close> that by (auto simp: batch_fits_def list_all_iff num_rows_def)
    qed simp
    have fld: "schema_fields sch = map (column_field ls rs t) cols" using cols by (simp add: columns_ok_def)
    from batch_from_cells [where c = ?c and colf = "empty_build_column bb pb ?n", OF ak False fld colf cellf]
    obtain b where b: "bind_res (collect_res (map (empty_build_column bb pb ?n) cols)) (ak_try_new ak sch) = Inr b"
      "col_types b = map field_type (schema_fields sch)" "rows b = map (\<lambda>k. map (?c k) cols) [0..<?n]"
      by blast
    have "rows b = unmatched_probe_rows t cols (rows pb)"
      using b(3) \<open>t \<in> _\<close> by (intro nth_equalityI) (auto simp: unmatched_probe_rows_def join_row_def num_rows_def)
    with b t False cols show ?thesis
      by (auto simp: build_batch_empty_build_side_def columns_ok_def)
  qed
qed

section \<open>Filters and keys\<close>

definition filter_ok :: "schema \<Rightarrow> schema \<Rightarrow> join_info \<Rightarrow> join_filter option \<Rightarrow> bool" where
  "filter_ok ls rs ji jf =
     (case jf of
        None \<Rightarrow> (\<forall>l r. ji_filter ji l r)
      | Some f \<Rightarrow>
          jf_column_indices f \<noteq> [] \<and> columns_ok ls rs Inner (jf_schema f) (jf_column_indices f) \<and>
          (\<exists>ev. (\<forall>b. jf_expression f b = Inr (map ev (rows b))) \<and>
             (\<forall>l r. ev (join_row (jf_column_indices f) (Some l) (Some r) True) = Some True \<longleftrightarrow> ji_filter ji l r)))"

definition pair_indices :: "index_pairs \<Rightarrow> index_array \<times> index_array" where
  "pair_indices m = (map (Some \<circ> snd) m, map (Some \<circ> fst) m)"

definition pairs_valid :: "batch \<Rightarrow> batch \<Rightarrow> index_pairs \<Rightarrow> bool" where
  "pairs_valid bb pb m \<longleftrightarrow> (\<forall>(p, j) \<in> set m. p < num_rows pb \<and> j < num_rows bb)"

lemma masked_pairs:
  "masked (map f m) (map g m) = map f (filter (\<lambda>x. g x = Some True) m)"
  by (induction m) (auto simp: masked_def)

lemma ak_filter_map:
  "kernels_spec ak \<Longrightarrow> ak_filter ak (map f m) (map g m) = Inr (map f (filter (\<lambda>x. g x = Some True) m))"
  unfolding kernels_spec_def by (simp add: masked_pairs)

lemma apply_filter_pairs:
  assumes ak: "kernels_spec ak" and "filter_ok ls rs ji (Some jf)"
    and fits: "batch_fits ls bb" "batch_fits rs pb" and m: "pairs_valid bb pb m"
  shows "apply_join_filter_to_indices ak bb pb (map (Some \<circ> snd) m) (map (Some \<circ> fst) m) jf SideLeft None t =
    Inr (pair_indices (filter (\<lambda>(p, j). ji_filter ji (rows bb ! j) (rows pb ! p)) m))"
proof (cases "m = []")
  case False
  obtain ev where jf: "jf_column_indices jf \<noteq> []" "columns_ok ls rs Inner (jf_schema jf) (jf_column_indices jf)"
    and ev: "\<forall>b. jf_expression jf b = Inr (map ev (rows b))"
      "\<forall>l r. ev (join_row (jf_column_indices jf) (Some l) (Some r) True) = Some True \<longleftrightarrow> ji_filter ji l r"
    using assms(2) by (auto simp: filter_ok_def)
  let ?li = "map (Some \<circ> snd) m" and ?ri = "map (Some \<circ> fst) m"
  have "valid_indices ?li (num_rows bb)" "valid_indices ?ri (num_rows pb)"
    using m by (auto simp: valid_indices_def pairs_valid_def)
  from build_batch_rows [OF ak jf(2) fits this, of "length m"] obtain b where
    b: "build_batch_from_indices ak (jf_schema jf) bb pb ?li ?ri (jf_column_indices jf) SideLeft Inner = Inr b"
      "rows b = map (\<lambda>k. join_row (jf_column_indices jf) (row_at bb ?li k) (row_at pb ?ri k) (?ri ! k \<noteq> None)) [0..<length m]"
    by (auto simp: sides_ok_def)
  have "schema_fields (jf_schema jf) \<noteq> []" using jf by (auto simp: columns_ok_def)
  then have "build_batch_from_indices ak (jf_schema jf) bb pb ?li ?ri (jf_column_indices jf) SideLeft t = Inr b"
    using b(1) by (simp add: build_batch_from_indices_def)
  moreover have "map ev (rows b) = map (\<lambda>(p, j). ev (join_row (jf_column_indices jf) (Some (rows bb ! j)) (Some (rows pb ! p)) True)) m"
    unfolding b(2) by (intro nth_equalityI) (auto simp: row_at_def case_prod_unfold)
  ultimately have "filter_chunk ak bb pb ?li ?ri jf SideLeft t =
      Inr (map (\<lambda>(p, j). ev (join_row (jf_column_indices jf) (Some (rows bb ! j)) (Some (rows pb ! p)) True)) m)"
    using ev(1) by (simp add: filter_chunk_def)
  then show ?thesis
    using False ev(2) by (simp add: apply_join_filter_to_indices_def ak_filter_map [OF ak] pair_indices_def case_prod_unfold)
qed (simp add: apply_join_filter_to_indices_def pair_indices_def)

end
