(* ===== verification/HashJoinStream.thy ===== *)
theory HashJoinStream
  imports HashJoinBuild
begin

text \<open>
  The stream of a hash join, \<open>physical-plan/src/joins/hash_join/stream.rs\<close>, as a state
  machine: it waits for the build side, fetches probe batches, looks each one up in chunks,
  and at the end emits what the bitmap of visited rows says. The probe input is the list of
  items it yields; a future or a stream that is polled is ready. Metrics are left out.
  Running the machine may go on for ever only if a lookup does.
\<close>

section \<open>Configuration and state\<close>

text \<open>\<open>hc_report\<close> is the outcome of reporting the build side for dynamic filters, if any are used.\<close>

record 'c stream_config =
  hc_schema :: schema
  hc_right_schema :: schema
  hc_on_right :: "pexpr list"
  hc_filter :: "join_filter option"
  hc_join_type :: join_type
  hc_column_indices :: "column_index list"
  hc_null_equality :: null_equality
  hc_batch_size :: nat
  hc_right_side_ordered :: bool
  hc_null_aware :: bool
  hc_report :: "unit res option"
  hc_hash :: "cell list \<Rightarrow> nat"
  hc_types :: "pexpr \<Rightarrow> data_type"
  hc_kernels :: arrow_kernels
  hc_coalescer :: "'c coalescer_ops"

record process_probe_state =
  ps_batch :: batch
  ps_values :: "key_array list"
  ps_offset :: map_offset
  ps_joined_probe_idx :: "nat option"

datatype stream_state =
    WaitBuildSide | WaitPartitionBoundsReport | FetchProbeBatch | ProcessProbeBatch process_probe_state
  | ExhaustedProbeSide | Completed

datatype build_side = BuildInitial "left_data res" | BuildReady left_data

record 'c hash_join_stream =
  hs_state :: stream_state
  hs_build_side :: build_side
  hs_right :: "batch res list"
  hs_hashes_buffer :: "nat list"
  hs_output_buffer :: "'c limited_coalescer"

definition stream_new :: "'c stream_config \<Rightarrow> left_data res \<Rightarrow> batch res list \<Rightarrow> nat option \<Rightarrow> 'c hash_join_stream" where
  "stream_new cfg left_fut right fetch =
     \<lparr>hs_state = WaitBuildSide, hs_build_side = BuildInitial left_fut, hs_right = right, hs_hashes_buffer = [],
      hs_output_buffer = lc_new (hc_coalescer cfg) (hc_schema cfg) (hc_batch_size cfg) fetch\<rparr>"

fun try_as_initial :: "build_side \<Rightarrow> left_data res res" where
  "try_as_initial (BuildInitial f) = Inr f"
| "try_as_initial (BuildReady ld) = Inl (Internal ''Expected build side in initial state'')"

fun try_as_ready :: "build_side \<Rightarrow> left_data res" where
  "try_as_ready (BuildReady ld) = Inr ld"
| "try_as_ready (BuildInitial f) = Inl (Internal ''Expected build side in ready state'')"

definition advance :: "map_offset \<Rightarrow> nat option \<Rightarrow> process_probe_state \<Rightarrow> process_probe_state" where
  "advance off joined ps =
     ps\<lparr>ps_offset := off, ps_joined_probe_idx := advance_joined (ps_joined_probe_idx ps) joined\<rparr>"

section \<open>Lookup\<close>

definition lookup_join_hashmap ::
  "arrow_kernels \<Rightarrow> join_hash_map \<Rightarrow> key_array list \<Rightarrow> key_array list \<Rightarrow> null_equality \<Rightarrow> nat list \<Rightarrow> nat \<Rightarrow> map_offset
    \<Rightarrow> (index_array \<times> index_array \<times> map_offset option) res option" where
  "lookup_join_hashmap ak build_hashmap build_side_values probe_side_values neq hashes_buffer limit off =
     bind_run (get_matched_indices_with_limit_offset build_hashmap hashes_buffer limit off) (\<lambda>(pairs, next_offset).
       Some (bind_res (equal_rows_arr ak (map (Some \<circ> snd) pairs) (map (Some \<circ> fst) pairs)
                         build_side_values probe_side_values neq) (\<lambda>(build_indices, probe_indices).
         Inr (build_indices, probe_indices, next_offset))))"

definition lookup_map ::
  "'c stream_config \<Rightarrow> left_data \<Rightarrow> nat list \<Rightarrow> process_probe_state
    \<Rightarrow> (index_array \<times> index_array \<times> map_offset option) res option" where
  "lookup_map cfg ld hashes_buffer ps =
     (case ld_map ld of
        HashMap m \<Rightarrow>
          lookup_join_hashmap (hc_kernels cfg) m (ld_values ld) (ps_values ps) (hc_null_equality cfg) hashes_buffer
            (hc_batch_size cfg) (ps_offset ps)
      | ArrayMap am \<Rightarrow>
          bind_run (array_get_matched_indices am (ps_values ps) (hc_batch_size cfg) (ps_offset ps)) (\<lambda>(pairs, next_offset).
            Some (Inr (map (Some \<circ> snd) pairs, map (Some \<circ> fst) pairs, next_offset))))"

text \<open>The metrics of a batch count its distinct probe rows.\<close>

fun count_changes :: "nat \<Rightarrow> nat list \<Rightarrow> nat" where
  "count_changes prev [] = 0"
| "count_changes prev (v # vs) = (if v \<noteq> prev then 1 + count_changes v vs else count_changes prev vs)"

definition count_distinct_sorted_indices :: "nat list \<Rightarrow> nat" where
  "count_distinct_sorted_indices indices = (case indices of [] \<Rightarrow> 0 | v # vs \<Rightarrow> 1 + count_changes v vs)"

section \<open>Steps\<close>

definition collect_build_side :: "'c stream_config \<Rightarrow> 'c hash_join_stream \<Rightarrow> 'c hash_join_stream res" where
  "collect_build_side cfg s =
     bind_res (try_as_initial (hs_build_side s)) (\<lambda>left_fut.
     bind_res left_fut (\<lambda>left_data.
     Inr (s\<lparr>hs_state := (if hc_report cfg = None then FetchProbeBatch else WaitPartitionBoundsReport),
            hs_build_side := BuildReady left_data\<rparr>)))"

definition wait_for_partition_bounds_report :: "'c stream_config \<Rightarrow> 'c hash_join_stream \<Rightarrow> 'c hash_join_stream res" where
  "wait_for_partition_bounds_report cfg s =
     bind_res (case hc_report cfg of None \<Rightarrow> Inr () | Some r \<Rightarrow> r) (\<lambda>_. Inr (s\<lparr>hs_state := FetchProbeBatch\<rparr>))"

definition fetch_probe_batch :: "'c stream_config \<Rightarrow> 'c hash_join_stream \<Rightarrow> 'c hash_join_stream res" where
  "fetch_probe_batch cfg s =
     (case hs_right s of
        [] \<Rightarrow> Inr (s\<lparr>hs_state := ExhaustedProbeSide\<rparr>)
      | Inl e # items \<Rightarrow> Inl e
      | Inr b # items \<Rightarrow>
          bind_res (try_as_ready (hs_build_side s)) (\<lambda>ld.
          Inr (s\<lparr>hs_right := items,
                 hs_hashes_buffer := (case ld_map ld of
                     HashMap m \<Rightarrow> create_hashes (hc_hash cfg) (hc_on_right cfg) b
                   | ArrayMap am \<Rightarrow> hs_hashes_buffer s),
                 hs_state := ProcessProbeBatch \<lparr>ps_batch = b, ps_values = eval_keys (hc_types cfg) (hc_on_right cfg) b,
                   ps_offset = (0, None), ps_joined_probe_idx = None\<rparr>\<rparr>)))"

text \<open>Setting the bits of visited rows; a row outside the bitmap panics.\<close>

fun set_visited :: "index_array \<Rightarrow> bool list \<Rightarrow> bool list res" where
  "set_visited [] bits = Inr bits"
| "set_visited (None # xs) bits = set_visited xs bits"
| "set_visited (Some i # xs) bits = (if i < length bits then set_visited xs (bits[i := True]) else Inl IndexOutOfBounds)"

text \<open>The flags of a null-aware join after seeing a probe batch.\<close>

definition note_nulls :: "process_probe_state \<Rightarrow> left_data \<Rightarrow> left_data res" where
  "note_nulls ps ld =
     (case ps_values ps of
        [] \<Rightarrow> Inl IndexOutOfBounds
      | (t, cells) # _ \<Rightarrow>
          Inr (ld\<lparr>ld_non_empty := (ld_non_empty ld \<or> 0 < num_rows (ps_batch ps)),
                  ld_has_null := (ld_has_null ld \<or> CNull \<in> set cells)\<rparr>))"

definition last_index :: "index_array \<Rightarrow> nat option" where
  "last_index xs = (if xs = [] then None else Some (case last xs of None \<Rightarrow> 0 | Some i \<Rightarrow> i))"

text \<open>One chunk of a probe batch, from the matched indices to the output buffer.\<close>

definition join_chunk ::
  "'c stream_config \<Rightarrow> left_data \<Rightarrow> process_probe_state \<Rightarrow> index_array \<Rightarrow> index_array \<Rightarrow> map_offset option
    \<Rightarrow> 'c hash_join_stream \<Rightarrow> 'c hash_join_stream res" where
  "join_chunk cfg ld ps left0 right0 next_offset s =
     bind_res (case hc_filter cfg of
                 None \<Rightarrow> Inr (left0, right0)
               | Some jf \<Rightarrow> apply_join_filter_to_indices (hc_kernels cfg) (ld_batch ld) (ps_batch ps) left0 right0 jf
                              SideLeft None (hc_join_type cfg)) (\<lambda>(left_indices, right_indices).
     bind_res (if need_produce_result_in_final (hc_join_type cfg) then set_visited left_indices (ld_visited ld)
               else Inr (ld_visited ld)) (\<lambda>visited.
     let ld' = ld\<lparr>ld_visited := visited\<rparr>;
         last_joined_right_idx = last_index right_indices;
         r = alignment_range (ps_joined_probe_idx ps) (next_offset = None) (num_rows (ps_batch ps)) last_joined_right_idx;
         (left2, right2) = adjust_indices_by_join_type left_indices right_indices r (hc_join_type cfg) (hc_right_side_ordered cfg)
     in bind_res (if hc_join_type cfg = RightMark
                  then build_batch_from_indices (hc_kernels cfg) (hc_schema cfg) (ps_batch ps) (ld_batch ld) left2 right2
                         (hc_column_indices cfg) SideRight (hc_join_type cfg)
                  else build_batch_from_indices (hc_kernels cfg) (hc_schema cfg) (ld_batch ld) (ps_batch ps) left2 right2
                         (hc_column_indices cfg) SideLeft (hc_join_type cfg)) (\<lambda>b.
        bind_res (lc_push_batch (hc_coalescer cfg) b (hs_output_buffer s)) (\<lambda>(status, out).
        if status = LimitReached
        then bind_res (lc_finish (hc_coalescer cfg) out) (\<lambda>out'.
               Inr (s\<lparr>hs_build_side := BuildReady ld', hs_output_buffer := out', hs_state := Completed\<rparr>))
        else Inr (s\<lparr>hs_build_side := BuildReady ld', hs_output_buffer := out,
                    hs_state := (case next_offset of
                        None \<Rightarrow> FetchProbeBatch
                      | Some off \<Rightarrow> ProcessProbeBatch (advance off last_joined_right_idx ps))\<rparr>)))))"

definition process_probe_batch ::
  "'c stream_config \<Rightarrow> process_probe_state \<Rightarrow> 'c hash_join_stream \<Rightarrow> 'c hash_join_stream res option" where
  "process_probe_batch cfg ps s =
     bind_run (Some (try_as_ready (hs_build_side s))) (\<lambda>ld0.
     bind_run (Some (if hc_null_aware cfg then note_nulls ps ld0 else Inr ld0)) (\<lambda>ld.
     if hc_null_aware cfg \<and> ld_has_null ld
     then Some (Inr (s\<lparr>hs_build_side := BuildReady ld, hs_state := FetchProbeBatch\<rparr>))
     else if map_is_empty (ld_map ld) \<and> hc_filter cfg = None
     then Some (bind_res (build_batch_empty_build_side (hc_kernels cfg) (hc_schema cfg) (ld_batch ld) (ps_batch ps)
                            (hc_column_indices cfg) (hc_join_type cfg)) (\<lambda>b.
                bind_res (lc_push_batch (hc_coalescer cfg) b (hs_output_buffer s)) (\<lambda>(status, out).
                Inr (s\<lparr>hs_build_side := BuildReady ld, hs_output_buffer := out, hs_state := FetchProbeBatch\<rparr>))))
     else bind_run (lookup_map cfg ld (hs_hashes_buffer s) ps) (\<lambda>(left0, right0, next_offset).
          Some (join_chunk cfg ld ps left0 right0 next_offset s))))"

text \<open>The rows of the bitmap, without null keys for a null-aware anti join over a non-empty probe side.\<close>

definition final_indices :: "'c stream_config \<Rightarrow> left_data \<Rightarrow> index_array \<times> index_array" where
  "final_indices cfg ld =
     (let (left_side, right_side) = get_final_indices_from_bit_map (ld_visited ld) (hc_join_type cfg) True
      in if hc_null_aware cfg \<and> hc_join_type cfg = LeftAnti \<and> ld_non_empty ld
         then let left_side' = filter (\<lambda>x. snd (hd (ld_values ld)) ! the x \<noteq> CNull) left_side
              in (left_side', replicate (length left_side') None)
         else (left_side, right_side))"

definition process_unmatched_build_batch :: "'c stream_config \<Rightarrow> 'c hash_join_stream \<Rightarrow> 'c hash_join_stream res" where
  "process_unmatched_build_batch cfg s =
     (let done = s\<lparr>hs_state := Completed\<rparr>
      in if \<not> need_produce_result_in_final (hc_join_type cfg) then Inr done
         else bind_res (try_as_ready (hs_build_side s)) (\<lambda>ld.
              if hc_null_aware cfg \<and> ld_has_null ld then Inr done
              else let (last, ld') = report_probe_completed ld; done' = done\<lparr>hs_build_side := BuildReady ld'\<rparr>
                   in if \<not> last then Inr done'
                      else let (left_side, right_side) = final_indices cfg ld
                           in if left_side = [] then Inr done'
                              else bind_res (build_batch_from_indices (hc_kernels cfg) (hc_schema cfg) (ld_batch ld)
                                     \<lparr>col_types = map field_type (schema_fields (hc_right_schema cfg)), rows = []\<rparr>
                                     left_side right_side (hc_column_indices cfg) SideLeft (hc_join_type cfg)) (\<lambda>b.
                                   bind_res (lc_push_batch (hc_coalescer cfg) b (hs_output_buffer s)) (\<lambda>(status, out).
                                   bind_res (if status = LimitReached then lc_finish (hc_coalescer cfg) out else Inr out) (\<lambda>out'.
                                   Inr (done'\<lparr>hs_output_buffer := out'\<rparr>))))))"

section \<open>Running\<close>

datatype 'c polled = Emit batch "'c hash_join_stream" | Again "'c hash_join_stream" | Fail df_error | End | Diverges

fun handle_state :: "'c hash_join_stream res \<Rightarrow> 'c polled" where
  "handle_state (Inr s) = Again s"
| "handle_state (Inl e) = Fail e"

text \<open>One turn of the loop of \<open>poll_next_impl\<close>.\<close>

definition poll_turn :: "'c stream_config \<Rightarrow> 'c hash_join_stream \<Rightarrow> 'c polled" where
  "poll_turn cfg s =
     (case lc_next_completed_batch (hc_coalescer cfg) (hs_output_buffer s) of
        Some (b, out) \<Rightarrow> Emit b (s\<lparr>hs_output_buffer := out\<rparr>)
      | None \<Rightarrow>
          if lc_finished (hs_output_buffer s) then End
          else case hs_state s of
                 WaitBuildSide \<Rightarrow> handle_state (collect_build_side cfg s)
               | WaitPartitionBoundsReport \<Rightarrow> handle_state (wait_for_partition_bounds_report cfg s)
               | FetchProbeBatch \<Rightarrow> handle_state (fetch_probe_batch cfg s)
               | ProcessProbeBatch ps \<Rightarrow>
                   (case process_probe_batch cfg ps s of None \<Rightarrow> Diverges | Some r \<Rightarrow> handle_state r)
               | ExhaustedProbeSide \<Rightarrow> handle_state (process_unmatched_build_batch cfg s)
               | Completed \<Rightarrow>
                   if lc_is_empty (hc_coalescer cfg) (hs_output_buffer s) then End
                   else handle_state (bind_res (lc_finish (hc_coalescer cfg) (hs_output_buffer s)) (\<lambda>out.
                          Inr (s\<lparr>hs_output_buffer := out\<rparr>))))"

text \<open>The items the stream yields up to its end or its first error.\<close>

partial_function (option) run_stream :: "'c stream_config \<Rightarrow> 'c hash_join_stream \<Rightarrow> batch res list option" where
  "run_stream cfg s =
     (case poll_turn cfg s of
        Emit b s' \<Rightarrow> Option.bind (run_stream cfg s') (\<lambda>items. Some (Inr b # items))
      | Again s' \<Rightarrow> run_stream cfg s'
      | Fail e \<Rightarrow> Some [Inl e]
      | End \<Rightarrow> Some []
      | Diverges \<Rightarrow> None)"

section \<open>Executing the operator\<close>

text \<open>
  An input of the operator: its schema, the number of its partitions, whether it is ordered,
  and what executing a partition gives. \<open>HashJoinExec::execute\<close> starts the collection of the
  left input as a future; here its outcome is computed at once and handed to the stream. The
  streams of one operator in mode \<open>CollectLeft\<close> all get the same outcome; what they do to the
  build side they share is in theory \<open>HashJoinShared\<close>.
\<close>

record join_input =
  in_schema :: schema
  in_partitions :: nat
  in_ordered :: bool
  in_execute :: "nat \<Rightarrow> batch res list res"

record ('p, 'c) task_context =
  tx_env :: "'p build_env"
  tx_pool :: 'p
  tx_next_id :: nat
  tx_batch_size :: nat
  tx_report :: "unit res option"
  tx_coalescer :: "'c coalescer_ops"

definition start_collect ::
  "('p, 'c) task_context \<Rightarrow> join_info \<Rightarrow> join_input \<Rightarrow> string \<Rightarrow> nat \<Rightarrow> nat \<Rightarrow> left_data res res" where
  "start_collect ctx ji left consumer_name i threads =
     bind_res (in_execute left i) (\<lambda>left_stream.
       let (consumer, next_id) = consumer_new consumer_name (tx_next_id ctx);
           mem = consumer_register (be_pool (tx_env ctx)) consumer (tx_pool ctx)
       in Inr (bind_res (collect_left_input (tx_env ctx) (in_schema left) left_stream (map fst (ji_on ji))
                           (need_produce_result_in_final (ji_type ji)) threads (ji_null_equality ji) mem)
                 (\<lambda>(ld, mem'). Inr ld)))"

definition left_future ::
  "('p, 'c) task_context \<Rightarrow> join_info \<Rightarrow> join_input \<Rightarrow> join_input \<Rightarrow> nat \<Rightarrow> left_data res res" where
  "left_future ctx ji left right part_idx =
     (case ji_mode ji of
        CollectLeft \<Rightarrow> start_collect ctx ji left ''HashJoinInput'' 0 (in_partitions right)
      | Partitioned \<Rightarrow> start_collect ctx ji left (''HashJoinInput['' @ show_nat part_idx @ '']'') part_idx 1
      | Auto \<Rightarrow> Inl (Plan ''Invalid HashJoinExec, unsupported PartitionMode Auto in execute()''))"

definition projected_columns :: "nat list option \<Rightarrow> column_index list \<Rightarrow> column_index list res" where
  "projected_columns proj column_indices =
     (case proj of
        None \<Rightarrow> Inr column_indices
      | Some projection \<Rightarrow>
          collect_res (map (\<lambda>i. if i < length column_indices then Inr (column_indices ! i) else Inl IndexOutOfBounds) projection))"

definition execute_config ::
  "('p, 'c) task_context \<Rightarrow> join_info \<Rightarrow> join_filter option \<Rightarrow> join_input \<Rightarrow> join_input \<Rightarrow> column_index list \<Rightarrow> 'c stream_config" where
  "execute_config ctx ji jf left right cols =
     \<lparr>hc_schema = hash_join_schema ji (in_schema left) (in_schema right), hc_right_schema = in_schema right,
      hc_on_right = map snd (ji_on ji), hc_filter = jf, hc_join_type = ji_type ji, hc_column_indices = cols,
      hc_null_equality = ji_null_equality ji, hc_batch_size = tx_batch_size ctx, hc_right_side_ordered = in_ordered right,
      hc_null_aware = ji_null_aware ji, hc_report = tx_report ctx, hc_hash = be_hash (tx_env ctx),
      hc_types = be_types (tx_env ctx), hc_kernels = be_kernels (tx_env ctx), hc_coalescer = tx_coalescer ctx\<rparr>"

definition hash_join_execute ::
  "('p, 'c) task_context \<Rightarrow> join_info \<Rightarrow> join_filter option \<Rightarrow> join_input \<Rightarrow> join_input \<Rightarrow> nat
    \<Rightarrow> ('c stream_config \<times> 'c hash_join_stream) res" where
  "hash_join_execute ctx ji jf left right part_idx =
     (if ji_mode ji = Partitioned \<and> in_partitions left \<noteq> in_partitions right
      then Inl (Internal (''Invalid HashJoinExec, partition count mismatch '' @ show_nat (in_partitions left) @ ''!=''
                  @ show_nat (in_partitions right) @ '',consider using RepartitionExec''))
      else if ji_mode ji = CollectLeft \<and> in_partitions left \<noteq> 1
      then Inl (Internal (''Invalid HashJoinExec, the output partition count of the left child must be 1 in CollectLeft mode,''
                  @ ''consider using CoalescePartitionsExec or the EnforceDistribution rule''))
      else bind_res (left_future ctx ji left right part_idx) (\<lambda>left_fut.
           bind_res (in_execute right part_idx) (\<lambda>right_stream.
           bind_res (projected_columns (ji_projection ji) (snd (build_join_schema (in_schema left) (in_schema right) (ji_type ji)))) (\<lambda>cols.
           let cfg = execute_config ctx ji jf left right cols
           in Inr (cfg, stream_new cfg left_fut right_stream (ji_fetch ji))))))"

end
