(* ===== verification/HashJoinLookup.thy ===== *)
theory HashJoinLookup
  imports HashJoinOutput HashJoinStream
begin

text \<open>
  What the build side of a hash join is and what probing it yields: collecting the left input
  gives a table over its rows, and looking a probe batch up until no offset is left gives
  exactly the pairs of rows whose keys match, whichever of the two tables was built.
\<close>

section \<open>Comparing keys\<close>

text \<open>Keys of one type on both sides; integers are 64 bits wide.\<close>

definition typed_cell :: "data_type \<Rightarrow> cell \<Rightarrow> bool" where
  "typed_cell t c \<longleftrightarrow> cell_ok t c \<and> (\<forall>i. c = CInt i \<longrightarrow> is_i64 i)"

definition keys_typed ::
  "schema \<Rightarrow> schema \<Rightarrow> (pexpr \<times> pexpr) list \<Rightarrow> (pexpr \<Rightarrow> data_type) \<Rightarrow> (pexpr \<Rightarrow> data_type) \<Rightarrow> bool" where
  "keys_typed ls rs on dl dr \<longleftrightarrow> on \<noteq> [] \<and>
     (\<forall>(a, b) \<in> set on. dl a = dr b \<and> (\<forall>r. row_fits ls r \<longrightarrow> typed_cell (dl a) (eval_pexpr a r)) \<and>
        (\<forall>r. row_fits rs r \<longrightarrow> typed_cell (dr b) (eval_pexpr b r)))"

lemma cells_equal_True:
  "cells_equal neq x y = Some True \<longleftrightarrow> x = y \<and> (neq = NullEqualsNothing \<longrightarrow> x \<noteq> CNull)"
  by (auto simp: cells_equal_def)

lemma and_null_True: "and_null x y = Some True \<longleftrightarrow> x = Some True \<and> y = Some True"
  by (cases x; cases y) auto

lemma gathered_map: "gathered col (map (Some \<circ> f) m) = map (\<lambda>x. col ! f x) m"
  by (simp add: gathered_def)

lemma kernel_take:
  assumes "kernels_spec ak" and "\<And>x. x \<in> set m \<Longrightarrow> f x < length col"
  shows "ak_take ak col (map (Some \<circ> f) m) = Inr (map (\<lambda>x. col ! f x) m)"
proof -
  have "\<forall>i. Some i \<in> set (map (Some \<circ> f) m) \<longrightarrow> i < length col" using assms(2) by auto
  with assms(1) have "ak_take ak col (map (Some \<circ> f) m) = Inr (gathered col (map (Some \<circ> f) m))"
    by (simp add: kernels_spec_def)
  then show ?thesis by (simp add: gathered_map)
qed

lemma map2_same: "map2 h (map f m) (map g m) = map (\<lambda>x. h (f x) (g x)) m"
  by (induction m) auto

lemma kernel_eq:
  assumes "kernels_spec ak" and "\<And>x. x \<in> set m \<Longrightarrow> cell_ok t (f x) \<and> cell_ok t (g x)"
  shows "ak_eq ak neq (map f m) (map g m) = Inr (map (\<lambda>x. cells_equal neq (f x) (g x)) m)"
proof -
  have "list_all (cell_ok t) (map f m)" "list_all (cell_ok t) (map g m)" using assms(2) by (simp_all add: list_all_iff)
  moreover have "\<forall>neq t xs ys. length xs = length ys \<longrightarrow> list_all (cell_ok t) xs \<longrightarrow> list_all (cell_ok t) ys \<longrightarrow>
        ak_eq ak neq xs ys = Inr (map2 (cells_equal neq) xs ys)" using assms(1) unfolding kernels_spec_def by (elim conjE) assumption
  ultimately have "ak_eq ak neq (map f m) (map g m) = Inr (map2 (cells_equal neq) (map f m) (map g m))" by simp
  then show ?thesis by (simp only: map2_same)
qed

lemma kernel_and:
  assumes "kernels_spec ak"
  shows "ak_and ak (map f m) (map g m) = Inr (map (\<lambda>x. and_null (f x) (g x)) m)"
proof -
  have "\<forall>xs ys. length xs = length ys \<longrightarrow> ak_and ak xs ys = Inr (map2 and_null xs ys)"
    using assms unfolding kernels_spec_def by (elim conjE) assumption
  then have "ak_and ak (map f m) (map g m) = Inr (map2 and_null (map f m) (map g m))" by simp
  then show ?thesis by (simp only: map2_same)
qed

text \<open>The columns of a pair of keys, gathered and compared.\<close>

definition key_columns :: "batch \<Rightarrow> batch \<Rightarrow> key_array \<times> key_array \<Rightarrow> bool" where
  "key_columns bb pb = (\<lambda>(l, r). length (snd l) = num_rows bb \<and> length (snd r) = num_rows pb \<and>
     (\<exists>t. list_all (cell_ok t) (snd l) \<and> list_all (cell_ok t) (snd r)))"

lemma equal_step:
  assumes ak: "kernels_spec ak" and "key_columns bb pb (l, r)" and m: "pairs_valid bb pb m"
  shows "ak_take ak (snd l) (map (Some \<circ> snd) m) = Inr (map (\<lambda>x. snd l ! snd x) m)"
    and "ak_take ak (snd r) (map (Some \<circ> fst) m) = Inr (map (\<lambda>x. snd r ! fst x) m)"
    and "ak_eq ak neq (map (\<lambda>x. snd l ! snd x) m) (map (\<lambda>x. snd r ! fst x) m) =
           Inr (map (\<lambda>x. cells_equal neq (snd l ! snd x) (snd r ! fst x)) m)"
proof -
  obtain t where t: "list_all (cell_ok t) (snd l)" "list_all (cell_ok t) (snd r)"
    and len: "length (snd l) = num_rows bb" "length (snd r) = num_rows pb"
    using assms(2) by (auto simp: key_columns_def)
  have idx: "snd x < length (snd l)" "fst x < length (snd r)" if "x \<in> set m" for x
    using m that len by (auto simp: pairs_valid_def)
  show "ak_take ak (snd l) (map (Some \<circ> snd) m) = Inr (map (\<lambda>x. snd l ! snd x) m)"
    using ak idx(1) by (rule kernel_take)
  show "ak_take ak (snd r) (map (Some \<circ> fst) m) = Inr (map (\<lambda>x. snd r ! fst x) m)"
    using ak idx(2) by (rule kernel_take)
  show "ak_eq ak neq (map (\<lambda>x. snd l ! snd x) m) (map (\<lambda>x. snd r ! fst x) m) =
      Inr (map (\<lambda>x. cells_equal neq (snd l ! snd x) (snd r ! fst x)) m)"
    using t idx by (intro kernel_eq [OF ak, of m t]) (simp add: list_all_iff)
qed

lemma equal_fold_pairs:
  assumes ak: "kernels_spec ak" and m: "pairs_valid bb pb m" and "\<forall>lr \<in> set lrs. key_columns bb pb lr"
  shows "\<exists>g'. equal_fold ak neq (map (Some \<circ> snd) m) (map (Some \<circ> fst) m) lrs (map g m) = Inr (map g' m) \<and>
    (\<forall>x. g' x = Some True \<longleftrightarrow>
       g x = Some True \<and> (\<forall>(l, r) \<in> set lrs. cells_equal neq (snd l ! snd x) (snd r ! fst x) = Some True))"
  using assms(3)
proof (induction lrs arbitrary: g)
  case (Cons lr lrs)
  obtain l r where lr: "lr = (l, r)" by (cases lr)
  have k: "key_columns bb pb (l, r)" and rest: "\<forall>lr \<in> set lrs. key_columns bb pb lr" using Cons.prems lr by simp_all
  let ?e = "\<lambda>x. cells_equal neq (snd l ! snd x) (snd r ! fst x)" and ?g = "\<lambda>x. and_null (g x) (cells_equal neq (snd l ! snd x) (snd r ! fst x))"
  have "ak_and ak (map g m) (map ?e m) = Inr (map ?g m)" by (rule kernel_and [OF ak])
  with equal_step [OF ak k m]
  have step: "equal_fold ak neq (map (Some \<circ> snd) m) (map (Some \<circ> fst) m) (lr # lrs) (map g m) =
      equal_fold ak neq (map (Some \<circ> snd) m) (map (Some \<circ> fst) m) lrs (map ?g m)"
    by (simp add: lr)
  obtain g' where "equal_fold ak neq (map (Some \<circ> snd) m) (map (Some \<circ> fst) m) lrs (map ?g m) = Inr (map g' m)"
    "\<forall>x. g' x = Some True \<longleftrightarrow>
       ?g x = Some True \<and> (\<forall>(l, r) \<in> set lrs. cells_equal neq (snd l ! snd x) (snd r ! fst x) = Some True)"
    using Cons.IH [OF rest, of ?g] by blast
  then show ?case unfolding step by (intro exI [of _ g'] conjI) (simp_all add: lr and_null_True conj_assoc)
qed auto

lemma key_columns_eval:
  assumes "keys_typed ls rs on dl dr" and "batch_fits ls bb" and "batch_fits rs pb" and "(a, b) \<in> set on"
  shows "key_columns bb pb ((dl a, map (eval_pexpr a) (rows bb)), (dr b, map (eval_pexpr b) (rows pb)))"
proof -
  have "dl a = dr b" "\<forall>r. row_fits ls r \<longrightarrow> typed_cell (dl a) (eval_pexpr a r)"
    "\<forall>r. row_fits rs r \<longrightarrow> typed_cell (dr b) (eval_pexpr b r)"
    using assms(1,4) by (auto simp: keys_typed_def)
  then show ?thesis using assms(2,3)
    by (auto simp: key_columns_def num_rows_def list_all_iff batch_fits_def typed_cell_def intro!: exI [of _ "dr b"])
qed

lemma zip_eval_keys:
  "zip (eval_keys dl (map fst on) bb) (eval_keys dr (map snd on) pb) =
     map (\<lambda>(a, b). ((dl a, map (eval_pexpr a) (rows bb)), (dr b, map (eval_pexpr b) (rows pb)))) on"
  by (simp add: eval_keys_def zip_map_map zip_same_conv_map comp_def case_prod_unfold)

text \<open>Filtering by equality keeps the pairs whose keys match.\<close>

lemma equal_rows_pairs:
  assumes ak: "kernels_spec ak" and typed: "keys_typed ls rs on dl dr" and fits: "batch_fits ls bb" "batch_fits rs pb"
    and m: "pairs_valid bb pb m"
  shows "equal_rows_arr ak (map (Some \<circ> snd) m) (map (Some \<circ> fst) m)
      (eval_keys dl (map fst on) bb) (eval_keys dr (map snd on) pb) neq =
    Inr (pair_indices (filter (\<lambda>(p, j). keys_match neq on (rows bb ! j) (rows pb ! p)) m))"
proof -
  obtain a b rest where on: "on = (a, b) # rest" using typed by (cases on) (auto simp: keys_typed_def)
  let ?col = "\<lambda>(a, b). ((dl a, map (eval_pexpr a) (rows bb)), (dr b, map (eval_pexpr b) (rows pb)))"
  let ?l = "(dl a, map (eval_pexpr a) (rows bb))" and ?r = "(dr b, map (eval_pexpr b) (rows pb))"
  have cols: "\<forall>lr \<in> set (map ?col on). key_columns bb pb lr" using key_columns_eval [OF typed fits] by auto
  let ?g = "\<lambda>x. cells_equal neq (snd ?l ! snd x) (snd ?r ! fst x)"
  obtain g' where g': "equal_fold ak neq (map (Some \<circ> snd) m) (map (Some \<circ> fst) m) (map ?col rest) (map ?g m) = Inr (map g' m)"
    "\<forall>x. g' x = Some True \<longleftrightarrow>
       ?g x = Some True \<and> (\<forall>(l, r) \<in> set (map ?col rest). cells_equal neq (snd l ! snd x) (snd r ! fst x) = Some True)"
    using equal_fold_pairs [OF ak m, of "map ?col rest" neq ?g] cols unfolding on by auto
  have "filter (\<lambda>x. g' x = Some True) m = filter (\<lambda>(p, j). keys_match neq on (rows bb ! j) (rows pb ! p)) m"
  proof (rule filter_cong [OF refl])
    fix x assume "x \<in> set m"
    then have "snd x < length (rows bb)" "fst x < length (rows pb)" using m by (auto simp: pairs_valid_def num_rows_def)
    then show "g' x = Some True \<longleftrightarrow> (case x of (p, j) \<Rightarrow> keys_match neq on (rows bb ! j) (rows pb ! p))"
      by (auto simp: g'(2) cells_equal_True keys_match_def on list_all_iff)
  qed
  moreover have k: "key_columns bb pb (?l, ?r)" using cols on by simp
  moreover have z: "zip (eval_keys dl (map fst on) bb) (eval_keys dr (map snd on) pb) = (?l, ?r) # map ?col rest"
    unfolding zip_eval_keys by (simp add: on)
  ultimately show ?thesis
    unfolding equal_rows_arr_def z
    by (simp only: list.case prod.case equal_step [OF ak k m] g'(1) bind_res.simps ak_filter_map [OF ak] pair_indices_def)
qed

section \<open>The table of the build side\<close>

text \<open>What the insertions of a list of batches are: last row first within a batch.\<close>

fun insertions :: "(cell list \<Rightarrow> nat) \<Rightarrow> pexpr list \<Rightarrow> nat \<Rightarrow> batch list \<Rightarrow> (nat \<times> nat) list" where
  "insertions hash on off [] = []"
| "insertions hash on off (b # bs) =
     rev (enumerate off (create_hashes hash on b)) @ insertions hash on (off + num_rows b) bs"

lemma flat_rows_Cons [simp]: "flat_rows (b # bs) = rows b @ flat_rows bs"
  by (simp add: flat_rows_def)

lemma flat_rows_Nil [simp]: "flat_rows [] = []"
  by (simp add: flat_rows_def)

lemma flat_rows_append [simp]: "flat_rows (bs @ cs) = flat_rows bs @ flat_rows cs"
  by (simp add: flat_rows_def)

lemma length_create_hashes [simp]: "length (create_hashes hash on b) = num_rows b"
  by (simp add: create_hashes_def num_rows_def)

lemma nth_flat_rows:
  "off + num_rows b \<le> j \<Longrightarrow> flat_rows (b # bs) ! (j - off) = flat_rows bs ! (j - (off + num_rows b))"
  by (auto simp: nth_append num_rows_def)

lemma fst_enumerate_hashes:
  "map fst (rev (enumerate off (create_hashes hash on b))) = rev [off..<off + num_rows b]"
  "fst ` set (enumerate off (create_hashes hash on b)) = {off..<off + num_rows b}"
proof -
  show *: "map fst (rev (enumerate off (create_hashes hash on b))) = rev [off..<off + num_rows b]"
    by (simp add: rev_map [symmetric])
  show "fst ` set (enumerate off (create_hashes hash on b)) = {off..<off + num_rows b}"
    using arg_cong [OF *, of set] by simp
qed

lemma fst_insertions:
  "distinct (map fst (insertions hash on off bs)) \<and>
     fst ` set (insertions hash on off bs) = {off..<off + length (flat_rows bs)}"
proof (induction hash on off bs rule: insertions.induct)
  case (2 hash on off b bs)
  have "{off..<off + num_rows b} \<union> {off + num_rows b..<off + num_rows b + length (flat_rows bs)} =
      {off..<off + length (flat_rows (b # bs))}" by (auto simp: num_rows_def)
  with 2 show ?case
    using fst_enumerate_hashes [of off hash on b] by (simp add: image_Un)
qed simp

lemma insertions_hash:
  "(j, h) \<in> set (insertions hash on off bs) \<Longrightarrow> h = hash (row_keys on (flat_rows bs ! (j - off)))"
proof (induction hash on off bs rule: insertions.induct)
  case (2 hash on off b bs)
  show ?case
  proof (cases "(j, h) \<in> set (enumerate off (create_hashes hash on b))")
    case True
    then show ?thesis
      by (auto simp: in_set_enumerate_eq create_hashes_def nth_append num_rows_def)
  next
    case False
    then have m: "(j, h) \<in> set (insertions hash on (off + num_rows b) bs)" using 2(2) by simp
    then have "j \<in> fst ` set (insertions hash on (off + num_rows b) bs)" by force
    then have "off + num_rows b \<le> j" by (simp add: fst_insertions)
    with 2(1) [OF m] show ?thesis by (simp only: nth_flat_rows)
  qed
qed simp

lemma insertions_rows:
  "map (\<lambda>j. flat_rows bs ! (j - off)) (map fst (rev (insertions hash on off bs))) = flat_rows (rev bs)"
proof (induction hash on off bs rule: insertions.induct)
  case (2 hash on off b bs)
  let ?later = "map fst (rev (insertions hash on (off + num_rows b) bs))"
  have "off + num_rows b \<le> j" if "j \<in> set ?later" for j
  proof -
    have "j \<in> fst ` set (insertions hash on (off + num_rows b) bs)" using that by simp
    then show ?thesis by (simp add: fst_insertions)
  qed
  then have "map (\<lambda>j. flat_rows (b # bs) ! (j - off)) ?later = map (\<lambda>j. flat_rows bs ! (j - (off + num_rows b))) ?later"
    by (intro map_cong refl nth_flat_rows)
  moreover have "map (\<lambda>j. flat_rows (b # bs) ! (j - off)) [off..<off + num_rows b] = rows b"
    by (intro nth_equalityI) (auto simp: nth_append num_rows_def)
  ultimately have "map (\<lambda>j. flat_rows (b # bs) ! (j - off)) (?later @ [off..<off + num_rows b]) = flat_rows (rev bs) @ rows b"
    using 2 by (simp only: map_append)
  then show ?case by simp
qed simp

lemma insert_batches_ok:
  assumes "hm_inv ins m" and "fst ` set ins \<subseteq> {..<off}" and "off + length (flat_rows bs) \<le> length (jm_next m)"
  shows "\<exists>m'. insert_batches env on bs off m = Inr m' \<and> hm_inv (ins @ insertions (be_hash env) on off bs) m'"
  using assms
proof (induction bs arbitrary: ins off m)
  case (Cons b bs)
  let ?new = "rev (enumerate off (create_hashes (be_hash env) on b))"
  have fst_new: "map fst ?new = rev [off..<off + num_rows b]" by (rule fst_enumerate_hashes)
  have set_new: "fst ` set ?new = {off..<off + num_rows b}" using fst_enumerate_hashes(2) by simp
  have "length (jm_next m) < jm_bound m" "distinct (map fst ins)" using Cons.prems(1) by (simp_all add: hm_inv_def)
  moreover have "fst x < length (jm_next m)" if "x \<in> set ?new" for x
  proof -
    have "fst x \<in> {off..<off + num_rows b}" using that set_new by blast
    then show ?thesis using Cons.prems(3) by (simp add: num_rows_def)
  qed
  moreover have "distinct (map fst (ins @ ?new))"
    using Cons.prems(1,2) set_new fst_new by (auto simp: hm_inv_def)
  ultimately obtain m' where m': "update_from_iter 0 ?new m = Inr m'" "hm_inv (ins @ ?new) m'" "length (jm_next m') = length (jm_next m)"
    using update_from_iter_ok [OF Cons.prems(1), of ?new] by fastforce
  have "fst ` set (ins @ ?new) \<subseteq> {..<off + num_rows b}"
    unfolding set_append image_Un set_new using Cons.prems(2) by fastforce
  from Cons.IH [OF m'(2) this] m'(1,3) Cons.prems(3) show ?case
    by (auto simp: update_hash_def num_rows_def)
qed simp


text \<open>
  A table over the rows of a batch, given the order in which lookups list them: every lookup
  of a hash lists the rows with this hash, or the dense map covers the keys.
\<close>

definition dense_ok :: "null_equality \<Rightarrow> cell list \<Rightarrow> array_map \<Rightarrow> bool" where
  "dense_ok neq cs am \<longleftrightarrow>
     (\<exists>lo hi. keys_within lo hi cs \<and> am_inv cs 0 am \<and> am_offset am = as_usize lo \<and> length (am_data am) = nat (hi - lo) + 1)
     \<and> (neq = NullEqualsNull \<longrightarrow> CNull \<notin> set cs) \<and> am_distinct am \<noteq> 0"

definition table_ok ::
  "(cell list \<Rightarrow> nat) \<Rightarrow> (pexpr \<Rightarrow> data_type) \<Rightarrow> null_equality \<Rightarrow> pexpr list \<Rightarrow> nat list \<Rightarrow> batch \<Rightarrow> build_map \<Rightarrow> bool" where
  "table_ok hash dl neq on_left ord b tbl =
     (case tbl of
        HashMap m \<Rightarrow> \<exists>ins. hm_inv ins m \<and>
          (\<forall>h. rows_with h ins = filter (\<lambda>j. hash (row_keys on_left (rows b ! j)) = h) ord)
      | ArrayMap am \<Rightarrow> \<exists>e. on_left = [e] \<and> is_supported_type (dl e) \<and> ord = [0..<num_rows b] \<and>
          dense_ok neq (map (eval_pexpr e) (rows b)) am)"

definition left_ok ::
  "schema \<Rightarrow> (cell list \<Rightarrow> nat) \<Rightarrow> (pexpr \<Rightarrow> data_type) \<Rightarrow> null_equality \<Rightarrow> pexpr list \<Rightarrow> row list \<Rightarrow> nat list \<Rightarrow> left_data \<Rightarrow> bool" where
  "left_ok ls hash dl neq on_left L ord ld \<longleftrightarrow>
     batch_fits ls (ld_batch ld) \<and> ld_values ld = eval_keys dl on_left (ld_batch ld) \<and>
     distinct ord \<and> set ord = {..<num_rows (ld_batch ld)} \<and> map ((!) (rows (ld_batch ld))) ord = L \<and>
     table_ok hash dl neq on_left ord (ld_batch ld) (ld_map ld)"

lemma collect_batches_ok:
  "collect_batches env (map Inr bs) acc mem = Inr (bs', mem') \<Longrightarrow> bs' = acc @ bs"
proof (induction bs arbitrary: acc mem)
  case (Cons b bs)
  then obtain mem1 where "collect_batches env (map Inr bs) (acc @ [b]) mem1 = Inr (bs', mem')" by auto
  from Cons.IH [OF this] show ?case by simp
qed simp

lemma batches_fit_ok: "list_all (batch_fits sch) bs \<Longrightarrow> batches_ok sch bs"
  by (auto simp: list_all_iff batch_fits_ok)

lemma kernel_concat_batches:
  assumes "kernels_spec ak" and "list_all (batch_fits sch) bs"
  shows "ak_concat_batches ak sch bs = Inr \<lparr>col_types = map field_type (schema_fields sch), rows = flat_rows bs\<rparr>"
proof -
  have "\<forall>sch bs. batches_ok sch bs \<longrightarrow> ak_concat_batches ak sch bs =
        Inr \<lparr>col_types = map field_type (schema_fields sch), rows = flat_rows bs\<rparr>"
    using assms(1) unfolding kernels_spec_def by (elim conjE) assumption
  then show ?thesis using batches_fit_ok [OF assms(2)] by simp
qed

lemma flat_rows_fit:
  "list_all (batch_fits sch) bs \<Longrightarrow> batch_fits sch \<lparr>col_types = map field_type (schema_fields sch), rows = flat_rows bs\<rparr>"
  by (auto simp: list_all_iff batch_fits_def flat_rows_def)

lemma build_hash_map_ok:
  assumes "kernels_spec (be_kernels env)" and fit: "list_all (batch_fits ls) bs" and small: "length (flat_rows bs) < usize_mod"
    and r: "build_hash_map env ls bs on_left mem = Inr ((m, b, vs), mem')"
  shows "batch_fits ls b \<and> vs = eval_keys (be_types env) on_left b \<and> num_rows b = length (flat_rows bs) \<and>
    (\<exists>ord. distinct ord \<and> set ord = {..<num_rows b} \<and> map ((!) (rows b)) ord = flat_rows bs \<and>
       table_ok (be_hash env) (be_types env) neq on_left ord b m)"
proof -
  let ?n = "length (flat_rows bs)" and ?ins = "insertions (be_hash env) on_left 0 (rev bs)"
  define bound :: nat where "bound = (if 2 ^ 32 - 1 < ?n then 2 ^ 64 else 2 ^ 32)"
  have fit': "list_all (batch_fits ls) (rev bs)" using fit by simp
  have len: "length (flat_rows (rev bs)) = ?n" by (induction bs) auto
  have inv0: "hm_inv [] (with_capacity bound ?n)"
    using small by (intro hm_inv_with_capacity) (auto simp: bound_def usize_mod_def)
  obtain jm where jm: "insert_batches env on_left (rev bs) 0 (with_capacity bound ?n) = Inr jm" "hm_inv ?ins jm"
    using insert_batches_ok [OF inv0, of 0 "rev bs" env on_left] len by (auto simp: with_capacity_def)
  have b: "b = \<lparr>col_types = map field_type (schema_fields ls), rows = flat_rows (rev bs)\<rparr>" "m = HashMap jm"
    "vs = eval_keys (be_types env) on_left b"
    using r kernel_concat_batches [OF assms(1) fit'] jm(1) by (auto simp: build_hash_map_def Let_def bound_def)
  define ord where "ord = map fst (rev ?ins)"
  have "distinct ord" "set ord = {..<num_rows b}"
    using fst_insertions [of "be_hash env" on_left 0 "rev bs"]
    by (auto simp: ord_def b(1) num_rows_def distinct_rev rev_map [symmetric] lessThan_atLeast0)
  moreover have "map ((!) (rows b)) ord = flat_rows bs"
    using insertions_rows [of "rev bs" 0 "be_hash env" on_left] by (simp add: ord_def b(1))
  moreover have "rows_with h ?ins = filter (\<lambda>j. be_hash env (row_keys on_left (rows b ! j)) = h) ord" for h
  proof -
    have "filter (\<lambda>(row, hash). hash = h) ?ins = filter (\<lambda>x. be_hash env (row_keys on_left (rows b ! fst x)) = h) ?ins"
      using insertions_hash [of _ _ "be_hash env" on_left 0 "rev bs"] by (intro filter_cong) (auto simp: b(1))
    then show ?thesis by (simp add: rows_with_def ord_def filter_map rev_map rev_filter comp_def)
  qed
  ultimately have "\<exists>ord. distinct ord \<and> set ord = {..<num_rows b} \<and> map ((!) (rows b)) ord = flat_rows bs \<and>
       table_ok (be_hash env) (be_types env) neq on_left ord b m"
    using jm(2) by (intro exI [of _ ord]) (auto simp: table_ok_def b(2))
  then show ?thesis using b flat_rows_fit [OF fit'] len by (simp add: num_rows_def)
qed


lemma set_int_keys: "i \<in> set (int_keys cs) \<longleftrightarrow> CInt i \<in> set cs"
  by (induction cs rule: int_keys.induct) auto

lemma foldl_min_max:
  fixes x :: int
  shows "foldl min x xs \<in> set (x # xs) \<and> (\<forall>y \<in> set (x # xs). foldl min x xs \<le> y)"
    and "foldl max x xs \<in> set (x # xs) \<and> (\<forall>y \<in> set (x # xs). y \<le> foldl max x xs)"
proof -
  show "foldl min x xs \<in> set (x # xs) \<and> (\<forall>y \<in> set (x # xs). foldl min x xs \<le> y)"
  proof (induction xs arbitrary: x)
    case (Cons a xs)
    from Cons [of "min x a"] show ?case by (auto simp: min_def split: if_splits)
  qed simp
  show "foldl max x xs \<in> set (x # xs) \<and> (\<forall>y \<in> set (x # xs). y \<le> foldl max x xs)"
  proof (induction xs arbitrary: x)
    case (Cons a xs)
    from Cons [of "max x a"] show ?case by (auto simp: max_def split: if_splits)
  qed simp
qed

lemma key_bounds_ok:
  assumes "key_bounds cs = Some (lo, hi)"
  shows "CInt lo \<in> set cs" and "CInt hi \<in> set cs" and "CInt i \<in> set cs \<Longrightarrow> lo \<le> i \<and> i \<le> hi"
proof -
  obtain x xs where xs: "int_keys cs = x # xs" "lo = foldl min x xs" "hi = foldl max x xs"
    using assms by (auto simp: key_bounds_def split: list.splits)
  have mem: "j \<in> set (x # xs) \<longleftrightarrow> CInt j \<in> set cs" for j unfolding xs(1) [symmetric] by (rule set_int_keys)
  show "CInt lo \<in> set cs" "CInt hi \<in> set cs" using foldl_min_max [of x xs] mem xs(2,3) by blast+
  show "CInt i \<in> set cs \<Longrightarrow> lo \<le> i \<and> i \<le> hi" using foldl_min_max [of x xs] mem xs(2,3) by blast
qed

lemma typed_int_cell: "is_supported_type t \<Longrightarrow> typed_cell t c \<Longrightarrow> int_cell c"
  by (cases t; cases c) (auto simp: typed_cell_def)

lemma array_map_nonempty:
  assumes inv: "am_inv cs 0 am" and w: "keys_within lo hi cs" and am: "am_offset am = as_usize lo" "length (am_data am) = nat (hi - lo) + 1"
    and mem: "CInt v \<in> set cs"
  shows "am_distinct am \<noteq> 0"
proof
  assume "am_distinct am = 0"
  then have "am_data am ! idx = 0" if "\<not> length (am_data am) \<le> idx" for idx using inv that by (simp add: am_inv_def)
  then have "array_head am c = None" for c
    unfolding array_head_def Let_def by (cases "key_to_u64 c") (simp_all only: option.case if_cancel, metis)
  then have "array_candidates am cs (CInt v) = []" using array_head_ok [OF inv, of "CInt v"] by (simp add: head_ok_def)
  moreover have "int_cell (CInt v)" using w mem by (auto simp: keys_within_def)
  ultimately have "equal_key_rows cs (CInt v) = []" using array_candidates_eq [OF w am] by simp
  with mem show False by (auto simp: equal_key_rows_def filter_empty_conv in_set_conv_nth)
qed

text \<open>Keys of an integer type lie between their bounds, whose distance fits 64 bits.\<close>

lemma bounded_keys:
  assumes fit: "list_all (batch_fits ls) bs" and typed: "\<And>r. row_fits ls r \<Longrightarrow> typed_cell t (eval_pexpr e r)"
    and t: "is_supported_type t" and cs: "cs = map (eval_pexpr e) (flat_rows bs)" and bd: "key_bounds cs = Some (lo, hi)"
    and range: "calculate_range (as_usize lo) (as_usize hi) \<noteq> usize_max"
  shows "keys_within lo hi cs" and "lo \<le> hi"
proof -
  have int: "int_cell c" if mem: "c \<in> set cs" for c
  proof -
    obtain row where "row \<in> set (flat_rows bs)" "c = eval_pexpr e row" using mem by (auto simp: cs)
    moreover from this have "row_fits ls row" using flat_rows_fit [OF fit] by (auto simp: batch_fits_def list_all_iff)
    ultimately show ?thesis using typed by (intro typed_int_cell [OF t]) simp
  qed
  have i64: "is_i64 lo" "is_i64 hi" and le: "lo \<le> hi" using int key_bounds_ok [OF bd] by fastforce+
  have "wsub (as_usize hi) (as_usize lo) = nat (hi - lo)" using slot_range [of lo hi hi] i64 le by simp
  then have "hi - lo < 2 ^ 64 - 1"
    using range i64 le by (auto simp: calculate_range_def usize_max_def usize_mod_def is_i64_def)
  then show "keys_within lo hi cs" using i64 int key_bounds_ok(3) [OF bd] by (auto simp: keys_within_def)
  show "lo \<le> hi" by (rule le)
qed

lemma try_create_array_map_ok:
  assumes "kernels_spec (be_kernels env)" and fit: "list_all (batch_fits ls) bs"
    and typed: "\<And>e r. e \<in> set on_left \<Longrightarrow> row_fits ls r \<Longrightarrow> typed_cell (be_types env e) (eval_pexpr e r)"
    and r: "try_create_array_map env ls bs on_left neq mem = Inr (Some (am, b, vs), mem')"
  shows "b = \<lparr>col_types = map field_type (schema_fields ls), rows = flat_rows bs\<rparr> \<and> vs = eval_keys (be_types env) on_left b \<and>
    table_ok (be_hash env) (be_types env) neq on_left [0..<num_rows b] b (ArrayMap am)"
proof -
  let ?B = "\<lparr>col_types = map field_type (schema_fields ls), rows = flat_rows bs\<rparr>"
  obtain e where e: "on_left = [e]" "is_supported_type (be_types env e)"
    and nulls: "neq = NullEqualsNull \<longrightarrow> CNull \<notin> set (on_left_cells on_left bs)"
    using r by (auto simp: try_create_array_map_def Let_def should_collect_min_max_for_perfect_hash_def
        split: if_splits list.splits)
  define cs where "cs = map (eval_pexpr e) (flat_rows bs)"
  have cells: "on_left_cells [e] bs = cs" and num: "length cs = length (flat_rows bs)"
    and ev: "eval_keys (be_types env) [e] ?B = [(be_types env e, cs)]"
    by (simp_all add: on_left_cells_def cs_def eval_keys_def)
  obtain lo hi where bd: "key_bounds cs = Some (lo, hi)"
    using r by (auto simp: try_create_array_map_def Let_def e(1) cells split: if_splits option.splits)
  have new: "array_map_try_new (be_types env e, cs) (as_usize lo) (as_usize hi) = Inr am" "b = ?B"
    "vs = eval_keys (be_types env) on_left ?B" and range: "calculate_range (as_usize lo) (as_usize hi) \<noteq> usize_max"
    and n: "length cs < 2 ^ 32"
    using r kernel_concat_batches [OF assms(1) fit]
    by (auto simp: try_create_array_map_def Let_def bd e(1) ev cells num split: if_splits)
  note w = bounded_keys [OF fit typed [of e, unfolded e(1)] e(2) cs_def bd range, simplified]
  obtain am' where am': "array_map_try_new (be_types env e, cs) (as_usize lo) (as_usize hi) = Inr am'" "am_inv cs 0 am'"
    "am_offset am' = as_usize lo" "length (am_data am') = nat (hi - lo) + 1"
    using array_map_try_new_ok [OF w(1) e(2) n w(2)] by blast
  then have am: "am' = am" using new(1) by simp
  have "dense_ok neq cs am"
    using am' w(1) nulls [unfolded e(1) cells] array_map_nonempty [OF am'(2) w(1) am'(3,4) key_bounds_ok(1) [OF bd]] unfolding am dense_ok_def by blast
  with new e show ?thesis by (simp add: table_ok_def cs_def)
qed


text \<open>What collecting the left input gives, when it succeeds.\<close>

lemma collect_left_ok:
  assumes ak: "kernels_spec (be_kernels env)" and fit: "list_all (batch_fits ls) lbs"
    and small: "length (flat_rows lbs) < usize_mod"
    and typed: "\<And>e r. e \<in> set on_left \<Longrightarrow> row_fits ls r \<Longrightarrow> typed_cell (be_types env e) (eval_pexpr e r)"
    and r: "collect_left_input env ls (map Inr lbs) on_left wb threads neq mem = Inr (ld, mem')"
  shows "\<exists>ord. left_ok ls (be_hash env) (be_types env) neq on_left (flat_rows lbs) ord ld"
    and "ld_visited ld = (if wb then replicate (length (flat_rows lbs)) False else [])"
    and "ld_threads ld = threads"
proof -
  obtain bs mem1 dense mem2 m b vs mem3 mem4 where c: "collect_batches env (map Inr lbs) [] mem = Inr (bs, mem1)"
    "try_create_array_map env ls bs on_left neq mem1 = Inr (dense, mem2)"
    "(case dense of Some (am, b, left_values) \<Rightarrow> Inr ((ArrayMap am, b, left_values), mem2)
        | None \<Rightarrow> build_hash_map env ls bs on_left mem2) = Inr ((m, b, vs), mem3)"
    and ld: "ld = \<lparr>ld_map = m, ld_batch = b, ld_values = vs,
           ld_visited = (if wb then replicate (length (flat_rows bs)) False else []),
           ld_threads = threads, ld_non_empty = False, ld_has_null = False\<rparr>"
    using r by (auto simp: collect_left_input_def)
  have bs: "bs = lbs" using collect_batches_ok [OF c(1)] by simp
  show "ld_visited ld = (if wb then replicate (length (flat_rows lbs)) False else [])" "ld_threads ld = threads"
    by (simp_all add: ld bs)
  show "\<exists>ord. left_ok ls (be_hash env) (be_types env) neq on_left (flat_rows lbs) ord ld"
  proof (cases dense)
    case None
    then have "build_hash_map env ls lbs on_left mem2 = Inr ((m, b, vs), mem3)" using c(3) bs by simp
    from build_hash_map_ok [OF ak fit small this, of neq] show ?thesis by (auto simp: left_ok_def ld)
  next
    case (Some x)
    obtain am b' vs' where x: "x = (am, b', vs')" by (cases x)
    then have m: "m = ArrayMap am" "b = b'" "vs = vs'" using c(3) Some by simp_all
    have "try_create_array_map env ls lbs on_left neq mem1 = Inr (Some (am, b, vs), mem2)" using c(2) Some x m bs by simp
    from try_create_array_map_ok [OF ak fit typed this] flat_rows_fit [OF fit]
    have "left_ok ls (be_hash env) (be_types env) neq on_left (flat_rows lbs) [0..<num_rows b] ld"
      by (auto simp: left_ok_def ld m num_rows_def map_nth)
    then show ?thesis by blast
  qed
qed

lemma map_is_empty_rows:
  assumes "left_ok ls hash dl neq on_left L ord ld" and "map_is_empty (ld_map ld)"
  shows "L = []"
proof (cases "ld_map ld")
  case (HashMap m)
  then obtain ins where ins: "hm_inv ins m"
    "\<forall>h. rows_with h ins = filter (\<lambda>j. hash (row_keys on_left (rows (ld_batch ld) ! j)) = h) ord"
    using assms(1) by (auto simp: left_ok_def table_ok_def)
  have "jm_map m = []" using assms(2) HashMap by (simp add: map_is_empty_def jm_len_def)
  then have "rows_with h ins = []" for h using ins(1) by (simp add: hm_inv_def head_ok_def)
  then have none: "filter (\<lambda>j. hash (row_keys on_left (rows (ld_batch ld) ! j)) = h) ord = []" for h using ins(2) by simp
  have "ord = []"
  proof (cases ord)
    case (Cons j js)
    then show ?thesis using none [of "hash (row_keys on_left (rows (ld_batch ld) ! j))"] by simp
  qed
  then show ?thesis using assms(1) by (auto simp: left_ok_def)
next
  case (ArrayMap am)
  then show ?thesis using assms by (auto simp: left_ok_def table_ok_def dense_ok_def map_is_empty_def)
qed

section \<open>Probing\<close>

text \<open>The pairs of a probe row and a build row whose keys match, probe row by probe row.\<close>

definition keys_pair :: "null_equality \<Rightarrow> (pexpr \<times> pexpr) list \<Rightarrow> batch \<Rightarrow> batch \<Rightarrow> nat \<times> nat \<Rightarrow> bool" where
  "keys_pair neq on bb pb = (\<lambda>(p, j). keys_match neq on (rows bb ! j) (rows pb ! p))"

definition match_pairs :: "null_equality \<Rightarrow> (pexpr \<times> pexpr) list \<Rightarrow> batch \<Rightarrow> batch \<Rightarrow> nat list \<Rightarrow> index_pairs" where
  "match_pairs neq on bb pb ord =
     concat (map (\<lambda>p. map (Pair p) (filter (\<lambda>j. keys_match neq on (rows bb ! j) (rows pb ! p)) ord)) [0..<num_rows pb])"

definition raw_lookup ::
  "'c stream_config \<Rightarrow> left_data \<Rightarrow> nat list \<Rightarrow> key_array list \<Rightarrow> map_offset \<Rightarrow> (index_pairs \<times> map_offset option) res option" where
  "raw_lookup cfg ld hashes values off =
     (case ld_map ld of
        HashMap m \<Rightarrow> get_matched_indices_with_limit_offset m hashes (hc_batch_size cfg) off
      | ArrayMap am \<Rightarrow> array_get_matched_indices am values (hc_batch_size cfg) off)"

definition raw_ok :: "'c stream_config \<Rightarrow> left_data \<Rightarrow> (pexpr \<times> pexpr) list \<Rightarrow> batch \<Rightarrow> index_pairs \<Rightarrow> bool" where
  "raw_ok cfg ld on pb out \<longleftrightarrow> pairs_valid (ld_batch ld) pb out \<and>
     (\<forall>am. ld_map ld = ArrayMap am \<longrightarrow> (\<forall>x \<in> set out. keys_pair (hc_null_equality cfg) on (ld_batch ld) pb x))"

lemma lookup_map_pairs:
  assumes ak: "kernels_spec (hc_kernels cfg)" and typed: "keys_typed ls rs on dl dr"
    and fits: "batch_fits ls (ld_batch ld)" "batch_fits rs pb"
    and vals: "ld_values ld = eval_keys dl (map fst on) (ld_batch ld)" "ps_values ps = eval_keys dr (map snd on) pb"
    and out: "raw_lookup cfg ld hashes (ps_values ps) (ps_offset ps) = Some (Inr (out, nxt))" "raw_ok cfg ld on pb out"
  shows "lookup_map cfg ld hashes ps =
    Some (Inr (map (Some \<circ> snd) (filter (keys_pair (hc_null_equality cfg) on (ld_batch ld) pb) out),
               map (Some \<circ> fst) (filter (keys_pair (hc_null_equality cfg) on (ld_batch ld) pb) out), nxt))"
proof (cases "ld_map ld")
  case (HashMap m)
  have "pairs_valid (ld_batch ld) pb out" using out(2) by (simp add: raw_ok_def)
  from equal_rows_pairs [OF ak typed fits this] HashMap out(1) show ?thesis
    by (simp add: lookup_map_def lookup_join_hashmap_def raw_lookup_def vals pair_indices_def keys_pair_def)
next
  case (ArrayMap am)
  then have "filter (keys_pair (hc_null_equality cfg) on (ld_batch ld) pb) out = out" using out(2)
    by (simp add: raw_ok_def filter_id_conv)
  with ArrayMap out(1) show ?thesis by (simp add: lookup_map_def raw_lookup_def)
qed


lemma filter_pairs_concat:
  "filter (keys_pair neq on bb pb) (concat (map (\<lambda>p. map (Pair p) (f p)) ps)) =
     concat (map (\<lambda>p. map (Pair p) (filter (\<lambda>j. keys_match neq on (rows bb ! j) (rows pb ! p)) (f p))) ps)"
  by (induction ps) (auto simp: filter_map comp_def keys_pair_def)

lemma keys_match_row_keys: "keys_match neq on l r \<Longrightarrow> row_keys (map fst on) l = row_keys (map snd on) r"
  by (auto simp: keys_match_def row_keys_def list_all_iff)

lemma pairs_in_range:
  assumes "\<And>p. set (f p) \<subseteq> {..<num_rows bb}"
  shows "pairs_valid bb pb (concat (map (\<lambda>p. map (Pair p) (f p)) [0..<num_rows pb]))"
  using assms by (fastforce simp: pairs_valid_def)

text \<open>Draining a lookup gives the matching pairs, once those whose keys differ are dropped.\<close>

lemma hash_lookup_drained:
  assumes ok: "left_ok ls (hc_hash cfg) dl (hc_null_equality cfg) (map fst on) L ord ld" and m: "ld_map ld = HashMap m"
    and small: "num_rows pb \<le> 2 ^ 32" and bs: "0 < hc_batch_size cfg" "hc_batch_size cfg < 2 ^ 63"
  shows "\<exists>outs. drained (raw_lookup cfg ld (create_hashes (hc_hash cfg) (map snd on) pb) vals) (0, None) outs \<and>
    raw_ok cfg ld on pb (concat outs) \<and>
    filter (keys_pair (hc_null_equality cfg) on (ld_batch ld) pb) (concat outs) =
      match_pairs (hc_null_equality cfg) on (ld_batch ld) pb ord"
proof -
  let ?hs = "create_hashes (hc_hash cfg) (map snd on) pb" and ?n = "num_rows pb" and ?b = "ld_batch ld"
  obtain ins where ins: "hm_inv ins m"
    "\<forall>h. rows_with h ins = filter (\<lambda>j. hc_hash cfg (row_keys (map fst on) (rows ?b ! j)) = h) ord"
    using ok m by (auto simp: left_ok_def table_ok_def)
  let ?f = "\<lambda>p. filter (\<lambda>j. hc_hash cfg (row_keys (map fst on) (rows ?b ! j)) = ?hs ! p) ord"
  let ?xs = "concat (map (\<lambda>p. map (Pair p) (?f p)) [0..<?n])"
  have "pairs_from 0 (candidates ins ?hs) = ?xs"
    using ins(2) by (auto simp: pairs_from_def candidates_def intro!: arg_cong [of _ _ concat])
  then have "hm_pending m ?hs (0, None) ?xs"
    using ins(1) small by (auto simp: hm_pending_def pending_def)
  from hm.drains [OF this bs] obtain outs where
    outs: "drained (get_matched_indices_with_limit_offset m ?hs (hc_batch_size cfg)) (0, None) outs" "concat outs = ?xs" by blast
  have "pairs_valid ?b pb ?xs" using ok by (intro pairs_in_range) (auto simp: left_ok_def)
  then have "raw_ok cfg ld on pb (concat outs)" by (simp add: raw_ok_def outs(2) m)
  moreover have "filter (\<lambda>j. keys_match neq on (rows ?b ! j) (rows pb ! p)) (?f p) =
      filter (\<lambda>j. keys_match neq on (rows ?b ! j) (rows pb ! p)) ord" if "p < ?n" for p neq
    using that keys_match_row_keys by (fastforce simp: create_hashes_def num_rows_def intro: filter_cong)
  then have "filter (keys_pair (hc_null_equality cfg) on ?b pb) (concat outs) = match_pairs (hc_null_equality cfg) on ?b pb ord"
    unfolding outs(2) filter_pairs_concat match_pairs_def by (intro arg_cong [of _ _ concat] map_cong) auto
  moreover have "raw_lookup cfg ld ?hs vals = get_matched_indices_with_limit_offset m ?hs (hc_batch_size cfg)"
    by (rule ext) (simp add: raw_lookup_def m)
  ultimately show ?thesis using outs(1) by auto
qed


lemma equal_key_rows_match:
  assumes "neq = NullEqualsNull \<longrightarrow> CNull \<notin> set (map (eval_pexpr e) (rows bb))"
  shows "equal_key_rows (map (eval_pexpr e) (rows bb)) (eval_pexpr f r) =
    filter (\<lambda>j. keys_match neq [(e, f)] (rows bb ! j) r) [0..<num_rows bb]"
proof (cases "eval_pexpr f r = CNull")
  case True
  have "eval_pexpr e (rows bb ! j) \<noteq> CNull" if "neq = NullEqualsNull" "j < num_rows bb" for j
    using assms that by (auto simp: num_rows_def image_iff) (metis nth_mem)
  with True have "filter (\<lambda>j. keys_match neq [(e, f)] (rows bb ! j) r) [0..<num_rows bb] = []"
    by (cases neq) (auto simp: filter_empty_conv keys_match_def)
  with True show ?thesis by (simp add: equal_key_rows_def)
next
  case False
  then show ?thesis by (auto simp: equal_key_rows_def keys_match_def num_rows_def intro!: filter_cong)
qed

lemma array_lookup_drained:
  assumes ok: "left_ok ls hash dl (hc_null_equality cfg) (map fst on) L ord ld" and am: "ld_map ld = ArrayMap am"
    and typed: "keys_typed ls rs on dl dr" and fit: "batch_fits rs pb"
    and small: "num_rows pb \<le> 2 ^ 32" and bs: "0 < hc_batch_size cfg" "hc_batch_size cfg < 2 ^ 63"
  shows "\<exists>outs. drained (raw_lookup cfg ld hashes (eval_keys dr (map snd on) pb)) (0, None) outs \<and>
    raw_ok cfg ld on pb (concat outs) \<and>
    filter (keys_pair (hc_null_equality cfg) on (ld_batch ld) pb) (concat outs) =
      match_pairs (hc_null_equality cfg) on (ld_batch ld) pb ord"
proof -
  let ?b = "ld_batch ld" and ?n = "num_rows pb" and ?neq = "hc_null_equality cfg"
  obtain e where e: "map fst on = [e]" "is_supported_type (dl e)" "ord = [0..<num_rows ?b]"
    "dense_ok ?neq (map (eval_pexpr e) (rows ?b)) am"
    using ok am by (auto simp: left_ok_def table_ok_def)
  then obtain f where on: "on = [(e, f)]" by (cases on) auto
  have f: "dr f = dl e" "\<And>r. row_fits rs r \<Longrightarrow> typed_cell (dr f) (eval_pexpr f r)" using typed by (auto simp: keys_typed_def on)
  let ?cs = "map (eval_pexpr e) (rows ?b)" and ?ps = "map (eval_pexpr f) (rows pb)"
  obtain lo hi where d: "keys_within lo hi ?cs" "am_inv ?cs 0 am" "am_offset am = as_usize lo" "length (am_data am) = nat (hi - lo) + 1"
    and nulls: "?neq = NullEqualsNull \<longrightarrow> CNull \<notin> set ?cs" using e(4) by (auto simp: dense_ok_def)
  let ?g = "\<lambda>p. filter (\<lambda>j. keys_match ?neq on (rows ?b ! j) (rows pb ! p)) ord"
  have int: "int_cell (eval_pexpr f (rows pb ! p))" if "p < ?n" for p
  proof (rule typed_int_cell)
    show "is_supported_type (dr f)" using e(2) f(1) by simp
    have "row_fits rs (rows pb ! p)" using fit that by (simp add: batch_fits_def list_all_length num_rows_def)
    then show "typed_cell (dr f) (eval_pexpr f (rows pb ! p))" by (rule f(2))
  qed
  have "array_candidates am ?cs (?ps ! p) = ?g p" if "p < ?n" for p
    using array_candidates_eq [OF d(1,3,4) int [OF that]] equal_key_rows_match [OF nulls, of f "rows pb ! p"] that
    by (simp add: e(3) on num_rows_def)
  then have "pairs_from 0 (map (array_candidates am ?cs) ?ps) = match_pairs ?neq on ?b pb ord"
    unfolding pairs_from_def match_pairs_def by (intro arg_cong [of _ _ concat] map_cong) (auto simp: num_rows_def)
  then have "am_pending am ?ps (0, None) (match_pairs ?neq on ?b pb ord)"
    using d(2) small by (auto simp: am_pending_def pending_def num_rows_def)
  from am.drains [OF this bs] obtain outs where
    outs: "drained (lookup_and_get_indices am ?ps (hc_batch_size cfg)) (0, None) outs"
      "concat outs = match_pairs ?neq on ?b pb ord" by blast
  have all: "\<forall>x \<in> set (concat outs). keys_pair ?neq on ?b pb x" unfolding outs(2) by (auto simp: match_pairs_def keys_pair_def)
  have "pairs_valid ?b pb (match_pairs ?neq on ?b pb ord)"
    unfolding match_pairs_def using ok by (intro pairs_in_range) (auto simp: left_ok_def)
  then have "raw_ok cfg ld on pb (concat outs)" using all by (simp add: raw_ok_def outs(2))
  moreover have "raw_lookup cfg ld hashes (eval_keys dr (map snd on) pb) = lookup_and_get_indices am ?ps (hc_batch_size cfg)"
    using e(2) f(1) by (intro ext) (simp add: raw_lookup_def am array_get_matched_indices_def eval_keys_def on)
  moreover have "filter (keys_pair ?neq on ?b pb) (concat outs) = match_pairs ?neq on ?b pb ord"
    using all outs(2) by (simp add: filter_id_conv)
  ultimately show ?thesis using outs(1) by auto
qed

text \<open>Whichever table was built; the buffer of hashes matters to the hash table only.\<close>

lemma lookup_drained:
  assumes ok: "left_ok ls (hc_hash cfg) dl (hc_null_equality cfg) (map fst on) L ord ld"
    and typed: "keys_typed ls rs on dl dr" and fit: "batch_fits rs pb"
    and small: "num_rows pb \<le> 2 ^ 32" and bs: "0 < hc_batch_size cfg" "hc_batch_size cfg < 2 ^ 63"
    and hashes: "\<And>m. ld_map ld = HashMap m \<Longrightarrow> hashes = create_hashes (hc_hash cfg) (map snd on) pb"
  shows "\<exists>outs. drained (raw_lookup cfg ld hashes (eval_keys dr (map snd on) pb)) (0, None) outs \<and>
    raw_ok cfg ld on pb (concat outs) \<and>
    filter (keys_pair (hc_null_equality cfg) on (ld_batch ld) pb) (concat outs) =
      match_pairs (hc_null_equality cfg) on (ld_batch ld) pb ord"
proof (cases "ld_map ld")
  case (HashMap m)
  from hash_lookup_drained [OF ok HashMap small bs] hashes [OF HashMap] show ?thesis by simp
next
  case (ArrayMap am)
  from array_lookup_drained [OF ok ArrayMap typed fit small bs] show ?thesis .
qed

end
