(* ===== verification/HashJoinChunk.thy ===== *)
theory HashJoinChunk
  imports HashJoinLookup
begin

text \<open>
  What one probe batch contributes to the output of a hash join: the batches made of the
  chunks of a lookup hold together exactly the rows the specification gives for the rows of
  the batch, for every join type.
\<close>

section \<open>Rows of a chunk\<close>

text \<open>A cell of an output row depends on the sides the join type uses only.\<close>

lemma join_row_cong:
  assumes "columns_ok ls rs t sch cols" and "side_used t SideLeft \<Longrightarrow> l = l'" and "side_used t SideRight \<Longrightarrow> r = r'"
    and "side_used t SideNone \<Longrightarrow> a = b"
  shows "join_row cols l r a = join_row cols l' r' b"
  unfolding join_row_def
proof (rule map_cong [OF refl])
  fix ci assume "ci \<in> set cols"
  then have v: "column_valid ls rs t ci" using assms(1) by (simp add: columns_ok_def)
  obtain i s where ci: "ci = (i, s)" by (cases ci)
  with v assms(2-4) show "join_cell l r a ci = join_cell l' r' b ci" by (cases s) auto
qed

definition pair_row :: "column_index list \<Rightarrow> batch \<Rightarrow> batch \<Rightarrow> nat option \<times> nat option \<Rightarrow> row" where
  "pair_row cols bb pb = (\<lambda>(x, y).
     join_row cols (map_option ((!) (rows bb)) x) (map_option ((!) (rows pb)) y) (y \<noteq> None))"

definition pair_ok :: "join_type \<Rightarrow> batch \<Rightarrow> batch \<Rightarrow> nat option \<times> nat option \<Rightarrow> bool" where
  "pair_ok t bb pb = (\<lambda>(x, y). sides_ok t x y \<and> (\<forall>j. side_used t SideLeft \<longrightarrow> x = Some j \<longrightarrow> j < num_rows bb)
     \<and> (\<forall>p. side_used t SideRight \<longrightarrow> y = Some p \<longrightarrow> p < num_rows pb))"

lemma build_pairs:
  assumes ak: "kernels_spec ak" and cols: "columns_ok ls rs t sch cols"
    and fits: "batch_fits ls bb" "batch_fits rs pb"
    and len: "length li = length ri" and ok: "\<And>z. z \<in> set (zip li ri) \<Longrightarrow> pair_ok t bb pb z"
  shows "\<exists>b. build_batch_from_indices ak sch bb pb li ri cols SideLeft t = Inr b
    \<and> col_types b = map field_type (schema_fields sch) \<and> rows b = map (pair_row cols bb pb) (zip li ri)"
proof -
  have at: "pair_ok t bb pb (li ! k, ri ! k)" if "k < length li" for k
    using ok [OF nth_mem, of k] that len by simp
  have "side_used t SideLeft \<Longrightarrow> valid_indices li (num_rows bb)" "side_used t SideRight \<Longrightarrow> valid_indices ri (num_rows pb)"
    using at len by (fastforce simp: valid_indices_def pair_ok_def in_set_conv_nth)+
  moreover have "sides_ok t (li ! k) (ri ! k)" if "k < length li" for k using at [OF that] by (simp add: pair_ok_def)
  ultimately have "\<exists>b. build_batch_from_indices ak sch bb pb li ri cols SideLeft t = Inr b
    \<and> col_types b = map field_type (schema_fields sch)
    \<and> rows b = map (\<lambda>k. join_row cols (row_at bb li k) (row_at pb ri k) (ri ! k \<noteq> None)) [0..<length li]"
    using len by (intro build_batch_rows [OF ak cols fits]) simp_all
  moreover have "map (\<lambda>k. join_row cols (row_at bb li k) (row_at pb ri k) (ri ! k \<noteq> None)) [0..<length li] =
      map (pair_row cols bb pb) (zip li ri)"
    by (rule nth_equalityI) (simp_all add: len pair_row_def row_at_def)
  ultimately show ?thesis by simp
qed

text \<open>The output of a chunk of matches and the range of probe rows it accounts for.\<close>

definition chunk_out ::
  "join_type \<Rightarrow> bool \<Rightarrow> column_index list \<Rightarrow> batch \<Rightarrow> batch \<Rightarrow> index_pairs \<times> range \<Rightarrow> row list" where
  "chunk_out t ordered cols bb pb = (\<lambda>(m, r).
     case t of
       Inner \<Rightarrow> map (pair_row cols bb pb) (matched m)
     | Left \<Rightarrow> map (pair_row cols bb pb) (matched m)
     | Right \<Rightarrow> (let (a, b) = append_right_indices (map (Some \<circ> snd) m) (map (Some \<circ> fst) m) r ordered
                 in map (pair_row cols bb pb) (zip a b))
     | Full \<Rightarrow> (let (a, b) = append_right_indices (map (Some \<circ> snd) m) (map (Some \<circ> fst) m) r False
                in map (pair_row cols bb pb) (zip a b))
     | RightSemi \<Rightarrow> map (\<lambda>i. join_row cols None (Some (rows pb ! i)) False) (filter (\<lambda>i. i \<in> fst ` set m) [fst r..<snd r])
     | RightAnti \<Rightarrow> map (\<lambda>i. join_row cols None (Some (rows pb ! i)) False) (filter (\<lambda>i. i \<notin> fst ` set m) [fst r..<snd r])
     | RightMark \<Rightarrow> map (\<lambda>i. join_row cols None (Some (rows pb ! i)) (i \<in> fst ` set m)) [fst r..<snd r]
     | _ \<Rightarrow> [])"

definition chunk_ok :: "nat \<Rightarrow> index_pairs \<times> range \<Rightarrow> bool" where
  "chunk_ok n = (\<lambda>(m, r). sorted (map fst m) \<and> (\<forall>p \<in> fst ` set m. fst r \<le> p + 1 \<and> p < snd r) \<and> fst r \<le> n \<and> snd r \<le> n)"

text \<open>The probe rows of an index array, for the join types that output the right side only.\<close>

lemma build_right_rows:
  assumes ak: "kernels_spec ak" and t: "t = RightSemi \<or> t = RightAnti" and cols: "columns_ok ls rs t sch cols"
    and fits: "batch_fits ls bb" "batch_fits rs pb" and li: "valid_indices li (num_rows bb)" and "\<forall>i \<in> set is. i < num_rows pb"
  shows "\<exists>b. build_batch_from_indices ak sch bb pb li (map Some is) cols SideLeft t = Inr b
    \<and> col_types b = map field_type (schema_fields sch)
    \<and> rows b = map (\<lambda>i. join_row cols None (Some (rows pb ! i)) False) is"
proof -
  have u: "\<not> side_used t SideLeft" "\<not> side_used t SideNone" using t by auto
  have "valid_indices (map Some is) (num_rows pb)" using assms(7) by (auto simp: valid_indices_def)
  from build_batch_rows [OF ak cols fits li this, of "length is"] obtain b where
    b: "build_batch_from_indices ak sch bb pb li (map Some is) cols SideLeft t = Inr b"
      "col_types b = map field_type (schema_fields sch)"
      "rows b = map (\<lambda>k. join_row cols (row_at bb li k) (row_at pb (map Some is) k) (map Some is ! k \<noteq> None)) [0..<length is]"
    using u t by (auto simp: sides_ok_def)
  have row: "join_row cols (row_at bb li k) (row_at pb (map Some is) k) (map Some is ! k \<noteq> None) =
      join_row cols None (Some (rows pb ! (is ! k))) False" if "k < length is" for k
    using u that by (intro join_row_cong [OF cols]) (auto simp: row_at_def)
  have "rows b = map (\<lambda>k. join_row cols None (Some (rows pb ! (is ! k))) False) [0..<length is]"
    unfolding b(3) by (intro map_cong refl row) simp
  also have "\<dots> = map (\<lambda>i. join_row cols None (Some (rows pb ! i)) False) is"
    by (rule nth_equalityI) simp_all
  finally have "rows b = map (\<lambda>i. join_row cols None (Some (rows pb ! i)) False) is" .
  with b show ?thesis by blast
qed


text \<open>The batch \<open>process_probe_batch\<close> builds for a chunk.\<close>

definition chunk_batch ::
  "arrow_kernels \<Rightarrow> schema \<Rightarrow> column_index list \<Rightarrow> join_type \<Rightarrow> bool \<Rightarrow> batch \<Rightarrow> batch \<Rightarrow> index_pairs \<Rightarrow> range \<Rightarrow> batch res" where
  "chunk_batch ak sch cols t ordered bb pb m r =
     (let (left2, right2) = adjust_indices_by_join_type (map (Some \<circ> snd) m) (map (Some \<circ> fst) m) r t ordered
      in if t = RightMark then build_batch_from_indices ak sch pb bb left2 right2 cols SideRight t
         else build_batch_from_indices ak sch bb pb left2 right2 cols SideLeft t)"

lemma matched_ok:
  assumes "pairs_valid bb pb m" and "z \<in> set (matched m)"
  shows "pair_ok t bb pb z"
  using assms by (auto simp: matched_def pair_ok_def pairs_valid_def sides_ok_def)

lemma append_right_batch:
  assumes ak: "kernels_spec ak" and t: "t = Right \<or> t = Full" and cols: "columns_ok ls rs t sch cols"
    and fits: "batch_fits ls bb" "batch_fits rs pb"
    and m: "pairs_valid bb pb m" "chunk_ok (num_rows pb) (m, r)" and n: "num_rows pb < 2 ^ 32"
    and ab: "append_right_indices (map (Some \<circ> snd) m) (map (Some \<circ> fst) m) r preserve = (a, b)"
  shows "\<exists>x. build_batch_from_indices ak sch bb pb a b cols SideLeft t = Inr x
    \<and> col_types x = map field_type (schema_fields sch) \<and> rows x = map (pair_row cols bb pb) (zip a b)"
proof (rule build_pairs [OF ak cols fits])
  let ?u = "filter (\<lambda>i. i \<notin> fst ` set m) [fst r..<snd r]"
  have p: "length a = length b \<and> mset (zip a b) = mset (matched m @ unmatched ?u)"
    using m(2) n ab by (intro append_right_pairs) (auto simp: chunk_ok_def)
  then show "length a = length b" by simp
  fix z assume "z \<in> set (zip a b)"
  moreover from p have "set (zip a b) = set (matched m @ unmatched ?u)" by (metis set_mset_mset)
  ultimately have "z \<in> set (matched m) \<or> z \<in> set (unmatched ?u)" by simp
  then show "pair_ok t bb pb z"
  proof
    assume "z \<in> set (unmatched ?u)"
    with m(2) t show ?thesis by (auto simp: unmatched_def pair_ok_def sides_ok_def chunk_ok_def)
  qed (rule matched_ok [OF m(1)])
qed

lemma chunk_batch_rows:
  assumes ak: "kernels_spec ak" and cols: "columns_ok ls rs t sch cols"
    and fits: "batch_fits ls bb" "batch_fits rs pb"
    and m: "pairs_valid bb pb m" "chunk_ok (num_rows pb) (m, r)" and n: "num_rows pb < 2 ^ 32"
  shows "\<exists>b. chunk_batch ak sch cols t ordered bb pb m r = Inr b
    \<and> col_types b = map field_type (schema_fields sch) \<and> rows b = chunk_out t ordered cols bb pb (m, r)"
proof -
  have rows_in: "\<forall>i \<in> set (filter P [fst r..<snd r]). i < num_rows pb" for P using m(2) by (auto simp: chunk_ok_def)
  have li: "valid_indices (map (Some \<circ> snd) m) (num_rows bb)" using m(1) by (auto simp: pairs_valid_def valid_indices_def)
  have mem: "Some i \<in> set (map (Some \<circ> fst) m) \<longleftrightarrow> i \<in> fst ` set m" for i by auto
  consider "t = Inner \<or> t = Left" | "t = Right \<or> t = Full" | "t = RightSemi" | "t = RightAnti" | "t = RightMark"
    | "t \<in> {LeftSemi, LeftAnti, LeftMark}" by (cases t) auto
  then show ?thesis
  proof cases
    case 1
    have "\<exists>b. build_batch_from_indices ak sch bb pb (map (Some \<circ> snd) m) (map (Some \<circ> fst) m) cols SideLeft t = Inr b
      \<and> col_types b = map field_type (schema_fields sch)
      \<and> rows b = map (pair_row cols bb pb) (zip (map (Some \<circ> snd) m) (map (Some \<circ> fst) m))"
      using matched_ok [OF m(1)] by (intro build_pairs [OF ak cols fits]) (simp_all add: matched_zip)
    with 1 show ?thesis by (elim disjE) (simp_all add: chunk_batch_def chunk_out_def adjust_indices_by_join_type_def matched_zip)
  next
    case 2
    obtain a b where ab: "append_right_indices (map (Some \<circ> snd) m) (map (Some \<circ> fst) m) r (t = Right \<and> ordered) = (a, b)"
      by fastforce
    from append_right_batch [OF ak 2 cols fits m n ab] 2 ab show ?thesis
      by (auto simp: chunk_batch_def chunk_out_def adjust_indices_by_join_type_def)
  next
    case 3
    have "get_semi_indices r (map (Some \<circ> fst) m) = map Some (filter (\<lambda>i. i \<in> fst ` set m) [fst r..<snd r])"
      by (simp only: get_semi_indices_eq mem)
    with build_right_rows [OF ak _ cols fits li rows_in, of "\<lambda>i. i \<in> fst ` set m"] 3 show ?thesis
      by (simp add: chunk_batch_def chunk_out_def adjust_indices_by_join_type_def)
  next
    case 4
    have "get_anti_indices r (map (Some \<circ> fst) m) = map Some (filter (\<lambda>i. i \<notin> fst ` set m) [fst r..<snd r])"
      by (simp only: get_anti_indices_eq mem)
    with build_right_rows [OF ak _ cols fits li rows_in, of "\<lambda>i. i \<notin> fst ` set m"] 4 show ?thesis
      by (simp add: chunk_batch_def chunk_out_def adjust_indices_by_join_type_def)
  next
    case 5
    let ?li = "map Some [fst r..<snd r]" and ?ri = "get_mark_indices r (map (Some \<circ> fst) m)"
    have v: "valid_indices ?li (num_rows pb)" "length ?li = snd r - fst r" "length ?ri = snd r - fst r" "None \<notin> set ?li"
      using m(2) by (auto simp: valid_indices_def chunk_ok_def get_mark_indices_eq)
    have "map (\<lambda>k. join_row cols None (row_at pb ?li k) (?ri ! k \<noteq> None)) [0..<snd r - fst r] =
        map (\<lambda>i. join_row cols None (Some (rows pb ! i)) (i \<in> fst ` set m)) [fst r..<snd r]"
      unfolding get_mark_indices_eq mem by (rule nth_equalityI) (simp_all add: row_at_def)
    with build_mark_rows [OF ak cols [unfolded 5] fits(2) v(1,4,2,3), of bb] 5 show ?thesis
      by (simp add: chunk_batch_def chunk_out_def adjust_indices_by_join_type_def)
  next
    case 6
    from build_pairs [OF ak cols fits, of "[]" "[]"] 6 show ?thesis
      by (auto simp: chunk_batch_def chunk_out_def adjust_indices_by_join_type_def)
  qed
qed


section \<open>Rows of a probe batch\<close>

lemma sorted_fst_last:
  fixes m :: index_pairs
  assumes "sorted (map fst m)" and "p \<in> fst ` set m"
  shows "p \<le> fst (last m)"
  using assms by (cases m rule: rev_cases) (auto simp: sorted_append)

lemma aligned_ok:
  assumes "sorted (map fst (concat ms))" and "\<forall>p \<in> fst ` set (concat ms). row_from joined \<le> p + 1 \<and> p < n"
    and "row_from joined \<le> n"
  shows "list_all (chunk_ok n) (aligned n joined ms)"
  using assms
proof (induction n joined ms rule: aligned.induct)
  case (2 n joined m)
  then show ?case by (simp add: alignment_range_def row_from_def chunk_ok_def)
next
  case (3 n joined m m2 ms)
  have "sorted (map fst m @ map fst (concat (m2 # ms)))" using 3(2) by simp
  then have srt: "sorted (map fst m)" "sorted (map fst (concat (m2 # ms)))"
    and ord: "\<forall>p \<in> fst ` set m. \<forall>q \<in> fst ` set (concat (m2 # ms)). p \<le> q"
    unfolding sorted_append set_map by blast+
  have sub: "fst ` set (concat (m2 # ms)) \<subseteq> fst ` set (concat (m # m2 # ms))" by auto
  show ?case
  proof (cases "m = []")
    case True
    with 3 show ?thesis by (simp add: alignment_range_def advance_joined_def last_joined_def row_from_def chunk_ok_def)
  next
    case False
    let ?p = "fst (last m)"
    have p: "?p \<in> fst ` set m" using False by simp
    then have "?p \<in> fst ` set (concat (m # m2 # ms))" by auto
    from bspec [OF 3(3) this] have pn: "?p < n" "row_from joined \<le> ?p + 1" by simp_all
    have joined: "advance_joined joined (last_joined m) = Some ?p" using False by (simp add: advance_joined_def last_joined_def)
    have "\<forall>q \<in> fst ` set (concat (m2 # ms)). row_from (Some ?p) \<le> q + 1 \<and> q < n"
    proof
      fix q assume q: "q \<in> fst ` set (concat (m2 # ms))"
      from bspec [OF bspec [OF ord p] q] bspec [OF 3(3) subsetD [OF sub q]] show "row_from (Some ?p) \<le> q + 1 \<and> q < n"
        by (simp add: row_from_def)
    qed
    moreover have "row_from (Some ?p) \<le> n" using pn(1) by (simp add: row_from_def)
    ultimately have "list_all (chunk_ok n) (aligned n (advance_joined joined (last_joined m)) (m2 # ms))"
      unfolding joined by (intro 3(1) [unfolded joined] srt(2))
    moreover have "chunk_ok n (m, alignment_range joined False n (last_joined m))"
      unfolding chunk_ok_def prod.case
    proof (intro conjI ballI srt(1))
      fix q assume q: "q \<in> fst ` set m"
      then have "q \<in> fst ` set (concat (m # m2 # ms))" by auto
      with 3(3) sorted_fst_last [OF srt(1) q] False
      show "fst (alignment_range joined False n (last_joined m)) \<le> q + 1" "q < snd (alignment_range joined False n (last_joined m))"
        by (auto simp: alignment_range_def last_joined_def row_from_def)
    qed (use pn 3(4) False in \<open>auto simp: alignment_range_def last_joined_def row_from_def\<close>)
    ultimately show ?thesis by simp
  qed
qed simp


text \<open>What the matches of a whole probe batch give.\<close>

definition batch_out :: "join_type \<Rightarrow> column_index list \<Rightarrow> batch \<Rightarrow> batch \<Rightarrow> index_pairs \<Rightarrow> row list" where
  "batch_out t cols bb pb jp =
     (let joined = filter (\<lambda>i. i \<in> fst ` set jp) [0..<num_rows pb]; rest = filter (\<lambda>i. i \<notin> fst ` set jp) [0..<num_rows pb]
      in case t of
           Inner \<Rightarrow> map (pair_row cols bb pb) (matched jp)
         | Left \<Rightarrow> map (pair_row cols bb pb) (matched jp)
         | Right \<Rightarrow> map (pair_row cols bb pb) (matched jp @ unmatched rest)
         | Full \<Rightarrow> map (pair_row cols bb pb) (matched jp @ unmatched rest)
         | RightSemi \<Rightarrow> map (\<lambda>i. join_row cols None (Some (rows pb ! i)) False) joined
         | RightAnti \<Rightarrow> map (\<lambda>i. join_row cols None (Some (rows pb ! i)) False) rest
         | RightMark \<Rightarrow> map (\<lambda>i. join_row cols None (Some (rows pb ! i)) (i \<in> fst ` set jp)) [0..<num_rows pb]
         | _ \<Rightarrow> [])"

text \<open>The probe rows of a list of ranges, each with whether its chunk joins it.\<close>

definition ranged :: "(index_pairs \<times> range) list \<Rightarrow> (nat \<times> bool) list" where
  "ranged al = concat (map (\<lambda>(m, r). map (\<lambda>i. (i, i \<in> fst ` set m)) [fst r..<snd r]) al)"

lemma ranged_Cons: "ranged ((m, r) # al) = map (\<lambda>i. (i, i \<in> fst ` set m)) [fst r..<snd r] @ ranged al"
  by (simp add: ranged_def)

lemma filter_ranged:
  "map fst (filter snd (map (\<lambda>i. (i, P i)) xs)) = filter P xs"
  "map fst (filter (\<lambda>x. \<not> snd x) (map (\<lambda>i. (i, P i)) xs)) = filter (\<lambda>i. \<not> P i) xs"
  by (induction xs) auto

lemma chunks_out:
  assumes "t \<notin> {Right, Full}"
  shows "concat (map (chunk_out t ordered cols bb pb) al) =
    (case t of
       Inner \<Rightarrow> map (pair_row cols bb pb) (matched (concat (map fst al)))
     | Left \<Rightarrow> map (pair_row cols bb pb) (matched (concat (map fst al)))
     | RightSemi \<Rightarrow> map (\<lambda>i. join_row cols None (Some (rows pb ! i)) False) (map fst (filter snd (ranged al)))
     | RightAnti \<Rightarrow> map (\<lambda>i. join_row cols None (Some (rows pb ! i)) False) (map fst (filter (\<lambda>x. \<not> snd x) (ranged al)))
     | RightMark \<Rightarrow> map (\<lambda>(i, b). join_row cols None (Some (rows pb ! i)) b) (ranged al)
     | _ \<Rightarrow> [])"
proof (induction al)
  case Nil
  then show ?case by (cases t) (simp_all add: ranged_def matched_def)
next
  case (Cons x al)
  obtain m r where x: "x = (m, r)" by (cases x)
  have "map (\<lambda>(i, b). join_row cols None (Some (rows pb ! i)) b) (map (\<lambda>i. (i, i \<in> fst ` set m)) [fst r..<snd r]) =
      map (\<lambda>i. join_row cols None (Some (rows pb ! i)) (i \<in> fst ` set m)) [fst r..<snd r]" by simp
  with Cons assms show ?case
    by (cases t) (simp_all only: x list.map concat.simps chunk_out_def prod.case join_type.case ranged_Cons filter_append
        map_append filter_ranged fst_conv matched_append append_Nil insertI1 insertI2 simp_thms)
qed

lemma chunks_out_mset:
  assumes "t = Right \<or> t = Full" and "list_all (chunk_ok (num_rows pb)) al" and n: "num_rows pb < 2 ^ 32"
  shows "mset (concat (map (chunk_out t ordered cols bb pb) al)) =
    mset (map (pair_row cols bb pb) (matched (concat (map fst al)) @ unmatched (map fst (filter (\<lambda>x. \<not> snd x) (ranged al)))))"
  using assms(2)
proof (induction al)
  case Nil
  then show ?case by (simp add: ranged_def matched_def unmatched_def)
next
  case (Cons x al)
  obtain m r where x: "x = (m, r)" by (cases x)
  obtain a b where ab: "append_right_indices (map (Some \<circ> snd) m) (map (Some \<circ> fst) m) r (t = Right \<and> ordered) = (a, b)"
    by fastforce
  have "mset (zip a b) = mset (matched m @ unmatched (filter (\<lambda>i. i \<notin> fst ` set m) [fst r..<snd r]))"
    using append_right_pairs [of m r "t = Right \<and> ordered" a b] Cons.prems n ab by (auto simp: x chunk_ok_def)
  moreover have "chunk_out t ordered cols bb pb x = map (pair_row cols bb pb) (zip a b)"
    using assms(1) ab by (auto simp: x chunk_out_def)
  ultimately have "mset (chunk_out t ordered cols bb pb x) =
      mset (map (pair_row cols bb pb) (matched m @ unmatched (filter (\<lambda>i. i \<notin> fst ` set m) [fst r..<snd r])))"
    by (simp only: mset_map)
  with Cons show ?case
    by (simp add: x ranged_Cons filter_ranged del: map_map)
qed


lemma batch_chunks:
  assumes "ms \<noteq> []" and "sorted (map fst (concat ms))" and "\<forall>p \<in> fst ` set (concat ms). p < num_rows pb"
    and n: "num_rows pb < 2 ^ 32"
  shows "mset (concat (map (chunk_out t ordered cols bb pb) (aligned (num_rows pb) None ms))) = mset (batch_out t cols bb pb (concat ms))"
    and "t \<notin> {Right, Full} \<Longrightarrow>
      concat (map (chunk_out t ordered cols bb pb) (aligned (num_rows pb) None ms)) = batch_out t cols bb pb (concat ms)"
proof -
  let ?al = "aligned (num_rows pb) None ms"
  have b: "\<forall>p \<in> fst ` set (concat ms). row_from None \<le> p + 1 \<and> p < num_rows pb" "row_from None \<le> num_rows pb"
    using assms(3) by (simp_all add: row_from_def)
  have rg: "ranged ?al = map (\<lambda>i. (i, i \<in> fst ` set (concat ms))) [0..<num_rows pb]"
    using aligned_rows [OF assms(1,2) b] unfolding ranged_def by (simp add: row_from_def)
  have mark: "map (\<lambda>(i, b). join_row cols None (Some (rows pb ! i)) b) (map (\<lambda>i. (i, i \<in> fst ` set (concat ms))) [0..<num_rows pb]) =
      map (\<lambda>i. join_row cols None (Some (rows pb ! i)) (i \<in> fst ` set (concat ms))) [0..<num_rows pb]" by simp
  show eq: "concat (map (chunk_out t ordered cols bb pb) ?al) = batch_out t cols bb pb (concat ms)" if "t \<notin> {Right, Full}"
    unfolding chunks_out [OF that] rg filter_ranged mark map_fst_aligned batch_out_def Let_def
    using that by (cases t) simp_all
  show "mset (concat (map (chunk_out t ordered cols bb pb) ?al)) = mset (batch_out t cols bb pb (concat ms))"
  proof (cases "t = Right \<or> t = Full")
    case True
    then show ?thesis
      unfolding chunks_out_mset [OF True aligned_ok [OF assms(2) b] n] rg filter_ranged map_fst_aligned batch_out_def Let_def
      by (elim disjE) simp_all
  next
    case False
    then have "t \<notin> {Right, Full}" by simp
    from eq [OF this] show ?thesis by simp
  qed
qed

section \<open>The specification, batch by batch\<close>

definition probe_rows :: "join_info \<Rightarrow> column_index list \<Rightarrow> row list \<Rightarrow> row list \<Rightarrow> row list" where
  "probe_rows ji cols L R =
     (case ji_type ji of
        Inner \<Rightarrow> matched_rows ji cols L R
      | Left \<Rightarrow> matched_rows ji cols L R
      | Right \<Rightarrow> matched_rows ji cols L R @ right_rows cols (\<lambda>r. \<not> right_joined ji L r) R
      | Full \<Rightarrow> matched_rows ji cols L R @ right_rows cols (\<lambda>r. \<not> right_joined ji L r) R
      | RightSemi \<Rightarrow> right_rows cols (right_joined ji L) R
      | RightAnti \<Rightarrow> right_rows cols (\<lambda>r. \<not> right_joined ji L r) R
      | RightMark \<Rightarrow> map (\<lambda>r. join_row cols None (Some r) (right_joined ji L r)) R
      | _ \<Rightarrow> [])"

definition final_rows :: "join_info \<Rightarrow> column_index list \<Rightarrow> row list \<Rightarrow> row list \<Rightarrow> row list" where
  "final_rows ji cols L R =
     (case ji_type ji of
        Left \<Rightarrow> left_rows cols (\<lambda>l. \<not> left_joined ji R l) L
      | Full \<Rightarrow> left_rows cols (\<lambda>l. \<not> left_joined ji R l) L
      | LeftAnti \<Rightarrow> left_rows cols (\<lambda>l. \<not> left_joined ji R l) L
      | LeftSemi \<Rightarrow> left_rows cols (left_joined ji R) L
      | LeftMark \<Rightarrow> map (\<lambda>l. join_row cols (Some l) None (left_joined ji R l)) L
      | _ \<Rightarrow> [])"

lemma join_rows_split: "mset (join_rows ji cols L R) = mset (probe_rows ji cols L R) + mset (final_rows ji cols L R)"
  by (simp add: join_rows_def probe_rows_def final_rows_def split: join_type.split)

lemma probe_rows_append:
  "mset (probe_rows ji cols L (R @ R')) = mset (probe_rows ji cols L R) + mset (probe_rows ji cols L R')"
  by (simp add: probe_rows_def matched_rows_def right_rows_def split: join_type.split)

lemma probe_rows_Nil [simp]: "probe_rows ji cols L [] = []"
  by (simp add: probe_rows_def matched_rows_def right_rows_def split: join_type.split)

text \<open>The pairs of rows that join.\<close>

definition join_pairs :: "join_info \<Rightarrow> batch \<Rightarrow> batch \<Rightarrow> nat list \<Rightarrow> index_pairs" where
  "join_pairs ji bb pb ord =
     concat (map (\<lambda>p. map (Pair p) (filter (\<lambda>j. joins ji (rows bb ! j) (rows pb ! p)) ord)) [0..<num_rows pb])"

lemma match_pairs_filter:
  "filter (\<lambda>(p, j). ji_filter ji (rows bb ! j) (rows pb ! p)) (match_pairs (ji_null_equality ji) (ji_on ji) bb pb ord) =
     join_pairs ji bb pb ord"
proof -
  have "filter (\<lambda>(p, j). ji_filter ji (rows bb ! j) (rows pb ! p)) (concat (map (\<lambda>p. map (Pair p) (f p)) ps)) =
     concat (map (\<lambda>p. map (Pair p) (filter (\<lambda>j. ji_filter ji (rows bb ! j) (rows pb ! p)) (f p))) ps)" for f ps
    by (induction ps) (auto simp: filter_map comp_def)
  then show ?thesis by (simp add: match_pairs_def join_pairs_def joins_def conj_commute)
qed

lemma join_pairs_fst:
  assumes "i < num_rows pb"
  shows "i \<in> fst ` set (join_pairs ji bb pb ord) \<longleftrightarrow> right_joined ji (map ((!) (rows bb)) ord) (rows pb ! i)"
  using assms by (force simp: join_pairs_def right_joined_def list_ex_iff image_iff)

lemma join_pairs_sorted: "sorted (map fst (join_pairs ji bb pb ord))"
proof -
  have "sorted (map fst (concat (map (\<lambda>p. map (Pair p) (f p)) [0..<n])))" for f :: "nat \<Rightarrow> nat list" and n
    by (induction n) (auto simp: sorted_append comp_def map_replicate_const)
  then show ?thesis by (simp add: join_pairs_def)
qed

lemma join_pairs_bound: "\<forall>p \<in> fst ` set (join_pairs ji bb pb ord). p < num_rows pb"
  by (auto simp: join_pairs_def)

lemma map_rows_nth: "map (\<lambda>i. f (rows pb ! i)) [0..<num_rows pb] = map f (rows pb)"
  by (rule nth_equalityI) (simp_all add: num_rows_def)

lemma filter_rows_nth:
  "map (\<lambda>i. f (rows pb ! i)) (filter (\<lambda>i. P (rows pb ! i)) [0..<num_rows pb]) = map f (filter P (rows pb))"
proof -
  have "filter P (rows pb) = filter P (map ((!) (rows pb)) [0..<num_rows pb])" by (simp add: num_rows_def map_nth)
  then show ?thesis by (simp add: filter_map comp_def)
qed


lemma matched_pair_rows:
  "map (pair_row cols bb pb) (matched (join_pairs ji bb pb ord)) = matched_rows ji cols (map ((!) (rows bb)) ord) (rows pb)"
proof -
  have step: "map (pair_row cols bb pb) (matched (concat (map (\<lambda>p. map (Pair p) (f p)) ps))) =
      concat (map (\<lambda>p. map (\<lambda>j. join_row cols (Some (rows bb ! j)) (Some (rows pb ! p)) True) (f p)) ps)" for f ps
    by (induction ps) (auto simp: matched_def pair_row_def)
  have "matched_rows ji cols (map ((!) (rows bb)) ord) (rows pb) =
      concat (map (\<lambda>r. map (\<lambda>j. join_row cols (Some (rows bb ! j)) (Some r) True) (filter (\<lambda>j. joins ji (rows bb ! j) r) ord)) (rows pb))"
    by (simp add: matched_rows_def filter_map comp_def)
  then show ?thesis unfolding join_pairs_def step map_rows_nth [symmetric] by simp
qed

lemma unmatched_pair_rows:
  assumes "columns_ok ls rs t sch cols" and "t = Right \<or> t = Full"
  shows "map (pair_row cols bb pb) (unmatched (filter (\<lambda>i. P (rows pb ! i)) [0..<num_rows pb])) = right_rows cols P (rows pb)"
proof -
  have "pair_row cols bb pb (None, Some i) = join_row cols None (Some (rows pb ! i)) False" for i
    unfolding pair_row_def using assms(2) by (auto intro!: join_row_cong [OF assms(1)])
  then show ?thesis
    using filter_rows_nth [of "\<lambda>r. join_row cols None (Some r) False" pb P] by (simp add: unmatched_def right_rows_def comp_def)
qed

lemma batch_out_eq:
  assumes "columns_ok ls rs (ji_type ji) sch cols"
  shows "batch_out (ji_type ji) cols bb pb (join_pairs ji bb pb ord) = probe_rows ji cols (map ((!) (rows bb)) ord) (rows pb)"
proof -
  let ?L = "map ((!) (rows bb)) ord"
  have in_fst: "filter (\<lambda>i. i \<in> fst ` set (join_pairs ji bb pb ord)) [0..<num_rows pb] =
      filter (\<lambda>i. right_joined ji ?L (rows pb ! i)) [0..<num_rows pb]"
    "filter (\<lambda>i. i \<notin> fst ` set (join_pairs ji bb pb ord)) [0..<num_rows pb] =
      filter (\<lambda>i. \<not> right_joined ji ?L (rows pb ! i)) [0..<num_rows pb]"
    by (intro filter_cong refl; simp only: join_pairs_fst set_upt atLeastLessThan_iff)+
  have mark: "map (\<lambda>i. join_row cols None (Some (rows pb ! i)) (i \<in> fst ` set (join_pairs ji bb pb ord))) [0..<num_rows pb] =
      map (\<lambda>r. join_row cols None (Some r) (right_joined ji ?L r)) (rows pb)"
    unfolding map_rows_nth [of "\<lambda>r. join_row cols None (Some r) (right_joined ji ?L r)" pb, symmetric]
    by (intro map_cong) (simp_all add: join_pairs_fst)
  have rest: "map (\<lambda>i. join_row cols None (Some (rows pb ! i)) False) (filter (\<lambda>i. \<not> right_joined ji ?L (rows pb ! i)) [0..<num_rows pb]) =
      right_rows cols (\<lambda>r. \<not> right_joined ji ?L r) (rows pb)"
    unfolding right_rows_def by (rule filter_rows_nth)
  have joined: "map (\<lambda>i. join_row cols None (Some (rows pb ! i)) False) (filter (\<lambda>i. right_joined ji ?L (rows pb ! i)) [0..<num_rows pb]) =
      right_rows cols (right_joined ji ?L) (rows pb)"
    unfolding right_rows_def by (rule filter_rows_nth)
  have outer: "map (pair_row cols bb pb) (unmatched (filter (\<lambda>i. \<not> right_joined ji ?L (rows pb ! i)) [0..<num_rows pb])) =
      right_rows cols (\<lambda>r. \<not> right_joined ji ?L r) (rows pb)" if "ji_type ji = Right \<or> ji_type ji = Full"
    using assms that by (rule unmatched_pair_rows)
  show ?thesis
    unfolding batch_out_def Let_def in_fst mark map_append matched_pair_rows rest joined
    by (cases "ji_type ji") (simp_all add: probe_rows_def outer)
qed

section \<open>The bitmap\<close>

definition mark_visited :: "join_type \<Rightarrow> index_pairs \<Rightarrow> bool list \<Rightarrow> bool list" where
  "mark_visited t m bits = (if need_produce_result_in_final t then fold (\<lambda>(p, j) bits. bits[j := True]) m bits else bits)"

lemma set_visited_ok:
  "\<forall>(p, j) \<in> set m. j < length bits \<Longrightarrow>
     set_visited (map (Some \<circ> snd) m) bits = Inr (fold (\<lambda>(p, j) bits. bits[j := True]) m bits)"
  by (induction m arbitrary: bits) auto

lemma length_fold_marks [simp]: "length (fold (\<lambda>(p, j) bits. bits[j := True]) m bits) = length bits"
  by (induction m arbitrary: bits) auto

lemma fold_marks:
  "j < length bits \<Longrightarrow> fold (\<lambda>(p, j) bits. bits[j := True]) m bits ! j \<longleftrightarrow> bits ! j \<or> j \<in> snd ` set m"
proof (induction m arbitrary: bits)
  case (Cons x m)
  obtain p k where "x = (p, k)" by (cases x)
  with Cons.IH [of "bits[k := True]"] Cons.prems show ?case by (cases "k = j") auto
qed simp

lemma mark_visited_append: "mark_visited t (m @ m') bits = mark_visited t m' (mark_visited t m bits)"
  by (simp add: mark_visited_def)

lemma mark_visited_Nil [simp]: "mark_visited t [] bits = bits"
  by (simp add: mark_visited_def)

definition visited_ok :: "join_info \<Rightarrow> batch \<Rightarrow> row list \<Rightarrow> bool list \<Rightarrow> bool" where
  "visited_ok ji bb R bits \<longleftrightarrow> (need_produce_result_in_final (ji_type ji) \<longrightarrow>
     length bits = num_rows bb \<and> (\<forall>j < num_rows bb. bits ! j \<longleftrightarrow> left_joined ji R (rows bb ! j)))"

lemma join_pairs_snd:
  assumes "j \<in> set ord"
  shows "j \<in> snd ` set (join_pairs ji bb pb ord) \<longleftrightarrow> left_joined ji (rows pb) (rows bb ! j)"
  using assms by (force simp: join_pairs_def left_joined_def list_ex_iff image_iff in_set_conv_nth num_rows_def)

lemma visited_ok_step:
  assumes "visited_ok ji bb R bits" and "set ord = {..<num_rows bb}"
  shows "visited_ok ji bb (R @ rows pb) (mark_visited (ji_type ji) (join_pairs ji bb pb ord) bits)"
  using assms by (auto simp: visited_ok_def mark_visited_def fold_marks join_pairs_snd left_joined_def)


text \<open>What is emitted from the bitmap at the end.\<close>

definition empty_batch :: "schema \<Rightarrow> batch" where
  "empty_batch sch = \<lparr>col_types = map field_type (schema_fields sch), rows = []\<rparr>"

lemma zip_left: "zip (map Some is) (replicate (length is) None) = map (\<lambda>i. (Some i, None)) is"
  by (induction "is") auto

lemma mset_ord:
  assumes "distinct ord" and "set ord = {..<n}"
  shows "mset (map f (filter P [0..<n])) = mset (map f (filter P ord))"
proof -
  have "mset ord = mset [0..<n]" using assms by (metis atLeast_upt distinct_upt set_eq_iff_mset_eq_distinct)
  then show ?thesis by (simp add: mset_filter)
qed

lemma filter_bits:
  assumes "length bits = n" and "\<forall>j < n. bits ! j \<longleftrightarrow> P j"
  shows "filter (\<lambda>i. bits ! i) [0..<n] = filter P [0..<n]" and "filter (\<lambda>i. \<not> bits ! i) [0..<n] = filter (\<lambda>i. \<not> P i) [0..<n]"
  using assms(2) by (auto intro: filter_cong)

lemma final_pairs:
  assumes cols: "columns_ok ls rs (ji_type ji) sch cols" and need: "need_produce_result_in_final (ji_type ji)"
    and bits: "visited_ok ji bb R bits" and ord: "distinct ord" "set ord = {..<num_rows bb}"
    and fin: "get_final_indices_from_bit_map bits (ji_type ji) True = (li, ri)"
  shows "length li = length ri" and "\<And>z. z \<in> set (zip li ri) \<Longrightarrow> pair_ok (ji_type ji) bb pb z"
    and "mset (map (pair_row cols bb pb) (zip li ri)) = mset (final_rows ji cols (map ((!) (rows bb)) ord) R)"
proof -
  let ?n = "num_rows bb" and ?P = "\<lambda>j. left_joined ji R (rows bb ! j)"
  have b: "length bits = ?n" "\<forall>j < ?n. bits ! j \<longleftrightarrow> ?P j" using bits need by (simp_all add: visited_ok_def)
  have keep: "mset (map (pair_row cols bb pb) (map (\<lambda>i. (Some i, None)) (filter Q [0..<?n]))) =
      mset (map (\<lambda>j. join_row cols (Some (rows bb ! j)) None False) (filter Q ord))" for Q
  proof -
    have "map (pair_row cols bb pb) (map (\<lambda>i. (Some i, None)) (filter Q [0..<?n])) =
        map (\<lambda>j. join_row cols (Some (rows bb ! j)) None False) (filter Q [0..<?n])" by (simp add: pair_row_def)
    then show ?thesis by (simp only: mset_ord [OF ord])
  qed
  show "length li = length ri" using fin by (auto simp: get_final_indices_from_bit_map_def Let_def split: if_splits)
  have nf: "filter Q [0..<?n] ! i < ?n" if "i < length (filter Q [0..<?n])" for Q i using nth_mem [OF that] by simp
  show "pair_ok (ji_type ji) bb pb z" if "z \<in> set (zip li ri)" for z
    using that fin need b(1)
    by (auto simp: get_final_indices_from_bit_map_def Let_def need_produce_result_in_final_def zip_left pair_ok_def sides_ok_def
        set_zip nf split: if_splits)
  have left: "left_rows cols Q (map ((!) (rows bb)) ord) =
      map (\<lambda>j. join_row cols (Some (rows bb ! j)) None False) (filter (\<lambda>j. Q (rows bb ! j)) ord)" for Q
    by (simp add: left_rows_def filter_map comp_def)
  consider "ji_type ji = LeftMark" | "ji_type ji = LeftSemi" | "ji_type ji \<in> {Left, Full, LeftAnti}"
    using need by (auto simp: need_produce_result_in_final_def)
  then show "mset (map (pair_row cols bb pb) (zip li ri)) = mset (final_rows ji cols (map ((!) (rows bb)) ord) R)"
  proof cases
    case 1
    have lr: "li = map Some [0..<?n]" "ri = map (\<lambda>b. if b then Some 0 else None) bits"
      using fin 1 b(1) by (simp_all add: get_final_indices_from_bit_map_def Let_def)
    have "pair_row cols bb pb (Some j, if bits ! j then Some 0 else None) = join_row cols (Some (rows bb ! j)) None (?P j)"
      if "j < ?n" for j
      unfolding pair_row_def prod.case using b(2) that 1 by (intro join_row_cong [OF cols]) auto
    then have "map (pair_row cols bb pb) (zip li ri) = map (\<lambda>j. join_row cols (Some (rows bb ! j)) None (?P j)) (filter (\<lambda>_. True) [0..<?n])"
      by (intro nth_equalityI) (simp_all add: lr b(1))
    then show ?thesis using 1 mset_ord [OF ord, of _ "\<lambda>_. True"] by (simp add: final_rows_def comp_def)
  next
    case 2
    have lr: "zip li ri = map (\<lambda>i. (Some i, None)) (filter ?P [0..<?n])"
      using fin 2 b(1) zip_left filter_bits [OF b] by (auto simp: get_final_indices_from_bit_map_def Let_def)
    show ?thesis unfolding lr keep using 2 by (simp add: final_rows_def left)
  next
    case 3
    have lr: "zip li ri = map (\<lambda>i. (Some i, None)) (filter (\<lambda>j. \<not> ?P j) [0..<?n])"
      using fin 3 b(1) zip_left filter_bits [OF b] by (auto simp: get_final_indices_from_bit_map_def Let_def)
    show ?thesis unfolding lr keep using 3 by (auto simp: final_rows_def left)
  qed
qed

end
