(* ===== verification/HashJoinProps.thy ===== *)
theory HashJoinProps
  imports HashJoinChunk
begin

text \<open>
  The hash join operator refines the specification of a join: whatever the join type, the
  table built, the size of the chunks and the batches of the inputs, the stream ends, and
  the rows it yields are the rows of the join, up to the fetch limit.
\<close>

section \<open>Running the stream\<close>

definition runs :: "'c stream_config \<Rightarrow> 'c hash_join_stream \<Rightarrow> row list \<Rightarrow> bool" where
  "runs cfg s xs \<longleftrightarrow> (\<exists>bs. run_stream cfg s = Some (map Inr bs) \<and> flat_rows bs = xs)"

lemma runs_emit: "poll_turn cfg s = Emit b s' \<Longrightarrow> runs cfg s' xs \<Longrightarrow> runs cfg s (rows b @ xs)"
  unfolding runs_def
proof (elim exE conjE)
  fix bs assume "poll_turn cfg s = Emit b s'" "run_stream cfg s' = Some (map Inr bs)" "flat_rows bs = xs"
  then have "run_stream cfg s = Some (map Inr (b # bs)) \<and> flat_rows (b # bs) = rows b @ xs"
    by (subst run_stream.simps) simp
  then show "\<exists>bs. run_stream cfg s = Some (map Inr bs) \<and> flat_rows bs = rows b @ xs" by blast
qed

lemma runs_again: "poll_turn cfg s = Again s' \<Longrightarrow> runs cfg s' xs \<Longrightarrow> runs cfg s xs"
  unfolding runs_def by (subst run_stream.simps) simp

lemma runs_end: "poll_turn cfg s = End \<Longrightarrow> runs cfg s []"
  unfolding runs_def by (subst run_stream.simps) (auto intro: exI [of _ "[]"])

text \<open>
  A state outputs rows if, from any buffer that has room for them, the stream yields what the
  buffer holds and then these rows, up to the limit. A buffer is seen through the three
  functions of the specification of Arrow's coalescer.
\<close>

record 'c buffer_view =
  bv_types :: "'c \<Rightarrow> data_type list"
  bv_completed :: "'c \<Rightarrow> batch list"
  bv_held :: "'c \<Rightarrow> row list"

definition view_ok :: "'c stream_config \<Rightarrow> 'c buffer_view \<Rightarrow> bool" where
  "view_ok cfg v \<longleftrightarrow> coalescer_spec (hc_coalescer cfg) (bv_types v) (bv_completed v) (bv_held v)"

definition buffered :: "'c buffer_view \<Rightarrow> 'c limited_coalescer \<Rightarrow> row list" where
  "buffered v lc = lc_rows (bv_completed v) (bv_held v) lc"

definition buffer_ok :: "'c stream_config \<Rightarrow> 'c buffer_view \<Rightarrow> 'c limited_coalescer \<Rightarrow> nat \<Rightarrow> bool" where
  "buffer_ok cfg v lc n \<longleftrightarrow>
     \<not> lc_finished lc \<and> bv_types v (lc_inner lc) = map field_type (schema_fields (hc_schema cfg)) \<and> fits lc n"

definition outputs :: "'c stream_config \<Rightarrow> 'c buffer_view \<Rightarrow> 'c hash_join_stream \<Rightarrow> row list \<Rightarrow> bool" where
  "outputs cfg v s xs \<longleftrightarrow>
     (\<forall>lc. buffer_ok cfg v lc (length xs) \<longrightarrow> runs cfg (s\<lparr>hs_output_buffer := lc\<rparr>) (buffered v lc @ take_room lc xs))"

lemma next_batch:
  assumes "view_ok cfg v" and "bv_completed v (lc_inner lc) = b # bs"
  shows "\<exists>lc'. poll_turn cfg (s\<lparr>hs_output_buffer := lc\<rparr>) = Emit b (s\<lparr>hs_output_buffer := lc'\<rparr>)
    \<and> bv_completed v (lc_inner lc') = bs \<and> lc_finished lc' = lc_finished lc \<and> buffered v lc = rows b @ buffered v lc'
    \<and> (\<forall>n. buffer_ok cfg v lc n \<longrightarrow> buffer_ok cfg v lc' n) \<and> (\<forall>xs. take_room lc' xs = take_room lc (xs :: row list))"
proof -
  obtain lc' where "lc_next_completed_batch (hc_coalescer cfg) lc = Some (b, lc')" "bv_completed v (lc_inner lc') = bs"
    "lc_finished lc' = lc_finished lc" "lc_total_rows lc' = lc_total_rows lc" "lc_fetch lc' = lc_fetch lc"
    "bv_types v (lc_inner lc') = bv_types v (lc_inner lc)" "buffered v lc = rows b @ buffered v lc'"
    using lc_next_rows [OF assms(1) [unfolded view_ok_def], of lc] assms(2) by (auto simp: buffered_def)
  then show ?thesis by (intro exI [of _ lc']) (auto simp: poll_turn_def buffer_ok_def fits_def take_room_def split: option.splits)
qed

lemma no_batch:
  assumes "view_ok cfg v" and "bv_completed v (lc_inner lc) = []"
  shows "lc_next_completed_batch (hc_coalescer cfg) lc = None"
  using lc_next_rows [OF assms(1) [unfolded view_ok_def], of lc] assms(2) by simp

lemma finished_runs:
  assumes v: "view_ok cfg v" and "lc_finished lc" and "bv_held v (lc_inner lc) = []"
  shows "runs cfg (s\<lparr>hs_output_buffer := lc\<rparr>) (buffered v lc)"
  using assms(2,3)
proof (induction "bv_completed v (lc_inner lc)" arbitrary: lc)
  case Nil
  then have "buffered v lc = []" by (simp add: buffered_def lc_rows_def)
  moreover have "poll_turn cfg (s\<lparr>hs_output_buffer := lc\<rparr>) = End"
    using no_batch [OF v Nil(1) [symmetric]] Nil(2) by (simp add: poll_turn_def)
  ultimately show ?case by (simp add: runs_end)
next
  case (Cons b bs)
  from next_batch [OF v Cons(2) [symmetric], of s] obtain lc' where
    lc': "poll_turn cfg (s\<lparr>hs_output_buffer := lc\<rparr>) = Emit b (s\<lparr>hs_output_buffer := lc'\<rparr>)"
      "bv_completed v (lc_inner lc') = bs" "lc_finished lc' = lc_finished lc" "buffered v lc = rows b @ buffered v lc'" by blast
  have "buffered v lc = rows b @ flat_rows bs" using Cons(2) Cons(4) by (simp add: buffered_def lc_rows_def Cons(2) [symmetric])
  with lc'(2,4) have "bv_held v (lc_inner lc') = []" by (simp add: buffered_def lc_rows_def)
  from Cons.hyps(1) [OF lc'(2) [symmetric] _ this] Cons(3) lc'(3)
  have "runs cfg (s\<lparr>hs_output_buffer := lc'\<rparr>) (buffered v lc')" by simp
  from runs_emit [OF lc'(1) this] lc'(4) show ?case by simp
qed

text \<open>It is enough to look at buffers from which every completed batch was taken.\<close>

lemma outputsI:
  assumes v: "view_ok cfg v"
    and step: "\<And>lc. buffer_ok cfg v lc (length xs) \<Longrightarrow> bv_completed v (lc_inner lc) = [] \<Longrightarrow>
      runs cfg (s\<lparr>hs_output_buffer := lc\<rparr>) (buffered v lc @ take_room lc xs)"
  shows "outputs cfg v s xs"
  unfolding outputs_def
proof (intro allI impI)
  fix lc assume "buffer_ok cfg v lc (length xs)"
  then show "runs cfg (s\<lparr>hs_output_buffer := lc\<rparr>) (buffered v lc @ take_room lc xs)"
  proof (induction "bv_completed v (lc_inner lc)" arbitrary: lc)
    case Nil
    then show ?case by (intro step) simp_all
  next
    case (Cons b bs)
    from next_batch [OF v Cons(2) [symmetric], of s] obtain lc' where
      lc': "poll_turn cfg (s\<lparr>hs_output_buffer := lc\<rparr>) = Emit b (s\<lparr>hs_output_buffer := lc'\<rparr>)"
        "bv_completed v (lc_inner lc') = bs" "buffered v lc = rows b @ buffered v lc'"
        "\<forall>n. buffer_ok cfg v lc n \<longrightarrow> buffer_ok cfg v lc' n" "\<forall>xs :: row list. take_room lc' xs = take_room lc xs" by blast
    have "runs cfg (s\<lparr>hs_output_buffer := lc'\<rparr>) (buffered v lc' @ take_room lc' xs)"
      using Cons(1) [OF lc'(2) [symmetric]] lc'(4) Cons(3) by blast
    from runs_emit [OF lc'(1) this] lc'(3,5) show ?case by simp
  qed
qed


definition drained_buffer :: "'c buffer_view \<Rightarrow> 'c limited_coalescer \<Rightarrow> bool" where
  "drained_buffer v lc \<longleftrightarrow> \<not> lc_finished lc \<and> bv_completed v (lc_inner lc) = []"

lemma outputs_step:
  assumes v: "view_ok cfg v" and "outputs cfg v s' xs"
    and "\<And>lc. drained_buffer v lc \<Longrightarrow> poll_turn cfg (s\<lparr>hs_output_buffer := lc\<rparr>) = Again (s'\<lparr>hs_output_buffer := lc\<rparr>)"
  shows "outputs cfg v s xs"
proof (rule outputsI [OF v])
  fix lc assume lc: "buffer_ok cfg v lc (length xs)" "bv_completed v (lc_inner lc) = []"
  then have "drained_buffer v lc" by (simp add: drained_buffer_def buffer_ok_def)
  with assms(2,3) lc show "runs cfg (s\<lparr>hs_output_buffer := lc\<rparr>) (buffered v lc @ take_room lc xs)"
    by (auto simp: outputs_def intro: runs_again)
qed

text \<open>A step that pushes a batch; it may finish the buffer when the limit is reached.\<close>

lemma outputs_push:
  assumes v: "view_ok cfg v" and "outputs cfg v s' xs"
    and b: "col_types b = map field_type (schema_fields (hc_schema cfg))"
    and step: "\<And>lc. drained_buffer v lc \<Longrightarrow> poll_turn cfg (s\<lparr>hs_output_buffer := lc\<rparr>) =
      handle_state (bind_res (lc_push_batch (hc_coalescer cfg) b lc) (\<lambda>(status, out).
        if stop \<and> status = LimitReached
        then bind_res (lc_finish (hc_coalescer cfg) out) (\<lambda>out'. Inr (sf\<lparr>hs_output_buffer := out'\<rparr>))
        else Inr (s'\<lparr>hs_output_buffer := out\<rparr>)))"
  shows "outputs cfg v s (rows b @ xs)"
proof (rule outputsI [OF v])
  fix lc assume lc: "buffer_ok cfg v lc (length (rows b @ xs))" "bv_completed v (lc_inner lc) = []"
  then have dr: "drained_buffer v lc" by (simp add: drained_buffer_def buffer_ok_def)
  have "fits lc (num_rows b + length xs)" using lc(1) by (simp add: buffer_ok_def num_rows_def)
  then obtain st lc' where p: "lc_push_batch (hc_coalescer cfg) b lc = Inr (st, lc')" "buffer_ok cfg v lc' (length xs)"
    "buffered v lc' = buffered v lc @ take_room lc (rows b)"
    "\<forall>ys :: row list. take_room lc (rows b @ ys) = take_room lc (rows b) @ take_room lc' ys"
    "st = LimitReached \<longrightarrow> (\<forall>ys :: row list. take_room lc' ys = [])"
    using lc_push_batch_rows [OF v [unfolded view_ok_def], of lc b "length xs"] lc b by (auto simp: buffer_ok_def buffered_def)
  show "runs cfg (s\<lparr>hs_output_buffer := lc\<rparr>) (buffered v lc @ take_room lc (rows b @ xs))"
  proof (cases "stop \<and> st = LimitReached")
    case True
    obtain lc2 where f: "lc_finish (hc_coalescer cfg) lc' = Inr lc2" "lc_finished lc2" "bv_held v (lc_inner lc2) = []"
      "buffered v lc2 = buffered v lc'"
      using lc_finish_rows [OF v [unfolded view_ok_def], of lc'] by (auto simp: buffered_def)
    have "poll_turn cfg (s\<lparr>hs_output_buffer := lc\<rparr>) = Again (sf\<lparr>hs_output_buffer := lc2\<rparr>)"
      using step [OF dr] p(1) f(1) True by simp
    from runs_again [OF this finished_runs [OF v f(2,3)]] f(4) p(3-5) True show ?thesis by simp
  next
    case False
    then have "poll_turn cfg (s\<lparr>hs_output_buffer := lc\<rparr>) = Again (s'\<lparr>hs_output_buffer := lc'\<rparr>)"
      using step [OF dr] p(1) by auto
    moreover have "runs cfg (s'\<lparr>hs_output_buffer := lc'\<rparr>) (buffered v lc' @ take_room lc' xs)"
      using assms(2) p(2) by (simp add: outputs_def)
    ultimately show ?thesis using p(3,4) by (simp add: runs_again)
  qed
qed

lemma outputs_completed:
  assumes v: "view_ok cfg v" and "hs_state s = Completed"
  shows "outputs cfg v s []"
proof (rule outputsI [OF v])
  fix lc assume lc: "buffer_ok cfg v lc (length [])" "bv_completed v (lc_inner lc) = []"
  have e: "co_is_empty (hc_coalescer cfg) (lc_inner lc) \<longleftrightarrow> buffered v lc = []"
    using v lc(2) by (auto simp: view_ok_def coalescer_spec_def buffered_def lc_rows_def)
  have nb: "lc_next_completed_batch (hc_coalescer cfg) lc = None" "\<not> lc_finished lc"
    using no_batch [OF v lc(2)] lc(1) by (simp_all add: buffer_ok_def)
  have room: "take_room lc [] = ([] :: row list)" by (simp add: take_room_def split: option.split)
  show "runs cfg (s\<lparr>hs_output_buffer := lc\<rparr>) (buffered v lc @ take_room lc [])"
  proof (cases "buffered v lc = []")
    case True
    then have "poll_turn cfg (s\<lparr>hs_output_buffer := lc\<rparr>) = End" using nb e assms(2) by (simp add: poll_turn_def lc_is_empty_def)
    with True room show ?thesis by (simp add: runs_end)
  next
    case False
    obtain lc2 where f: "lc_finish (hc_coalescer cfg) lc = Inr lc2" "lc_finished lc2" "bv_held v (lc_inner lc2) = []"
      "buffered v lc2 = buffered v lc"
      using lc_finish_rows [OF v [unfolded view_ok_def], of lc] by (auto simp: buffered_def)
    have "poll_turn cfg (s\<lparr>hs_output_buffer := lc\<rparr>) = Again (s\<lparr>hs_output_buffer := lc2\<rparr>)"
      using nb e False f(1) assms(2) by (simp add: poll_turn_def lc_is_empty_def)
    from runs_again [OF this finished_runs [OF v f(2,3)]] f(4) room show ?thesis by simp
  qed
qed


text \<open>
  What the proofs about a stream need of a predicate on its states and outputs: that it can
  be carried back over a turn that changes the state only, and over a turn that pushes a batch.
\<close>

locale turn_logic =
  fixes Out :: "'c stream_config \<Rightarrow> 'c buffer_view \<Rightarrow> 'c hash_join_stream \<Rightarrow> row list \<Rightarrow> bool"
  assumes turn: "\<lbrakk>view_ok cfg v; Out cfg v s' xs;
      \<And>lc. drained_buffer v lc \<Longrightarrow> poll_turn cfg (s\<lparr>hs_output_buffer := lc\<rparr>) = Again (s'\<lparr>hs_output_buffer := lc\<rparr>)\<rbrakk>
      \<Longrightarrow> Out cfg v s xs"
    and push: "\<lbrakk>view_ok cfg v; Out cfg v s' xs; col_types b = map field_type (schema_fields (hc_schema cfg));
      \<And>lc. drained_buffer v lc \<Longrightarrow> poll_turn cfg (s\<lparr>hs_output_buffer := lc\<rparr>) =
        handle_state (bind_res (lc_push_batch (hc_coalescer cfg) b lc) (\<lambda>(status, out).
          if stop \<and> status = LimitReached
          then bind_res (lc_finish (hc_coalescer cfg) out) (\<lambda>out'. Inr (sf\<lparr>hs_output_buffer := out'\<rparr>))
          else Inr (s'\<lparr>hs_output_buffer := out\<rparr>)))\<rbrakk>
      \<Longrightarrow> Out cfg v s (rows b @ xs)"

interpretation outs: turn_logic outputs
  by unfold_locales (rule outputs_step outputs_push; assumption)+


section \<open>Probing a batch\<close>

text \<open>
  A stream set up for a join of inputs with the two schemas: the kernels are Arrow's, the
  columns those of the output, the filter computes the filter of the join, and the keys have
  one type on both sides. A null-aware join is an anti join on one key without a filter.
\<close>

definition join_ready ::
  "'c stream_config \<Rightarrow> schema \<Rightarrow> schema \<Rightarrow> join_info \<Rightarrow> (pexpr \<Rightarrow> data_type) \<Rightarrow> bool" where
  "join_ready cfg ls rs ji dl \<longleftrightarrow>
     kernels_spec (hc_kernels cfg) \<and> columns_ok ls rs (ji_type ji) (hc_schema cfg) (hc_column_indices cfg) \<and>
     hc_join_type cfg = ji_type ji \<and> hc_null_equality cfg = ji_null_equality ji \<and>
     hc_on_right cfg = map snd (ji_on ji) \<and> hc_right_schema cfg = rs \<and> filter_ok ls rs ji (hc_filter cfg) \<and>
     (hc_null_aware cfg \<longrightarrow> ji_type ji = LeftAnti \<and> length (ji_on ji) = 1 \<and> hc_filter cfg = None) \<and>
     keys_typed ls rs (ji_on ji) dl (hc_types cfg) \<and>
     0 < hc_batch_size cfg \<and> hc_batch_size cfg < 2 ^ 63 \<and> (hc_report cfg = None \<or> hc_report cfg = Some (Inr ()))"

definition joins_pair :: "join_info \<Rightarrow> batch \<Rightarrow> batch \<Rightarrow> nat \<times> nat \<Rightarrow> bool" where
  "joins_pair ji bb pb = (\<lambda>(p, j). joins ji (rows bb ! j) (rows pb ! p))"

lemma pairs_valid_filter: "pairs_valid bb pb m \<Longrightarrow> pairs_valid bb pb (filter P m)"
  by (auto simp: pairs_valid_def)

lemma join_filter_step:
  assumes ready: "join_ready cfg ls rs ji dl" and fits: "batch_fits ls bb" "batch_fits rs pb" and m: "pairs_valid bb pb out"
    and m0: "m0 = filter (keys_pair (ji_null_equality ji) (ji_on ji) bb pb) out"
  shows "(case hc_filter cfg of
            None \<Rightarrow> Inr (map (Some \<circ> snd) m0, map (Some \<circ> fst) m0)
          | Some jf \<Rightarrow> apply_join_filter_to_indices (hc_kernels cfg) bb pb (map (Some \<circ> snd) m0) (map (Some \<circ> fst) m0) jf SideLeft None t) =
         Inr (pair_indices (filter (joins_pair ji bb pb) out))"
proof -
  have ak: "kernels_spec (hc_kernels cfg)" and fo: "filter_ok ls rs ji (hc_filter cfg)" using ready by (simp_all add: join_ready_def)
  have "filter (\<lambda>(p, j). ji_filter ji (rows bb ! j) (rows pb ! p)) m0 = filter (joins_pair ji bb pb) out"
    unfolding m0 filter_filter by (intro filter_cong) (auto simp: keys_pair_def joins_pair_def joins_def)
  moreover have "pairs_valid bb pb m0" unfolding m0 using m by (rule pairs_valid_filter)
  moreover have "filter (\<lambda>(p, j). ji_filter ji (rows bb ! j) (rows pb ! p)) m0 = m0" if "hc_filter cfg = None"
    using fo that by (simp add: filter_ok_def filter_id_conv)
  ultimately show ?thesis
    using apply_filter_pairs [OF ak _ fits] fo by (cases "hc_filter cfg") (simp_all add: pair_indices_def)
qed

lemma last_index_map: "last_index (map (Some \<circ> fst) m) = last_joined m"
  by (simp add: last_index_def last_joined_def last_map)

text \<open>One chunk, from the lookup to the output buffer.\<close>

lemma join_chunk_step:
  assumes ready: "join_ready cfg ls rs ji dl" and fits: "batch_fits ls (ld_batch ld)" "batch_fits rs pb"
    and ps: "ps_batch ps = pb" and out: "pairs_valid (ld_batch ld) pb out"
    and m: "m = filter (joins_pair ji (ld_batch ld) pb) out"
    and m0: "m0 = filter (keys_pair (ji_null_equality ji) (ji_on ji) (ld_batch ld) pb) out"
    and r: "r = alignment_range (ps_joined_probe_idx ps) (nxt = None) (num_rows pb) (last_joined m)"
    and ok: "chunk_ok (num_rows pb) (m, r)" and n: "num_rows pb < 2 ^ 32"
    and bits: "need_produce_result_in_final (ji_type ji) \<longrightarrow> length (ld_visited ld) = num_rows (ld_batch ld)"
    and ld': "ld' = ld\<lparr>ld_visited := mark_visited (ji_type ji) m (ld_visited ld)\<rparr>"
  shows "\<exists>b. col_types b = map field_type (schema_fields (hc_schema cfg)) \<and>
    rows b = chunk_out (ji_type ji) (hc_right_side_ordered cfg) (hc_column_indices cfg) (ld_batch ld) pb (m, r) \<and>
    (\<forall>s. join_chunk cfg ld ps (map (Some \<circ> snd) m0) (map (Some \<circ> fst) m0) nxt s =
       bind_res (lc_push_batch (hc_coalescer cfg) b (hs_output_buffer s)) (\<lambda>(status, out).
        if status = LimitReached
        then bind_res (lc_finish (hc_coalescer cfg) out) (\<lambda>out'.
               Inr (s\<lparr>hs_build_side := BuildReady ld', hs_output_buffer := out', hs_state := Completed\<rparr>))
        else Inr (s\<lparr>hs_build_side := BuildReady ld', hs_output_buffer := out,
                    hs_state := (case nxt of None \<Rightarrow> FetchProbeBatch
                      | Some off \<Rightarrow> ProcessProbeBatch (advance off (last_joined m) ps))\<rparr>)))"
proof -
  have ak: "kernels_spec (hc_kernels cfg)" and cols: "columns_ok ls rs (ji_type ji) (hc_schema cfg) (hc_column_indices cfg)"
    and t: "hc_join_type cfg = ji_type ji" using ready by (simp_all add: join_ready_def)
  have mv: "pairs_valid (ld_batch ld) pb m" unfolding m using out by (rule pairs_valid_filter)
  have vis: "(if need_produce_result_in_final (ji_type ji) then set_visited (map (Some \<circ> snd) m) (ld_visited ld) else Inr (ld_visited ld)) =
      Inr (mark_visited (ji_type ji) m (ld_visited ld))"
    using bits mv by (auto simp: mark_visited_def pairs_valid_def intro!: set_visited_ok)
  obtain b where b: "chunk_batch (hc_kernels cfg) (hc_schema cfg) (hc_column_indices cfg) (ji_type ji) (hc_right_side_ordered cfg)
      (ld_batch ld) pb m r = Inr b" "col_types b = map field_type (schema_fields (hc_schema cfg))"
    "rows b = chunk_out (ji_type ji) (hc_right_side_ordered cfg) (hc_column_indices cfg) (ld_batch ld) pb (m, r)"
    using chunk_batch_rows [OF ak cols fits mv ok n] by blast
  obtain l2 r2 where a: "adjust_indices_by_join_type (map (Some \<circ> snd) m) (map (Some \<circ> fst) m) r (ji_type ji) (hc_right_side_ordered cfg) = (l2, r2)"
    by fastforce
  have bb: "(if ji_type ji = RightMark
      then build_batch_from_indices (hc_kernels cfg) (hc_schema cfg) pb (ld_batch ld) l2 r2 (hc_column_indices cfg) SideRight (ji_type ji)
      else build_batch_from_indices (hc_kernels cfg) (hc_schema cfg) (ld_batch ld) pb l2 r2 (hc_column_indices cfg) SideLeft (ji_type ji)) = Inr b"
    using b(1) a by (simp add: chunk_batch_def)
  have "join_chunk cfg ld ps (map (Some \<circ> snd) m0) (map (Some \<circ> fst) m0) nxt s =
       bind_res (lc_push_batch (hc_coalescer cfg) b (hs_output_buffer s)) (\<lambda>(status, out).
        if status = LimitReached
        then bind_res (lc_finish (hc_coalescer cfg) out) (\<lambda>out'.
               Inr (s\<lparr>hs_build_side := BuildReady ld', hs_output_buffer := out', hs_state := Completed\<rparr>))
        else Inr (s\<lparr>hs_build_side := BuildReady ld', hs_output_buffer := out,
                    hs_state := (case nxt of None \<Rightarrow> FetchProbeBatch
                      | Some off \<Rightarrow> ProcessProbeBatch (advance off (last_joined m) ps))\<rparr>))" for s
    unfolding join_chunk_def t ps join_filter_step [OF ready fits out m0] pair_indices_def bind_res.simps prod.case
      m [symmetric] vis last_index_map Let_def r [symmetric] a bb ld' ..
  with b(2,3) show ?thesis by blast
qed


lemma poll_drained:
  assumes "view_ok cfg v" and "drained_buffer v lc" and "hs_state s = ProcessProbeBatch ps"
  shows "poll_turn cfg (s\<lparr>hs_output_buffer := lc\<rparr>) =
    (case process_probe_batch cfg ps (s\<lparr>hs_output_buffer := lc\<rparr>) of None \<Rightarrow> Diverges | Some r \<Rightarrow> handle_state r)"
  using assms no_batch [OF assms(1), of lc] by (simp add: poll_turn_def drained_buffer_def)

text \<open>What a null-aware join notes about a probe batch.\<close>

definition noted :: "'c stream_config \<Rightarrow> batch \<Rightarrow> key_array list \<Rightarrow> left_data \<Rightarrow> left_data" where
  "noted cfg pb vals ld =
     (if hc_null_aware cfg
      then ld\<lparr>ld_non_empty := (ld_non_empty ld \<or> 0 < num_rows pb), ld_has_null := (ld_has_null ld \<or> CNull \<in> set (snd (hd vals)))\<rparr>
      else ld)"

abbreviation null_seen :: "'c stream_config \<Rightarrow> left_data \<Rightarrow> bool" where
  "null_seen cfg ld \<equiv> hc_null_aware cfg \<and> ld_has_null ld"

lemma note_nulls_noted:
  "ps_values ps \<noteq> [] \<Longrightarrow>
     (if hc_null_aware cfg then note_nulls ps ld else Inr ld) = Inr (noted cfg (ps_batch ps) (ps_values ps) ld)"
  by (auto simp: note_nulls_def noted_def split: list.split)

lemma noted_noted [simp]: "noted cfg pb vals (noted cfg pb vals ld) = noted cfg pb vals ld"
  by (simp add: noted_def)

lemma noted_visited [simp]: "noted cfg pb vals (ld\<lparr>ld_visited := bits\<rparr>) = (noted cfg pb vals ld)\<lparr>ld_visited := bits\<rparr>"
  by (cases ld) (simp add: noted_def)

lemma noted_fields [simp]:
  "ld_map (noted cfg pb vals ld) = ld_map ld" "ld_batch (noted cfg pb vals ld) = ld_batch ld"
  "ld_values (noted cfg pb vals ld) = ld_values ld" "ld_visited (noted cfg pb vals ld) = ld_visited ld"
  "ld_threads (noted cfg pb vals ld) = ld_threads ld"
  by (simp_all add: noted_def)

lemma noted_plain [simp]: "\<not> hc_null_aware cfg \<Longrightarrow> noted cfg pb vals ld = ld"
  by (simp add: noted_def)

lemma left_ok_noted [simp]:
  "left_ok ls hash dl neq on_left L ord (noted cfg pb vals ld) = left_ok ls hash dl neq on_left L ord ld"
  by (simp add: left_ok_def)

lemma ready_values:
  assumes "join_ready cfg ls rs ji dl" and "vals = eval_keys (hc_types cfg) (map snd (ji_on ji)) pb"
  shows "hc_null_aware cfg \<Longrightarrow> vals \<noteq> []"
  using assms by (auto simp: join_ready_def eval_keys_def)

lemma process_probe_lookup:
  assumes "hc_null_aware cfg \<Longrightarrow> ps_values ps \<noteq> []" and "noted cfg (ps_batch ps) (ps_values ps) ld0 = ld"
    and "\<not> null_seen cfg ld" and "\<not> (map_is_empty (ld_map ld) \<and> hc_filter cfg = None)"
    and "hs_build_side s = BuildReady ld0" and "lookup_map cfg ld (hs_hashes_buffer s) ps = Some (Inr (l0, r0, nxt))"
  shows "process_probe_batch cfg ps s = Some (join_chunk cfg ld ps l0 r0 nxt s)"
proof -
  have "(if hc_null_aware cfg then note_nulls ps ld0 else Inr ld0) = Inr ld"
    using note_nulls_noted [of ps cfg ld0] assms(1,2) by (cases "hc_null_aware cfg") simp_all
  with assms(3-) show ?thesis by (auto simp: process_probe_batch_def)
qed

lemma stream_update:
  "s\<lparr>hs_output_buffer := lc, hs_build_side := x, hs_output_buffer := y, hs_state := z\<rparr> =
     (s\<lparr>hs_build_side := x, hs_state := z\<rparr>)\<lparr>hs_output_buffer := y\<rparr>"
  "s\<lparr>hs_build_side := x, hs_output_buffer := y, hs_state := z\<rparr> =
     (s\<lparr>hs_build_side := x, hs_state := z\<rparr>)\<lparr>hs_output_buffer := y\<rparr>"
  by (cases s; simp)+

lemma stream_fetch:
  "s\<lparr>hs_output_buffer := lc, hs_right := x, hs_hashes_buffer := y, hs_state := z\<rparr> =
     (s\<lparr>hs_right := x, hs_hashes_buffer := y, hs_state := z\<rparr>)\<lparr>hs_output_buffer := lc\<rparr>"
  by (cases s) simp

lemma stream_wait:
  "s\<lparr>hs_output_buffer := lc, hs_state := x, hs_build_side := y\<rparr> = (s\<lparr>hs_state := x, hs_build_side := y\<rparr>)\<lparr>hs_output_buffer := lc\<rparr>"
  by (cases s) simp

context turn_logic
begin

text \<open>A turn on a chunk, as a push followed by a state that no longer has the chunk.\<close>

lemma chunk_turn:
  assumes v: "view_ok cfg v" and ready: "join_ready cfg ls rs ji dl"
    and fits: "batch_fits ls (ld_batch ld)" "batch_fits rs pb"
    and vals: "ld_values ld = eval_keys dl (map fst (ji_on ji)) (ld_batch ld)" "ps_values ps = eval_keys (hc_types cfg) (map snd (ji_on ji)) pb"
    and n: "num_rows pb < 2 ^ 32" and ps: "ps_batch ps = pb"
    and ne: "\<not> (map_is_empty (ld_map ld) \<and> hc_filter cfg = None)"
    and s: "hs_state s = ProcessProbeBatch ps" "hs_build_side s = BuildReady ld0"
    and nt: "noted cfg pb (ps_values ps) ld0 = ld" "\<not> null_seen cfg ld"
    and out: "raw_lookup cfg ld (hs_hashes_buffer s) (ps_values ps) (ps_offset ps) = Some (Inr (out, nxt))" "raw_ok cfg ld (ji_on ji) pb out"
    and bits: "need_produce_result_in_final (ji_type ji) \<longrightarrow> length (ld_visited ld) = num_rows (ld_batch ld)"
    and m: "m = filter (joins_pair ji (ld_batch ld) pb) out"
    and r: "r = alignment_range (ps_joined_probe_idx ps) (nxt = None) (num_rows pb) (last_joined m)"
    and ok: "chunk_ok (num_rows pb) (m, r)"
    and rest: "Out cfg v (s\<lparr>hs_build_side := BuildReady (ld\<lparr>ld_visited := mark_visited (ji_type ji) m (ld_visited ld)\<rparr>),
        hs_state := (case nxt of None \<Rightarrow> FetchProbeBatch | Some off \<Rightarrow> ProcessProbeBatch (advance off (last_joined m) ps))\<rparr>) ys"
  shows "Out cfg v s (chunk_out (ji_type ji) (hc_right_side_ordered cfg) (hc_column_indices cfg) (ld_batch ld) pb (m, r) @ ys)"
proof -
  let ?ld = "ld\<lparr>ld_visited := mark_visited (ji_type ji) m (ld_visited ld)\<rparr>"
  have ak: "kernels_spec (hc_kernels cfg)" and typed: "keys_typed ls rs (ji_on ji) dl (hc_types cfg)"
    and neq: "hc_null_equality cfg = ji_null_equality ji" using ready by (simp_all add: join_ready_def)
  define m0 where "m0 = filter (keys_pair (ji_null_equality ji) (ji_on ji) (ld_batch ld) pb) out"
  have lk: "lookup_map cfg ld (hs_hashes_buffer s) ps = Some (Inr (map (Some \<circ> snd) m0, map (Some \<circ> fst) m0, nxt))"
    using lookup_map_pairs [OF ak typed fits vals out] by (simp add: neq m0_def)
  have pv: "pairs_valid (ld_batch ld) pb out" using out(2) by (simp add: raw_ok_def)
  obtain b where b: "col_types b = map field_type (schema_fields (hc_schema cfg))"
    "rows b = chunk_out (ji_type ji) (hc_right_side_ordered cfg) (hc_column_indices cfg) (ld_batch ld) pb (m, r)"
    and jc: "\<forall>s. join_chunk cfg ld ps (map (Some \<circ> snd) m0) (map (Some \<circ> fst) m0) nxt s =
       bind_res (lc_push_batch (hc_coalescer cfg) b (hs_output_buffer s)) (\<lambda>(status, out).
        if status = LimitReached
        then bind_res (lc_finish (hc_coalescer cfg) out) (\<lambda>out'.
               Inr (s\<lparr>hs_build_side := BuildReady ?ld, hs_output_buffer := out', hs_state := Completed\<rparr>))
        else Inr (s\<lparr>hs_build_side := BuildReady ?ld, hs_output_buffer := out,
                    hs_state := (case nxt of None \<Rightarrow> FetchProbeBatch
                      | Some off \<Rightarrow> ProcessProbeBatch (advance off (last_joined m) ps))\<rparr>))"
    using join_chunk_step [OF ready fits ps pv m m0_def r ok n bits refl] by blast
  have "poll_turn cfg (s\<lparr>hs_output_buffer := lc\<rparr>) =
      handle_state (bind_res (lc_push_batch (hc_coalescer cfg) b lc) (\<lambda>(status, out).
        if True \<and> status = LimitReached
        then bind_res (lc_finish (hc_coalescer cfg) out) (\<lambda>out'.
               Inr ((s\<lparr>hs_build_side := BuildReady ?ld, hs_state := Completed\<rparr>)\<lparr>hs_output_buffer := out'\<rparr>))
        else Inr ((s\<lparr>hs_build_side := BuildReady ?ld, hs_state := (case nxt of None \<Rightarrow> FetchProbeBatch
                      | Some off \<Rightarrow> ProcessProbeBatch (advance off (last_joined m) ps))\<rparr>)\<lparr>hs_output_buffer := out\<rparr>)))"
    if "drained_buffer v lc" for lc
  proof -
    have "process_probe_batch cfg ps (s\<lparr>hs_output_buffer := lc\<rparr>) =
        Some (join_chunk cfg ld ps (map (Some \<circ> snd) m0) (map (Some \<circ> fst) m0) nxt (s\<lparr>hs_output_buffer := lc\<rparr>))"
      using nt ne s(2) lk ready_values [OF ready vals(2)] ps by (intro process_probe_lookup [where ?ld0.0 = ld0]) simp_all
    then show ?thesis
      unfolding poll_drained [OF v that s(1)] by (simp only: option.case jc stream_update(1)) simp
  qed
  from push [OF v rest b(1) this] b(2) show ?thesis by simp
qed

end

lemma drained_nonempty: "drained step off outs \<Longrightarrow> outs \<noteq> []"
  by (induction rule: drained.induct) auto

lemma aligned_Cons:
  "ms \<noteq> [] \<Longrightarrow> aligned n joined (m # ms) =
     (m, alignment_range joined False n (last_joined m)) # aligned n (advance_joined joined (last_joined m)) ms"
  by (cases ms) auto

lemma raw_lookup_visited [simp]: "raw_lookup cfg (ld\<lparr>ld_visited := bits\<rparr>) = raw_lookup cfg ld"
  by (intro ext) (simp add: raw_lookup_def)

lemma raw_ok_visited [simp]: "raw_ok cfg (ld\<lparr>ld_visited := bits\<rparr>) on pb out = raw_ok cfg ld on pb out"
  by (simp add: raw_ok_def)

lemma raw_ok_append: "raw_ok cfg ld on pb (m @ m') \<longleftrightarrow> raw_ok cfg ld on pb m \<and> raw_ok cfg ld on pb m'"
  by (auto simp: raw_ok_def pairs_valid_def)

context turn_logic
begin

text \<open>All chunks of a batch.\<close>

lemma chunks_outputs:
  assumes v: "view_ok cfg v" and ready: "join_ready cfg ls rs ji dl"
    and fits: "batch_fits ls (ld_batch ld)" "batch_fits rs pb"
    and vals: "ld_values ld = eval_keys dl (map fst (ji_on ji)) (ld_batch ld)" "vals = eval_keys (hc_types cfg) (map snd (ji_on ji)) pb"
    and n: "num_rows pb < 2 ^ 32" and ne: "\<not> (map_is_empty (ld_map ld) \<and> hc_filter cfg = None)"
    and dr: "drained (raw_lookup cfg ld hashes vals) off outs" and nt: "noted cfg pb vals ld = ld" "\<not> null_seen cfg ld"
  shows "hs_state s = ProcessProbeBatch ps \<Longrightarrow> hs_build_side s = BuildReady ld0 \<Longrightarrow> noted cfg pb vals ld0 = ld\<lparr>ld_visited := bits\<rparr> \<Longrightarrow>
    hs_hashes_buffer s = hashes \<Longrightarrow> ps_batch ps = pb \<Longrightarrow> ps_values ps = vals \<Longrightarrow> ps_offset ps = off \<Longrightarrow>
    (need_produce_result_in_final (ji_type ji) \<longrightarrow> length bits = num_rows (ld_batch ld)) \<Longrightarrow>
    raw_ok cfg ld (ji_on ji) pb (concat outs) \<Longrightarrow>
    list_all (chunk_ok (num_rows pb)) (aligned (num_rows pb) (ps_joined_probe_idx ps) (map (filter (joins_pair ji (ld_batch ld) pb)) outs)) \<Longrightarrow>
    Out cfg v (s\<lparr>hs_build_side := BuildReady (ld\<lparr>ld_visited :=
        mark_visited (ji_type ji) (filter (joins_pair ji (ld_batch ld) pb) (concat outs)) bits\<rparr>), hs_state := FetchProbeBatch\<rparr>) ys \<Longrightarrow>
    Out cfg v s (concat (map (chunk_out (ji_type ji) (hc_right_side_ordered cfg) (hc_column_indices cfg) (ld_batch ld) pb)
        (aligned (num_rows pb) (ps_joined_probe_idx ps) (map (filter (joins_pair ji (ld_batch ld) pb)) outs))) @ ys)"
  using dr
proof (induction arbitrary: s ps bits ld0 rule: drained.induct)
  case (last off out)
  let ?ld = "ld\<lparr>ld_visited := bits\<rparr>"
  show ?case
    using chunk_turn [OF v ready, of ?ld pb ps s ld0 out None] last fits vals n ne nt by simp
next
  case (more off out off' outs)
  let ?ld = "ld\<lparr>ld_visited := bits\<rparr>" and ?m = "filter (joins_pair ji (ld_batch ld) pb) out"
  let ?ps = "advance off' (last_joined ?m) ps" and ?bits = "mark_visited (ji_type ji) ?m bits"
  let ?s = "s\<lparr>hs_build_side := BuildReady (ld\<lparr>ld_visited := ?bits\<rparr>), hs_state := ProcessProbeBatch ?ps\<rparr>"
  have al: "aligned (num_rows pb) (ps_joined_probe_idx ps) (map (filter (joins_pair ji (ld_batch ld) pb)) (out # outs)) =
      (?m, alignment_range (ps_joined_probe_idx ps) False (num_rows pb) (last_joined ?m)) #
      aligned (num_rows pb) (ps_joined_probe_idx ?ps) (map (filter (joins_pair ji (ld_batch ld) pb)) outs)"
    using drained_nonempty [OF more.hyps(2)] by (simp add: aligned_Cons advance_def)
  have len: "length ?bits = length bits" by (simp add: mark_visited_def)
  let ?zs = "concat (map (chunk_out (ji_type ji) (hc_right_side_ordered cfg) (hc_column_indices cfg) (ld_batch ld) pb)
        (aligned (num_rows pb) (ps_joined_probe_idx ?ps) (map (filter (joins_pair ji (ld_batch ld) pb)) outs))) @ ys"
  have "Out cfg v ?s ?zs"
  proof (rule more.IH)
    show "Out cfg v (?s\<lparr>hs_build_side := BuildReady (ld\<lparr>ld_visited :=
        mark_visited (ji_type ji) (filter (joins_pair ji (ld_batch ld) pb) (concat outs)) ?bits\<rparr>), hs_state := FetchProbeBatch\<rparr>) ys"
      using more.prems(11) by (simp add: mark_visited_append)
    show "list_all (chunk_ok (num_rows pb)) (aligned (num_rows pb) (ps_joined_probe_idx ?ps) (map (filter (joins_pair ji (ld_batch ld) pb)) outs))"
      using more.prems(10) unfolding al by simp
    show "noted cfg pb vals (ld\<lparr>ld_visited := ?bits\<rparr>) = ld\<lparr>ld_visited := ?bits\<rparr>" by (simp only: noted_visited nt(1))
  qed (use more.prems len nt in \<open>simp_all add: advance_def raw_ok_append\<close>)
  moreover have "chunk_ok (num_rows pb) (?m, alignment_range (ps_joined_probe_idx ps) False (num_rows pb) (last_joined ?m))"
    using more.prems(10) unfolding al by simp
  ultimately show ?case
    unfolding al using chunk_turn [OF v ready, of ?ld pb ps s ld0 out "Some off'"] more.hyps(1) more.prems fits vals n ne nt
    by (simp add: raw_ok_append)
qed

end

lemma filter_joins_pairs:
  assumes "filter (keys_pair (ji_null_equality ji) (ji_on ji) bb pb) xs = match_pairs (ji_null_equality ji) (ji_on ji) bb pb ord"
  shows "filter (joins_pair ji bb pb) xs = join_pairs ji bb pb ord"
proof -
  have "filter (joins_pair ji bb pb) xs =
      filter (\<lambda>(p, j). ji_filter ji (rows bb ! j) (rows pb ! p)) (filter (keys_pair (ji_null_equality ji) (ji_on ji) bb pb) xs)"
    unfolding filter_filter by (intro filter_cong) (auto simp: keys_pair_def joins_pair_def joins_def)
  then show ?thesis by (simp only: assms match_pairs_filter)
qed

lemma probe_rows_empty_build: "probe_rows ji cols [] R = unmatched_probe_rows (ji_type ji) cols R"
  by (simp add: probe_rows_def unmatched_probe_rows_def matched_rows_def right_rows_def right_joined_def filter_False
      split: join_type.split)

text \<open>A stream that is about to process a fresh probe batch.\<close>

definition at_batch ::
  "'c stream_config \<Rightarrow> join_info \<Rightarrow> left_data \<Rightarrow> batch \<Rightarrow> 'c hash_join_stream \<Rightarrow> bool" where
  "at_batch cfg ji ld pb s \<longleftrightarrow> hs_build_side s = BuildReady ld \<and>
     hs_state s = ProcessProbeBatch \<lparr>ps_batch = pb, ps_values = eval_keys (hc_types cfg) (map snd (ji_on ji)) pb,
       ps_offset = (0, None), ps_joined_probe_idx = None\<rparr> \<and>
     (\<forall>m. ld_map ld = HashMap m \<longrightarrow> hs_hashes_buffer s = create_hashes (hc_hash cfg) (map snd (ji_on ji)) pb)"

definition batch_done :: "join_info \<Rightarrow> left_data \<Rightarrow> nat list \<Rightarrow> batch \<Rightarrow> left_data" where
  "batch_done ji ld ord pb = ld\<lparr>ld_visited := mark_visited (ji_type ji) (join_pairs ji (ld_batch ld) pb ord) (ld_visited ld)\<rparr>"

context turn_logic
begin

lemma empty_build_outputs:
  assumes v: "view_ok cfg v" and ready: "join_ready cfg ls rs ji dl"
    and ok: "left_ok ls (hc_hash cfg) dl (ji_null_equality ji) (map fst (ji_on ji)) L ord ld"
    and fit: "batch_fits rs pb" and at: "at_batch cfg ji ld pb s"
    and e: "map_is_empty (ld_map ld)" "hc_filter cfg = None"
    and ld': "ld' = noted cfg pb (eval_keys (hc_types cfg) (map snd (ji_on ji)) pb) ld" "\<not> null_seen cfg ld'"
    and rest: "Out cfg v (s\<lparr>hs_build_side := BuildReady ld', hs_state := FetchProbeBatch\<rparr>) ys"
  shows "Out cfg v s (probe_rows ji (hc_column_indices cfg) L (rows pb) @ ys)"
proof -
  have ak: "kernels_spec (hc_kernels cfg)" and cols: "columns_ok ls rs (ji_type ji) (hc_schema cfg) (hc_column_indices cfg)"
    and t: "hc_join_type cfg = ji_type ji" using ready by (simp_all add: join_ready_def)
  have L: "L = []" using map_is_empty_rows [OF ok e(1)] .
  have bb: "batch_fits ls (ld_batch ld)" using ok by (simp add: left_ok_def)
  obtain b where b: "build_batch_empty_build_side (hc_kernels cfg) (hc_schema cfg) (ld_batch ld) pb (hc_column_indices cfg) (ji_type ji) = Inr b"
    "col_types b = map field_type (schema_fields (hc_schema cfg))" "rows b = probe_rows ji (hc_column_indices cfg) L (rows pb)"
    using empty_build_rows [OF ak cols bb fit] by (auto simp: L probe_rows_empty_build)
  let ?vals = "eval_keys (hc_types cfg) (map snd (ji_on ji)) pb"
  obtain ps where ps: "hs_state s = ProcessProbeBatch ps" "ps_batch ps = pb" "ps_values ps = ?vals"
    using at by (auto simp: at_batch_def)
  have nt: "(if hc_null_aware cfg then note_nulls ps ld else Inr ld) = Inr ld'"
    using note_nulls_noted [of ps cfg ld] ready_values [OF ready refl, of pb] ps ld'(1) by (cases "hc_null_aware cfg") simp_all
  have "poll_turn cfg (s\<lparr>hs_output_buffer := lc\<rparr>) =
      handle_state (bind_res (lc_push_batch (hc_coalescer cfg) b lc) (\<lambda>(status, out).
        if False \<and> status = LimitReached
        then bind_res (lc_finish (hc_coalescer cfg) out) (\<lambda>out'. Inr (s\<lparr>hs_output_buffer := out'\<rparr>))
        else Inr ((s\<lparr>hs_build_side := BuildReady ld', hs_state := FetchProbeBatch\<rparr>)\<lparr>hs_output_buffer := out\<rparr>)))"
    if "drained_buffer v lc" for lc
    unfolding poll_drained [OF v that ps(1)] process_probe_batch_def
    using nt iffD1 [OF HOL.de_Morgan_conj ld'(2)] e at b(1) t ps(2) ld'(1) by (auto simp: at_batch_def stream_update)
  from push [OF v rest b(2) this] b(3) show ?thesis by simp
qed

lemma batch_outputs:
  assumes v: "view_ok cfg v" and ready: "join_ready cfg ls rs ji dl"
    and ok: "left_ok ls (hc_hash cfg) dl (ji_null_equality ji) (map fst (ji_on ji)) L ord ld"
    and fit: "batch_fits rs pb" and n: "num_rows pb < 2 ^ 32" and at: "at_batch cfg ji ld pb s"
    and bits: "need_produce_result_in_final (ji_type ji) \<longrightarrow> length (ld_visited ld) = num_rows (ld_batch ld)"
    and ld': "ld' = noted cfg pb (eval_keys (hc_types cfg) (map snd (ji_on ji)) pb) ld" "\<not> null_seen cfg ld'"
    and rest: "Out cfg v (s\<lparr>hs_build_side := BuildReady (batch_done ji ld' ord pb), hs_state := FetchProbeBatch\<rparr>) ys"
  shows "\<exists>xs. Out cfg v s (xs @ ys) \<and> mset xs = mset (probe_rows ji (hc_column_indices cfg) L (rows pb)) \<and>
    (ji_type ji \<notin> {Right, Full} \<longrightarrow> xs = probe_rows ji (hc_column_indices cfg) L (rows pb))"
proof (cases "map_is_empty (ld_map ld) \<and> hc_filter cfg = None")
  case True
  then have "L = []" using map_is_empty_rows [OF ok] by simp
  then have "ord = []" using ok by (simp add: left_ok_def)
  then have "join_pairs ji (ld_batch ld) pb ord = []" by (simp add: join_pairs_def)
  then have "batch_done ji ld' ord pb = ld'" by (simp add: batch_done_def ld'(1))
  with rest empty_build_outputs [OF v ready ok fit at _ _ ld'] True show ?thesis by auto
next
  case ne: False
  let ?cols = "hc_column_indices cfg" and ?bb = "ld_batch ld"
  have cols: "columns_ok ls rs (ji_type ji) (hc_schema cfg) ?cols" and typed: "keys_typed ls rs (ji_on ji) dl (hc_types cfg)"
    and neq: "hc_null_equality cfg = ji_null_equality ji" and bs: "0 < hc_batch_size cfg" "hc_batch_size cfg < 2 ^ 63"
    using ready by (simp_all add: join_ready_def)
  have bb: "batch_fits ls ?bb" "ld_values ld = eval_keys dl (map fst (ji_on ji)) ?bb" "map ((!) (rows ?bb)) ord = L"
    using ok by (simp_all add: left_ok_def)
  let ?vals = "eval_keys (hc_types cfg) (map snd (ji_on ji)) pb"
  obtain outs where dr: "drained (raw_lookup cfg ld (hs_hashes_buffer s) ?vals) (0, None) outs"
    "raw_ok cfg ld (ji_on ji) pb (concat outs)"
    "filter (keys_pair (ji_null_equality ji) (ji_on ji) ?bb pb) (concat outs) = match_pairs (ji_null_equality ji) (ji_on ji) ?bb pb ord"
    using lookup_drained [OF ok [folded neq] typed fit _ bs, of "hs_hashes_buffer s"] n at by (auto simp: at_batch_def neq)
  have lk: "raw_lookup cfg ld' = raw_lookup cfg ld" "\<And>on pb out. raw_ok cfg ld' on pb out = raw_ok cfg ld on pb out"
    by (simp_all add: ld'(1) raw_lookup_def raw_ok_def fun_eq_iff)
  have fit': "batch_fits ls (ld_batch ld')" and vals': "ld_values ld' = eval_keys dl (map fst (ji_on ji)) (ld_batch ld')"
    and ne': "\<not> (map_is_empty (ld_map ld') \<and> hc_filter cfg = None)" and nt: "noted cfg pb ?vals ld' = ld'"
    and same: "ld_batch ld' = ld_batch ld" "ld_visited ld' = ld_visited ld" "noted cfg pb ?vals ld = ld'"
    using bb ne by (simp_all add: ld'(1))
  let ?ms = "map (filter (joins_pair ji ?bb pb)) outs"
  have cat: "concat ?ms = join_pairs ji ?bb pb ord" "filter (joins_pair ji ?bb pb) (concat outs) = join_pairs ji ?bb pb ord"
    using filter_joins_pairs [OF dr(3)] by (simp_all add: filter_concat)
  have ms: "?ms \<noteq> []" using drained_nonempty [OF dr(1)] by simp
  have srt: "sorted (map fst (concat ?ms))" "\<forall>p \<in> fst ` set (concat ?ms). p < num_rows pb"
    unfolding cat by (rule join_pairs_sorted join_pairs_bound)+
  have al: "list_all (chunk_ok (num_rows pb)) (aligned (num_rows pb) None ?ms)"
    using srt by (intro aligned_ok) (simp_all add: row_from_def)
  let ?xs = "concat (map (chunk_out (ji_type ji) (hc_right_side_ordered cfg) ?cols ?bb pb) (aligned (num_rows pb) None ?ms))"
  have "Out cfg v s (?xs @ ys)"
    using chunks_outputs [OF v ready fit' fit vals' refl n ne' dr(1) [folded lk(1)] nt ld'(2), of s _ ld "ld_visited ld" ys]
      at bits dr(2) al rest same by (simp add: at_batch_def cat(2) batch_done_def lk(2))
  moreover have "batch_out (ji_type ji) ?cols ?bb pb (concat ?ms) = probe_rows ji ?cols L (rows pb)"
    unfolding cat using batch_out_eq [OF cols] bb(3) by simp
  ultimately show ?thesis using batch_chunks [OF ms srt n] by (intro exI [of _ ?xs]) simp
qed

end

section \<open>From the first batch to the end\<close>

lemma poll_other:
  assumes "view_ok cfg v" and "drained_buffer v lc"
  shows "hs_state s = WaitBuildSide \<Longrightarrow> poll_turn cfg (s\<lparr>hs_output_buffer := lc\<rparr>) = handle_state (collect_build_side cfg (s\<lparr>hs_output_buffer := lc\<rparr>))"
    and "hs_state s = WaitPartitionBoundsReport \<Longrightarrow>
      poll_turn cfg (s\<lparr>hs_output_buffer := lc\<rparr>) = handle_state (wait_for_partition_bounds_report cfg (s\<lparr>hs_output_buffer := lc\<rparr>))"
    and "hs_state s = FetchProbeBatch \<Longrightarrow> poll_turn cfg (s\<lparr>hs_output_buffer := lc\<rparr>) = handle_state (fetch_probe_batch cfg (s\<lparr>hs_output_buffer := lc\<rparr>))"
    and "hs_state s = ExhaustedProbeSide \<Longrightarrow>
      poll_turn cfg (s\<lparr>hs_output_buffer := lc\<rparr>) = handle_state (process_unmatched_build_batch cfg (s\<lparr>hs_output_buffer := lc\<rparr>))"
  using assms no_batch [OF assms(1), of lc] by (simp_all add: poll_turn_def drained_buffer_def)

lemma final_rows_none: "\<not> need_produce_result_in_final (ji_type ji) \<Longrightarrow> final_rows ji cols L R = []"
  by (cases "ji_type ji") (simp_all add: final_rows_def need_produce_result_in_final_def)

lemma final_outputs:
  assumes v: "view_ok cfg v" and ready: "join_ready cfg ls rs ji dl"
    and ok: "left_ok ls (hc_hash cfg) dl (ji_null_equality ji) (map fst (ji_on ji)) L ord ld"
    and vis: "visited_ok ji (ld_batch ld) R (ld_visited ld)" and th: "ld_threads ld = 1"
    and s: "hs_state s = ExhaustedProbeSide" "hs_build_side s = BuildReady ld" and na: "\<not> hc_null_aware cfg"
  shows "\<exists>xs. outputs cfg v s xs \<and> mset xs = mset (final_rows ji (hc_column_indices cfg) L R)"
proof (cases "need_produce_result_in_final (ji_type ji)")
  case False
  have t: "hc_join_type cfg = ji_type ji" using ready by (simp add: join_ready_def)
  have "outputs cfg v (s\<lparr>hs_state := Completed\<rparr>) []" by (rule outputs_completed [OF v]) simp
  then have "outputs cfg v s []"
    by (rule outputs_step [OF v]) (use poll_other(4) [OF v _ s(1)] False t in \<open>simp add: process_unmatched_build_batch_def\<close>)
  with False show ?thesis by (auto simp: final_rows_none)
next
  case need: True
  let ?cols = "hc_column_indices cfg" and ?pb = "empty_batch rs"
  have ak: "kernels_spec (hc_kernels cfg)" and cols: "columns_ok ls rs (ji_type ji) (hc_schema cfg) ?cols"
    and t: "hc_join_type cfg = ji_type ji" and rs: "hc_right_schema cfg = rs"
    using ready by (simp_all add: join_ready_def)
  have bb: "batch_fits ls (ld_batch ld)" and ord: "distinct ord" "set ord = {..<num_rows (ld_batch ld)}"
    and L: "map ((!) (rows (ld_batch ld))) ord = L" using ok by (simp_all add: left_ok_def)
  have pb: "batch_fits rs ?pb" by (simp add: batch_fits_def empty_batch_def)
  obtain li ri where fin: "get_final_indices_from_bit_map (ld_visited ld) (ji_type ji) True = (li, ri)" by fastforce
  note fp = final_pairs(1) [OF cols need vis ord fin] final_pairs(2) [OF cols need vis ord fin, where pb = ?pb]
    final_pairs(3) [OF cols need vis ord fin, where pb = ?pb, unfolded L]
  obtain b where b: "build_batch_from_indices (hc_kernels cfg) (hc_schema cfg) (ld_batch ld) ?pb li ri ?cols SideLeft (ji_type ji) = Inr b"
    "col_types b = map field_type (schema_fields (hc_schema cfg))" "rows b = map (pair_row ?cols (ld_batch ld) ?pb) (zip li ri)"
    using build_pairs [OF ak cols bb pb fp(1,2)] by blast
  define s' where "s' = s\<lparr>hs_state := Completed, hs_build_side := BuildReady (ld\<lparr>ld_threads := 0\<rparr>)\<rparr>"
  have complete: "outputs cfg v s' []" by (rule outputs_completed [OF v]) (simp add: s'_def)
  have turn: "poll_turn cfg (s\<lparr>hs_output_buffer := lc\<rparr>) =
      (if li = [] then Again (s'\<lparr>hs_output_buffer := lc\<rparr>)
       else handle_state (bind_res (lc_push_batch (hc_coalescer cfg) b lc) (\<lambda>(status, out).
        if True \<and> status = LimitReached
        then bind_res (lc_finish (hc_coalescer cfg) out) (\<lambda>out'. Inr (s'\<lparr>hs_output_buffer := out'\<rparr>))
        else Inr (s'\<lparr>hs_output_buffer := out\<rparr>))))" if "drained_buffer v lc" for lc
    unfolding poll_other(4) [OF v that s(1)] process_unmatched_build_batch_def
    using need t s(2) na rs th b(1) fin
    by (auto simp: Let_def report_probe_completed_def final_indices_def empty_batch_def s'_def wsub_def
        intro!: arg_cong [of _ _ handle_state] bind_res_cong)
  show ?thesis
  proof (cases "li = []")
    case True
    then have "outputs cfg v s []" using turn by (intro outputs_step [OF v complete]) simp
    moreover have "mset (final_rows ji ?cols L R) = {#}" using fp(3) True by simp
    ultimately show ?thesis by auto
  next
    case False
    with turn have "outputs cfg v s (rows b @ [])" by (intro outputs_push [OF v complete b(2), where stop = True and sf = s']) simp
    with fp(3) b(3) show ?thesis by auto
  qed
qed


lemma left_ok_batch_done:
  "left_ok ls hash dl neq on_left L ord ld \<Longrightarrow> left_ok ls hash dl neq on_left L ord (batch_done ji ld ord pb)"
  by (simp add: left_ok_def batch_done_def)

lemma matched_rows_append: "matched_rows ji cols L (R @ R') = matched_rows ji cols L R @ matched_rows ji cols L R'"
  by (simp add: matched_rows_def)

text \<open>The stream once it has fetched a batch.\<close>

definition fetched ::
  "'c stream_config \<Rightarrow> left_data \<Rightarrow> batch \<Rightarrow> batch list \<Rightarrow> 'c hash_join_stream \<Rightarrow> 'c hash_join_stream" where
  "fetched cfg ld pb rbs s = s\<lparr>hs_right := map Inr rbs,
     hs_hashes_buffer := (case ld_map ld of
         HashMap m \<Rightarrow> create_hashes (hc_hash cfg) (hc_on_right cfg) pb | ArrayMap am \<Rightarrow> hs_hashes_buffer s),
     hs_state := ProcessProbeBatch \<lparr>ps_batch = pb, ps_values = eval_keys (hc_types cfg) (hc_on_right cfg) pb,
       ps_offset = (0, None), ps_joined_probe_idx = None\<rparr>\<rparr>"

lemma fetched_at:
  assumes "join_ready cfg ls rs ji dl" and "hs_build_side s = BuildReady ld"
  shows "at_batch cfg ji ld pb (fetched cfg ld pb rbs s)"
  using assms by (simp add: at_batch_def fetched_def join_ready_def)

context turn_logic
begin

lemma fetch_step:
  assumes v: "view_ok cfg v" and s: "hs_state s = FetchProbeBatch" "hs_build_side s = BuildReady ld" "hs_right s = map Inr (pb # rbs)"
    and xs: "Out cfg v (fetched cfg ld pb rbs s) xs"
  shows "Out cfg v s xs"
  by (rule turn [OF v xs], cases "ld_map ld")
     (use poll_other(3) [OF v _ s(1)] s(2,3) in \<open>simp_all add: fetch_probe_batch_def fetched_def stream_fetch\<close>)

text \<open>
  The probe side as a whole, up to the state in which it is exhausted: it outputs the rows
  that each batch contributes, and the bitmap then tells which build rows were joined.
\<close>

lemma probe_side_outputs:
  assumes v: "view_ok cfg v" and ready: "join_ready cfg ls rs ji dl"
    and right: "list_all (batch_fits rs) rbs" "list_all (\<lambda>b. num_rows b < 2 ^ 32) rbs"
    and ok: "left_ok ls (hc_hash cfg) dl (ji_null_equality ji) (map fst (ji_on ji)) L ord ld"
    and vis: "visited_ok ji (ld_batch ld) R (ld_visited ld)" and na: "\<not> hc_null_aware cfg"
    and s: "hs_state s = FetchProbeBatch" "hs_build_side s = BuildReady ld" "hs_right s = map Inr rbs"
    and fin: "\<And>s' bits. \<lbrakk>hs_state s' = ExhaustedProbeSide; hs_build_side s' = BuildReady (ld\<lparr>ld_visited := bits\<rparr>);
      length bits = length (ld_visited ld); visited_ok ji (ld_batch ld) (R @ flat_rows rbs) bits\<rbrakk> \<Longrightarrow> \<exists>ys. Out cfg v s' ys \<and> F ys"
  shows "\<exists>xs ys. Out cfg v s (xs @ ys) \<and> F ys \<and> mset xs = mset (probe_rows ji (hc_column_indices cfg) L (flat_rows rbs)) \<and>
    (ji_type ji = Inner \<longrightarrow> xs = matched_rows ji (hc_column_indices cfg) L (flat_rows rbs))"
  using right ok vis na s fin
proof (induction rbs arbitrary: ld R s)
  case Nil
  let ?s = "s\<lparr>hs_state := ExhaustedProbeSide\<rparr>"
  obtain ys where ys: "Out cfg v ?s ys" "F ys"
    using Nil.prems(9) [of ?s "ld_visited ld"] Nil.prems(4,7) by auto
  have "Out cfg v s ys"
    by (rule turn [OF v ys(1)]) (use poll_other(3) [OF v _ Nil.prems(6)] Nil.prems(8) in \<open>simp add: fetch_probe_batch_def\<close>)
  then show ?case using ys(2) by (intro exI [of _ "[]"] exI [of _ ys]) (simp add: matched_rows_def)
next
  case (Cons pb rbs)
  let ?cols = "hc_column_indices cfg" and ?ld = "batch_done ji ld ord pb"
  define s1 where "s1 = fetched cfg ld pb rbs s"
  let ?s2 = "s1\<lparr>hs_build_side := BuildReady ?ld, hs_state := FetchProbeBatch\<rparr>"
  have at: "at_batch cfg ji ld pb s1" unfolding s1_def by (rule fetched_at [OF ready Cons.prems(7)])
  have pb: "batch_fits rs pb" "num_rows pb < 2 ^ 32" "list_all (batch_fits rs) rbs" "list_all (\<lambda>b. num_rows b < 2 ^ 32) rbs"
    using Cons.prems(1,2) by simp_all
  have ord: "set ord = {..<num_rows (ld_batch ld)}" using Cons.prems(3) by (simp add: left_ok_def)
  have vis': "visited_ok ji (ld_batch ?ld) (R @ rows pb) (ld_visited ?ld)"
    using visited_ok_step [OF Cons.prems(4) ord] by (simp add: batch_done_def)
  have fin': "\<exists>ys. Out cfg v s' ys \<and> F ys" if "hs_state s' = ExhaustedProbeSide" "hs_build_side s' = BuildReady (?ld\<lparr>ld_visited := bits\<rparr>)"
    "length bits = length (ld_visited ?ld)" "visited_ok ji (ld_batch ?ld) ((R @ rows pb) @ flat_rows rbs) bits" for s' bits
    using Cons.prems(9) [of s' bits] that by (simp add: batch_done_def mark_visited_def)
  obtain zs ys where ys: "Out cfg v ?s2 (zs @ ys)" "F ys" "mset zs = mset (probe_rows ji ?cols L (flat_rows rbs))"
    "ji_type ji = Inner \<longrightarrow> zs = matched_rows ji ?cols L (flat_rows rbs)"
    using Cons.IH [OF pb(3,4) left_ok_batch_done [OF Cons.prems(3)] vis' Cons.prems(5), of ?s2] fin'
    by (auto simp: s1_def fetched_def)
  have bits: "need_produce_result_in_final (ji_type ji) \<longrightarrow> length (ld_visited ld) = num_rows (ld_batch ld)"
    using Cons.prems(4) by (simp add: visited_ok_def)
  obtain xs where xs: "Out cfg v s1 (xs @ zs @ ys)" "mset xs = mset (probe_rows ji ?cols L (rows pb))"
    "ji_type ji \<notin> {Right, Full} \<longrightarrow> xs = probe_rows ji ?cols L (rows pb)"
    using batch_outputs [OF v ready Cons.prems(3) pb(1,2) at bits, of ld] ys(1) Cons.prems(5) by auto
  have "Out cfg v s ((xs @ zs) @ ys)" using fetch_step [OF v Cons.prems(6,7,8) xs(1) [unfolded s1_def]] by simp
  moreover have "ji_type ji = Inner \<Longrightarrow> xs @ zs = matched_rows ji ?cols L (flat_rows (pb # rbs))"
    using xs(3) ys(4) by (simp add: probe_rows_def matched_rows_append)
  ultimately show ?case using xs(2) ys(2,3) by (intro exI [of _ "xs @ zs"] exI [of _ ys]) (simp add: probe_rows_append)
qed

text \<open>The whole stream, once the build side is collected.\<close>

lemma start_outputs:
  assumes v: "view_ok cfg v" and report: "hc_report cfg = None \<or> hc_report cfg = Some (Inr ())"
    and s: "hs_state s = WaitBuildSide" "hs_build_side s = BuildInitial (Inr ld)"
    and xs: "Out cfg v (s\<lparr>hs_state := FetchProbeBatch, hs_build_side := BuildReady ld\<rparr>) xs"
  shows "Out cfg v s xs"
proof (cases "hc_report cfg")
  case None
  show ?thesis
    by (rule turn [OF v xs]) (use poll_other(1) [OF v _ s(1)] s(2) None in \<open>simp add: collect_build_side_def stream_wait\<close>)
next
  case (Some r)
  then have r: "hc_report cfg = Some (Inr ())" using report by auto
  let ?s1 = "s\<lparr>hs_state := WaitPartitionBoundsReport, hs_build_side := BuildReady ld\<rparr>"
  have "Out cfg v ?s1 xs"
    by (rule turn [OF v xs])
       (use poll_other(2) [OF v, of _ ?s1] r in \<open>simp add: wait_for_partition_bounds_report_def stream_wait\<close>)
  then show ?thesis
    by (rule turn [OF v]) (use poll_other(1) [OF v _ s(1)] s(2) r in \<open>simp add: collect_build_side_def stream_wait\<close>)
qed

end

lemma fetch_outputs:
  assumes v: "view_ok cfg v" and ready: "join_ready cfg ls rs ji dl"
    and right: "list_all (batch_fits rs) rbs" "list_all (\<lambda>b. num_rows b < 2 ^ 32) rbs"
    and ok: "left_ok ls (hc_hash cfg) dl (ji_null_equality ji) (map fst (ji_on ji)) L ord ld"
    and vis: "visited_ok ji (ld_batch ld) R (ld_visited ld)" and th: "ld_threads ld = 1" and na: "\<not> hc_null_aware cfg"
    and s: "hs_state s = FetchProbeBatch" "hs_build_side s = BuildReady ld" "hs_right s = map Inr rbs"
  shows "\<exists>xs. outputs cfg v s xs \<and>
    mset xs = mset (probe_rows ji (hc_column_indices cfg) L (flat_rows rbs)) + mset (final_rows ji (hc_column_indices cfg) L (R @ flat_rows rbs)) \<and>
    (ji_type ji = Inner \<longrightarrow> xs = matched_rows ji (hc_column_indices cfg) L (flat_rows rbs))"
proof -
  let ?F = "\<lambda>ys. mset ys = mset (final_rows ji (hc_column_indices cfg) L (R @ flat_rows rbs))"
  have "\<exists>ys. outputs cfg v s' ys \<and> ?F ys"
    if "hs_state s' = ExhaustedProbeSide" "hs_build_side s' = BuildReady (ld\<lparr>ld_visited := bits\<rparr>)"
      "visited_ok ji (ld_batch ld) (R @ flat_rows rbs) bits" for s' bits
    by (rule final_outputs [OF v ready _ _ _ that(1,2) na, where ord = ord]) (use ok th that(3) in \<open>simp_all add: left_ok_def\<close>)
  then obtain xs ys where "outputs cfg v s (xs @ ys)" "?F ys" "mset xs = mset (probe_rows ji (hc_column_indices cfg) L (flat_rows rbs))"
    "ji_type ji = Inner \<longrightarrow> xs = matched_rows ji (hc_column_indices cfg) L (flat_rows rbs)"
    using outs.probe_side_outputs [OF v ready right ok vis na s, of ?F] by blast
  then show ?thesis by (intro exI [of _ "xs @ ys"]) (auto simp: final_rows_def)
qed

lemma stream_outputs:
  assumes v: "view_ok cfg v" and ready: "join_ready cfg ls rs ji dl"
    and right: "list_all (batch_fits rs) rbs" "list_all (\<lambda>b. num_rows b < 2 ^ 32) rbs"
    and ok: "left_ok ls (hc_hash cfg) dl (ji_null_equality ji) (map fst (ji_on ji)) L ord ld"
    and vis: "visited_ok ji (ld_batch ld) [] (ld_visited ld)" and th: "ld_threads ld = 1" and na: "\<not> hc_null_aware cfg"
    and s: "hs_state s = WaitBuildSide" "hs_build_side s = BuildInitial (Inr ld)" "hs_right s = map Inr rbs"
  shows "\<exists>xs. outputs cfg v s xs \<and> mset xs = mset (join_rows ji (hc_column_indices cfg) L (flat_rows rbs)) \<and>
    (ji_type ji = Inner \<longrightarrow> xs = matched_rows ji (hc_column_indices cfg) L (flat_rows rbs))"
proof -
  let ?s2 = "s\<lparr>hs_state := FetchProbeBatch, hs_build_side := BuildReady ld\<rparr>"
  obtain xs where xs: "outputs cfg v ?s2 xs"
    "mset xs = mset (join_rows ji (hc_column_indices cfg) L (flat_rows rbs))"
    "ji_type ji = Inner \<longrightarrow> xs = matched_rows ji (hc_column_indices cfg) L (flat_rows rbs)"
    using fetch_outputs [OF v ready right ok vis th na, of ?s2] s(3) by (auto simp: join_rows_split)
  have "hc_report cfg = None \<or> hc_report cfg = Some (Inr ())" using ready by (simp add: join_ready_def)
  from outs.start_outputs [OF v this s(1,2) xs(1)] xs(2,3) show ?thesis by blast
qed

end
