(* ===== verification/HashJoinSound.thy ===== *)
theory HashJoinSound
  imports HashJoinProps
begin

text \<open>
  \<open>HashJoinExec::execute\<close> from its inputs to the rows it yields: soundness against the
  specification of a join for every join type, and success of the build side when memory is
  granted.
\<close>

section \<open>Setting up the operator\<close>

text \<open>
  What the operator takes from its surroundings: Arrow's kernels and coalescer behave as
  documented, the keys have one type on both sides, the filter computes the filter of the
  join, the projection is within the schema, the batch size is positive, and reporting the
  build side to dynamic filters, if there are any, succeeds.
\<close>

definition join_setup ::
  "('p, 'c) task_context \<Rightarrow> 'c buffer_view \<Rightarrow> join_info \<Rightarrow> join_filter option \<Rightarrow> join_input \<Rightarrow> join_input \<Rightarrow> bool" where
  "join_setup ctx v ji jf left right \<longleftrightarrow>
     kernels_spec (be_kernels (tx_env ctx)) \<and>
     coalescer_spec (tx_coalescer ctx) (bv_types v) (bv_completed v) (bv_held v) \<and>
     keys_typed (in_schema left) (in_schema right) (ji_on ji) (be_types (tx_env ctx)) (be_types (tx_env ctx)) \<and>
     filter_ok (in_schema left) (in_schema right) ji jf \<and>
     can_project (fst (build_join_schema (in_schema left) (in_schema right) (ji_type ji))) (ji_projection ji) = Inr () \<and>
     0 < tx_batch_size ctx \<and> tx_batch_size ctx < 2 ^ 63 \<and> (tx_report ctx = None \<or> tx_report ctx = Some (Inr ()))"

text \<open>Inputs of the operator: batches of their schemas, no more rows than indices can name.\<close>

definition join_inputs :: "join_input \<Rightarrow> join_input \<Rightarrow> batch list \<Rightarrow> batch list \<Rightarrow> bool" where
  "join_inputs left right lbs rbs \<longleftrightarrow>
     list_all (batch_fits (in_schema left)) lbs \<and> list_all (batch_fits (in_schema right)) rbs \<and>
     length (flat_rows lbs) < usize_mod \<and> list_all (\<lambda>b. num_rows b < 2 ^ 32) rbs"

text \<open>The partition of the left input a stream reads, and the only stream over a build side.\<close>

definition left_partition :: "join_info \<Rightarrow> nat \<Rightarrow> nat" where
  "left_partition ji part_idx = (if ji_mode ji = CollectLeft then 0 else part_idx)"

definition sole_stream :: "join_info \<Rightarrow> join_input \<Rightarrow> bool" where
  "sole_stream ji right \<longleftrightarrow> (ji_mode ji = CollectLeft \<longrightarrow> in_partitions right = 1)"

lemma projected_columns_ok:
  assumes "projected_columns (ji_projection ji) (snd (build_join_schema ls rs (ji_type ji))) = Inr cols"
  shows "cols = output_columns ji ls rs"
proof (cases "ji_projection ji")
  case (Some "is")
  let ?c = "snd (build_join_schema ls rs (ji_type ji))"
  have eq: "map (\<lambda>i. if i < length ?c then Inr (?c ! i) else Inl IndexOutOfBounds) is = map Inr cols"
    using assms Some by (simp add: projected_columns_def collect_res_Inr_iff)
  have len: "length is = length cols" using arg_cong [OF eq, of length] by simp
  have "cols ! k = ?c ! (is ! k)" if "k < length is" for k
    using arg_cong [OF eq, of "\<lambda>xs. xs ! k"] that len by (auto split: if_splits)
  then have "cols = map (\<lambda>i. ?c ! i) is" using len by (intro nth_equalityI) simp_all
  then show ?thesis using Some by (simp add: output_columns_def)
qed (use assms in \<open>simp add: projected_columns_def output_columns_def\<close>)

lemma start_collect_ok:
  assumes "start_collect ctx ji left n i threads = Inr fut" and "in_execute left i = Inr left_stream"
  shows "\<exists>c. fut = bind_res (collect_left_input (tx_env ctx) (in_schema left) left_stream (map fst (ji_on ji))
           (need_produce_result_in_final (ji_type ji)) threads (ji_null_equality ji)
           (consumer_register (be_pool (tx_env ctx)) c (tx_pool ctx))) (\<lambda>(ld, mem'). Inr ld)"
  using assms by (intro exI [of _ "fst (consumer_new n (tx_next_id ctx))"]) (simp add: start_collect_def Let_def case_prod_unfold)

lemma execute_parts:
  assumes "hash_join_execute ctx ji jf left right part_idx = Inr (cfg, s)"
    and "in_execute left (left_partition ji part_idx) = Inr left_stream" and "in_execute right part_idx = Inr right_stream"
  obtains fut c threads where
    "cfg = execute_config ctx ji jf left right (output_columns ji (in_schema left) (in_schema right))"
    and "s = stream_new cfg fut right_stream (ji_fetch ji)"
    and "fut = bind_res (collect_left_input (tx_env ctx) (in_schema left) left_stream (map fst (ji_on ji))
           (need_produce_result_in_final (ji_type ji)) threads (ji_null_equality ji)
           (consumer_register (be_pool (tx_env ctx)) c (tx_pool ctx))) (\<lambda>(ld, mem'). Inr ld)"
    and "sole_stream ji right \<Longrightarrow> threads = 1"
proof -
  obtain fut cols where f: "left_future ctx ji left right part_idx = Inr fut"
    "projected_columns (ji_projection ji) (snd (build_join_schema (in_schema left) (in_schema right) (ji_type ji))) = Inr cols"
    "cfg = execute_config ctx ji jf left right cols" "s = stream_new cfg fut right_stream (ji_fetch ji)"
    using assms(1,3) by (auto simp: hash_join_execute_def Let_def split: if_splits)
  obtain c threads where "fut = bind_res (collect_left_input (tx_env ctx) (in_schema left) left_stream (map fst (ji_on ji))
           (need_produce_result_in_final (ji_type ji)) threads (ji_null_equality ji)
           (consumer_register (be_pool (tx_env ctx)) c (tx_pool ctx))) (\<lambda>(ld, mem'). Inr ld)"
    "sole_stream ji right \<longrightarrow> threads = 1"
    using f(1) assms(2)
    by (cases "ji_mode ji") (auto simp: left_future_def left_partition_def sole_stream_def dest: start_collect_ok)
  with f projected_columns_ok [OF f(2)] that show thesis by blast
qed

lemma execute_ready:
  assumes "join_setup ctx v ji jf left right"
    and "ji_null_aware ji \<longrightarrow> ji_type ji = LeftAnti \<and> length (ji_on ji) = 1 \<and> jf = None"
    and "cfg = execute_config ctx ji jf left right (output_columns ji (in_schema left) (in_schema right))"
  shows "view_ok cfg v" and "join_ready cfg (in_schema left) (in_schema right) ji (be_types (tx_env ctx))"
proof -
  show "view_ok cfg v" using assms(1,3) by (simp add: view_ok_def join_setup_def execute_config_def)
  have "columns_ok (in_schema left) (in_schema right) (ji_type ji) (hash_join_schema ji (in_schema left) (in_schema right))
      (output_columns ji (in_schema left) (in_schema right))"
    using output_columns_valid assms(1) unfolding columns_ok_def join_setup_def by blast
  then show "join_ready cfg (in_schema left) (in_schema right) ji (be_types (tx_env ctx))"
    using assms by (simp add: join_ready_def join_setup_def execute_config_def)
qed


section \<open>The rows of a hash join\<close>

lemma new_buffer:
  assumes "view_ok cfg v" and "lc = lc_new (hc_coalescer cfg) (hc_schema cfg) (hc_batch_size cfg) fetch"
    and "\<And>f. fetch = Some f \<Longrightarrow> f + n < usize_mod"
  shows "buffer_ok cfg v lc n" and "buffered v lc = []" and "take_room lc (xs :: row list) = take_fetch fetch xs"
  using assms by (auto simp: view_ok_def coalescer_spec_def lc_new_def buffer_ok_def fits_def buffered_def lc_rows_def
      take_room_def take_fetch_def flat_rows_def split: option.split)

lemma build_error_runs:
  assumes v: "view_ok cfg v" and s: "s = stream_new cfg (Inl e) right fetch"
  shows "run_stream cfg s = Some [Inl e]"
proof -
  let ?lc = "lc_new (hc_coalescer cfg) (hc_schema cfg) (hc_batch_size cfg) fetch"
  have "bv_completed v (lc_inner ?lc) = []" using v by (simp add: view_ok_def coalescer_spec_def lc_new_def)
  from no_batch [OF v this] have "poll_turn cfg s = Fail e"
    by (simp add: poll_turn_def s stream_new_def lc_new_def collect_build_side_def)
  then show ?thesis by (subst run_stream.simps) simp
qed

text \<open>The state from which the stream starts, once the build side is collected.\<close>

lemma collected_state:
  assumes su: "join_setup ctx v ji jf left right" and inputs: "join_inputs left right lbs rbs"
    and c: "collect_left_input (tx_env ctx) (in_schema left) (map Inr lbs) (map fst (ji_on ji))
           (need_produce_result_in_final (ji_type ji)) threads (ji_null_equality ji) mem = Inr (ld, mem')"
  obtains ord where
    "left_ok (in_schema left) (be_hash (tx_env ctx)) (be_types (tx_env ctx)) (ji_null_equality ji) (map fst (ji_on ji)) (flat_rows lbs) ord ld"
    and "visited_ok ji (ld_batch ld) [] (ld_visited ld)" and "ld_threads ld = threads" and "\<not> ld_non_empty ld" and "\<not> ld_has_null ld"
proof -
  have typed: "typed_cell (be_types (tx_env ctx) e) (eval_pexpr e r)" if "e \<in> set (map fst (ji_on ji))" "row_fits (in_schema left) r" for e r
    using su that by (auto simp: join_setup_def keys_typed_def)
  have l: "list_all (batch_fits (in_schema left)) lbs" "length (flat_rows lbs) < usize_mod" and ak: "kernels_spec (be_kernels (tx_env ctx))"
    using inputs su by (simp_all add: join_inputs_def join_setup_def)
  note col = collect_left_ok [OF ak l typed c]
  obtain ord where ok: "left_ok (in_schema left) (be_hash (tx_env ctx)) (be_types (tx_env ctx)) (ji_null_equality ji) (map fst (ji_on ji))
      (flat_rows lbs) ord ld" using col(1) by blast
  have o: "flat_rows lbs = map ((!) (rows (ld_batch ld))) ord" "distinct ord" "set ord = {..<num_rows (ld_batch ld)}"
    using ok by (simp_all add: left_ok_def)
  have "length (flat_rows lbs) = num_rows (ld_batch ld)" using distinct_card [OF o(2)] by (simp add: o(1,3))
  then have vis: "visited_ok ji (ld_batch ld) [] (ld_visited ld)" using col(2) by (simp add: visited_ok_def left_joined_def)
  have "\<not> ld_non_empty ld" "\<not> ld_has_null ld"
    using c by (auto simp: collect_left_input_def split: prod.splits)
  with that ok vis col(3) show thesis by blast
qed

text \<open>From the rows a stream outputs to the batches it yields.\<close>

lemma outputs_batches:
  assumes v: "view_ok cfg v" and xs: "outputs cfg v (stream_new cfg b right fetch) xs"
    and fetch: "\<And>f. fetch = Some f \<Longrightarrow> f + length xs < usize_mod"
  shows "\<exists>bs. run_stream cfg (stream_new cfg b right fetch) = Some (map Inr bs) \<and> flat_rows bs = take_fetch fetch xs"
proof -
  let ?s = "stream_new cfg b right fetch"
  let ?lc = "lc_new (hc_coalescer cfg) (hc_schema cfg) (hc_batch_size cfg) fetch"
  note nb = new_buffer [OF v refl, of fetch "length xs"]
  have "runs cfg (?s\<lparr>hs_output_buffer := ?lc\<rparr>) (buffered v ?lc @ take_room ?lc xs)"
    using xs nb(1) fetch by (simp add: outputs_def)
  moreover have "?s\<lparr>hs_output_buffer := ?lc\<rparr> = ?s" by (simp add: stream_new_def)
  ultimately have "runs cfg ?s (take_fetch fetch xs)" using nb(2,3) fetch by simp
  then show ?thesis unfolding runs_def by blast
qed

lemma hash_join_runs:
  assumes su: "join_setup ctx v ji jf left right" and na: "\<not> ji_null_aware ji"
    and cfg: "cfg = execute_config ctx ji jf left right (output_columns ji (in_schema left) (in_schema right))"
    and inputs: "join_inputs left right lbs rbs"
    and c: "collect_left_input (tx_env ctx) (in_schema left) (map Inr lbs) (map fst (ji_on ji))
           (need_produce_result_in_final (ji_type ji)) 1 (ji_null_equality ji) mem = Inr (ld, mem')"
    and fetch: "\<And>f. ji_fetch ji = Some f \<Longrightarrow>
      f + length (join_rows ji (output_columns ji (in_schema left) (in_schema right)) (flat_rows lbs) (flat_rows rbs)) < usize_mod"
  shows "\<exists>bs xs. run_stream cfg (stream_new cfg (Inr ld) (map Inr rbs) (ji_fetch ji)) = Some (map Inr bs)
    \<and> flat_rows bs = take_fetch (ji_fetch ji) xs
    \<and> mset xs = mset (join_rows ji (output_columns ji (in_schema left) (in_schema right)) (flat_rows lbs) (flat_rows rbs))
    \<and> (ji_type ji = Inner \<longrightarrow> xs = matched_rows ji (output_columns ji (in_schema left) (in_schema right)) (flat_rows lbs) (flat_rows rbs))"
proof -
  note ready = execute_ready [OF su _ cfg]
  have na': "\<not> hc_null_aware cfg" using na by (simp add: cfg execute_config_def)
  let ?s = "stream_new cfg (Inr ld) (map Inr rbs) (ji_fetch ji)"
  have hash: "hc_hash cfg = be_hash (tx_env ctx)" and cols: "hc_column_indices cfg = output_columns ji (in_schema left) (in_schema right)"
    by (simp_all add: cfg execute_config_def)
  have r: "list_all (batch_fits (in_schema right)) rbs" "list_all (\<lambda>b. num_rows b < 2 ^ 32) rbs"
    using inputs by (simp_all add: join_inputs_def)
  obtain ord where ok: "left_ok (in_schema left) (be_hash (tx_env ctx)) (be_types (tx_env ctx)) (ji_null_equality ji) (map fst (ji_on ji))
      (flat_rows lbs) ord ld" "visited_ok ji (ld_batch ld) [] (ld_visited ld)" "ld_threads ld = 1"
    using collected_state [OF su inputs c] by blast
  obtain xs where xs: "outputs cfg v ?s xs"
    "mset xs = mset (join_rows ji (hc_column_indices cfg) (flat_rows lbs) (flat_rows rbs))"
    "ji_type ji = Inner \<longrightarrow> xs = matched_rows ji (hc_column_indices cfg) (flat_rows lbs) (flat_rows rbs)"
    using stream_outputs [OF ready(1) ready(2) r ok(1) [folded hash] ok(2,3) na', of ?s] na by (auto simp: stream_new_def)
  have "length xs = length (join_rows ji (hc_column_indices cfg) (flat_rows lbs) (flat_rows rbs))"
    using xs(2) by (metis size_mset)
  with outputs_batches [OF ready(1) xs(1)] fetch xs(2,3) na show ?thesis unfolding cols by auto
qed


section \<open>Success of the build side\<close>

text \<open>A pool that grants every request.\<close>

definition grants :: "'p build_env \<Rightarrow> bool" where
  "grants env \<longleftrightarrow> (\<forall>n mem. \<exists>mem'. try_grow_mem env n mem = Inr mem')"

lemma grantsE:
  assumes "grants env"
  obtains mem' where "try_grow_mem env n mem = Inr mem'"
  using assms that unfolding grants_def by blast

lemma next_power_of_two_bound: "next_power_of_two n \<le> (if n \<le> 1 then 1 else 2 * n - 2)"
proof (induction n rule: next_power_of_two.induct)
  case (1 n)
  show ?case
  proof (cases "n \<le> 1")
    case False
    then have "next_power_of_two n = 2 * next_power_of_two ((n + 1) div 2)" by (subst next_power_of_two.simps) simp
    with 1 [OF False] False show ?thesis by (auto split: if_splits)
  qed (subst next_power_of_two.simps, simp)
qed

lemma estimate_table_size_ok:
  assumes "n < 2 ^ 57" and "fixed < 2 ^ 62"
  shows "\<exists>sz. estimate_table_size 16 n fixed = Inr sz"
proof -
  define k where "k = next_power_of_two (8 * n div 7)"
  have "k \<le> 2 * (8 * n div 7) + 1" using next_power_of_two_bound [of "8 * n div 7"] by (simp add: k_def split: if_splits)
  also have "\<dots> \<le> 3 * n + 1" by simp
  finally have k: "k \<le> 3 * 2 ^ 57" using assms(1) by simp
  then have "16 * k + k + fixed < usize_mod" using assms(2) by (simp add: usize_mod_def)
  moreover have "8 * n < usize_mod" using assms(1) by (simp add: usize_mod_def)
  ultimately show ?thesis
    by (simp add: estimate_table_size_def checked_mul_def checked_add_def k_def [symmetric] mult.commute [of n] Let_def)
qed

lemma collect_batches_succeeds:
  assumes "grants env"
  shows "\<exists>mem'. collect_batches env (map Inr bs) acc mem = Inr (acc @ bs, mem')"
proof (induction bs arbitrary: acc mem)
  case (Cons b bs)
  obtain mem1 where "try_grow_mem env (be_batch_size env b) mem = Inr mem1" by (rule grantsE [OF assms])
  with Cons.IH [of "acc @ [b]" mem1] show ?case by auto
qed simp


lemma build_hash_map_succeeds:
  assumes ak: "kernels_spec (be_kernels env)" and fit: "list_all (batch_fits ls) bs" and g: "grants env"
    and small: "length (flat_rows bs) < 2 ^ 57" and fixed: "be_fixed_u32 env < 2 ^ 62" "be_fixed_u64 env < 2 ^ 62"
  shows "\<exists>r mem'. build_hash_map env ls bs on_left mem = Inr (r, mem')"
proof -
  let ?n = "length (flat_rows bs)"
  define bound :: nat where "bound = (if 2 ^ 32 - 1 < ?n then 2 ^ 64 else 2 ^ 32)"
  have fit': "list_all (batch_fits ls) (rev bs)" using fit by simp
  have len: "length (flat_rows (rev bs)) = ?n" by (induction bs) auto
  have inv0: "hm_inv [] (with_capacity bound ?n)"
    using small by (intro hm_inv_with_capacity) (auto simp: bound_def usize_mod_def)
  obtain jm where jm: "insert_batches env on_left (rev bs) 0 (with_capacity bound ?n) = Inr jm"
    using insert_batches_ok [OF inv0, of 0 "rev bs" env on_left] len by (auto simp: with_capacity_def)
  obtain sz where sz: "estimate_table_size 16 ?n (if 2 ^ 32 - 1 < ?n then be_fixed_u64 env else be_fixed_u32 env) = Inr sz"
    using estimate_table_size_ok [OF small] fixed by (metis (full_types))
  obtain mem' where mem': "try_grow_mem env sz mem = Inr mem'" by (rule grantsE [OF g])
  show ?thesis
    unfolding build_hash_map_def Let_def sz bind_res.simps mem' jm [unfolded bound_def] kernel_concat_batches [OF ak fit'] by blast
qed

lemma try_create_array_map_succeeds:
  assumes ak: "kernels_spec (be_kernels env)" and fit: "list_all (batch_fits ls) bs" and g: "grants env"
    and typed: "\<And>e r. e \<in> set on_left \<Longrightarrow> row_fits ls r \<Longrightarrow> typed_cell (be_types env e) (eval_pexpr e r)"
  shows "\<exists>r mem'. try_create_array_map env ls bs on_left neq mem = Inr (r, mem')"
proof (cases "\<exists>e. on_left = [e] \<and> is_supported_type (be_types env e)")
  case False
  then have "length on_left \<noteq> 1 \<or> \<not> should_collect_min_max_for_perfect_hash env on_left"
    by (cases on_left rule: list.exhaust) (auto simp: should_collect_min_max_for_perfect_hash_def split: list.splits)
  then show ?thesis by (auto simp: try_create_array_map_def Let_def)
next
  case True
  then obtain e where e: "on_left = [e]" "is_supported_type (be_types env e)" by blast
  let ?B = "\<lparr>col_types = map field_type (schema_fields ls), rows = flat_rows bs\<rparr>"
  define cs where "cs = map (eval_pexpr e) (flat_rows bs)"
  have cells: "on_left_cells [e] bs = cs" and num: "length cs = length (flat_rows bs)"
    and ev: "eval_keys (be_types env) [e] ?B = [(be_types env e, cs)]"
    by (simp_all add: on_left_cells_def cs_def eval_keys_def)
  show ?thesis
  proof (cases "key_bounds cs")
    case None
    then show ?thesis by (simp add: try_create_array_map_def Let_def e(1) cells)
  next
    case (Some lh)
    obtain lo hi where bd: "key_bounds cs = Some (lo, hi)" using Some by (cases lh) simp
    have built: "\<exists>am. array_map_try_new (be_types env e, cs) (as_usize lo) (as_usize hi) = Inr am"
      if "length cs < 2 ^ 32" "calculate_range (as_usize lo) (as_usize hi) \<noteq> usize_max"
      using array_map_try_new_ok [OF bounded_keys(1) [OF fit _ e(2) cs_def bd that(2)] e(2) that(1)]
        bounded_keys(2) [OF fit _ e(2) cs_def bd that(2)] typed [of e] e(1) by auto
    obtain mem' where mem': "try_grow_mem env (estimate_memory_size (as_usize lo) (as_usize hi) (length cs)) mem = Inr mem'"
      by (rule grantsE [OF g])
    show ?thesis
      using built mem' kernel_concat_batches [OF ak fit] bd
      by (auto simp: try_create_array_map_def Let_def e(1) cells ev num)
  qed
qed


lemma collect_left_succeeds:
  assumes ak: "kernels_spec (be_kernels env)" and fit: "list_all (batch_fits ls) bs" and g: "grants env"
    and typed: "\<And>e r. e \<in> set on_left \<Longrightarrow> row_fits ls r \<Longrightarrow> typed_cell (be_types env e) (eval_pexpr e r)"
    and small: "length (flat_rows bs) < 2 ^ 57" and fixed: "be_fixed_u32 env < 2 ^ 62" "be_fixed_u64 env < 2 ^ 62"
  shows "\<exists>ld mem'. collect_left_input env ls (map Inr bs) on_left with_bitmap threads neq mem = Inr (ld, mem')
    \<and> mset (rows (ld_batch ld)) = mset (flat_rows bs)"
proof -
  obtain mem1 where c: "collect_batches env (map Inr bs) [] mem = Inr (bs, mem1)"
    using collect_batches_succeeds [OF g, of bs "[]" mem] by auto
  obtain dense mem2 where d: "try_create_array_map env ls bs on_left neq mem1 = Inr (dense, mem2)"
    using try_create_array_map_succeeds [OF ak fit g typed] by blast
  obtain m b vs mem3 where t: "(case dense of Some (am, b, left_values) \<Rightarrow> Inr ((ArrayMap am, b, left_values), mem2)
        | None \<Rightarrow> build_hash_map env ls bs on_left mem2) = Inr ((m, b, vs), mem3)"
    using build_hash_map_succeeds [OF ak fit g small fixed, of on_left mem2] by (cases dense; cases mem2) auto
  obtain mem5 where "try_grow_mem env ((num_rows b + 7) div 8) mem3 = Inr mem5" by (rule grantsE [OF g])
  then have "\<exists>mem4. (if with_bitmap then try_grow_mem env ((num_rows b + 7) div 8) mem3 else Inr mem3) = Inr mem4" by simp
  then obtain ld mem4 where ld: "collect_left_input env ls (map Inr bs) on_left with_bitmap threads neq mem = Inr (ld, mem4)"
    unfolding collect_left_input_def c bind_res.simps prod.case d t by auto
  obtain ord where "left_ok ls (be_hash env) (be_types env) neq on_left (flat_rows bs) ord ld"
    using collect_left_ok(1) [OF ak fit _ typed ld] small by (auto simp: usize_mod_def)
  then have o: "flat_rows bs = map ((!) (rows (ld_batch ld))) ord" "distinct ord" "set ord = {..<num_rows (ld_batch ld)}"
    by (simp_all add: left_ok_def)
  have "mset ord = mset [0..<num_rows (ld_batch ld)]"
    using o(2,3) by (metis atLeast_upt distinct_upt set_eq_iff_mset_eq_distinct)
  then have "mset (flat_rows bs) = mset (map ((!) (rows (ld_batch ld))) [0..<num_rows (ld_batch ld)])" by (simp add: o(1))
  then have "mset (rows (ld_batch ld)) = mset (flat_rows bs)" by (simp only: num_rows_def map_nth)
  with ld show ?thesis by blast
qed


text \<open>A memory pool that grants every request, for tables whose size can be computed.\<close>

definition memory_granted :: "'p build_env \<Rightarrow> nat \<Rightarrow> bool" where
  "memory_granted env n \<longleftrightarrow> grants env \<and> n < 2 ^ 57 \<and> be_fixed_u32 env < 2 ^ 62 \<and> be_fixed_u64 env < 2 ^ 62"

lemma execute_granted:
  assumes su: "join_setup ctx v ji jf left right"
    and ex: "hash_join_execute ctx ji jf left right part_idx = Inr (cfg, s)"
    and lex: "in_execute left (left_partition ji part_idx) = Inr (map Inr lbs)" and rex: "in_execute right part_idx = Inr right_stream"
    and fit: "list_all (batch_fits (in_schema left)) lbs" and sole: "sole_stream ji right"
    and mem: "memory_granted (tx_env ctx) (length (flat_rows lbs))"
  obtains ld m m' where
    "cfg = execute_config ctx ji jf left right (output_columns ji (in_schema left) (in_schema right))"
    and "s = stream_new cfg (Inr ld) right_stream (ji_fetch ji)"
    and "collect_left_input (tx_env ctx) (in_schema left) (map Inr lbs) (map fst (ji_on ji))
           (need_produce_result_in_final (ji_type ji)) 1 (ji_null_equality ji) m = Inr (ld, m')"
proof -
  obtain fut c threads where p: "cfg = execute_config ctx ji jf left right (output_columns ji (in_schema left) (in_schema right))"
    "s = stream_new cfg fut right_stream (ji_fetch ji)"
    "fut = bind_res (collect_left_input (tx_env ctx) (in_schema left) (map Inr lbs) (map fst (ji_on ji))
           (need_produce_result_in_final (ji_type ji)) threads (ji_null_equality ji)
           (consumer_register (be_pool (tx_env ctx)) c (tx_pool ctx))) (\<lambda>(ld, mem'). Inr ld)" "threads = 1"
    using execute_parts [OF ex lex rex] sole by metis
  have ak: "kernels_spec (be_kernels (tx_env ctx))" using su by (simp add: join_setup_def)
  have typed: "typed_cell (be_types (tx_env ctx) e) (eval_pexpr e r)" if "e \<in> set (map fst (ji_on ji))" "row_fits (in_schema left) r" for e r
    using su that by (auto simp: join_setup_def keys_typed_def)
  obtain ld mem' where c: "collect_left_input (tx_env ctx) (in_schema left) (map Inr lbs) (map fst (ji_on ji))
           (need_produce_result_in_final (ji_type ji)) 1 (ji_null_equality ji)
           (consumer_register (be_pool (tx_env ctx)) c (tx_pool ctx)) = Inr (ld, mem')"
    using collect_left_succeeds [OF ak fit _ typed] mem unfolding memory_granted_def by blast
  have "s = stream_new cfg (Inr ld) right_stream (ji_fetch ji)" using p c by simp
  from that [OF p(1) this c] show thesis .
qed

lemma hash_join_total:
  assumes su: "join_setup ctx v ji jf left right" and na: "\<not> ji_null_aware ji"
    and ex: "hash_join_execute ctx ji jf left right part_idx = Inr (cfg, s)"
    and lex: "in_execute left (left_partition ji part_idx) = Inr (map Inr lbs)" and rex: "in_execute right part_idx = Inr (map Inr rbs)"
    and inputs: "join_inputs left right lbs rbs" and sole: "sole_stream ji right"
    and mem: "memory_granted (tx_env ctx) (length (flat_rows lbs))"
    and fetch: "\<And>f. ji_fetch ji = Some f \<Longrightarrow>
      f + length (join_rows ji (output_columns ji (in_schema left) (in_schema right)) (flat_rows lbs) (flat_rows rbs)) < usize_mod"
  shows "\<exists>bs xs. run_stream cfg s = Some (map Inr bs)
    \<and> flat_rows bs = take_fetch (ji_fetch ji) xs
    \<and> mset xs = mset (join_rows ji (output_columns ji (in_schema left) (in_schema right)) (flat_rows lbs) (flat_rows rbs))
    \<and> (ji_type ji = Inner \<longrightarrow> xs = matched_rows ji (output_columns ji (in_schema left) (in_schema right)) (flat_rows lbs) (flat_rows rbs))"
proof -
  have fit: "list_all (batch_fits (in_schema left)) lbs" using inputs by (simp add: join_inputs_def)
  obtain ld m m' where p: "cfg = execute_config ctx ji jf left right (output_columns ji (in_schema left) (in_schema right))"
    "s = stream_new cfg (Inr ld) (map Inr rbs) (ji_fetch ji)"
    "collect_left_input (tx_env ctx) (in_schema left) (map Inr lbs) (map fst (ji_on ji))
           (need_produce_result_in_final (ji_type ji)) 1 (ji_null_equality ji) m = Inr (ld, m')"
    using execute_granted [OF su ex lex rex fit sole mem] by blast
  with hash_join_runs [OF su na p(1) inputs p(3) fetch] show ?thesis by simp
qed

section \<open>Reference kernels and coalescer\<close>

text \<open>The documented behaviour of Arrow's kernels and of its coalescer, as functions on lists.\<close>

definition reference_kernels :: arrow_kernels where
  "reference_kernels =
     \<lparr>ak_take = (\<lambda>col idx. Inr (gathered col idx)), ak_eq = (\<lambda>neq xs ys. Inr (map2 (cells_equal neq) xs ys)),
      ak_and = (\<lambda>xs ys. Inr (map2 and_null xs ys)), ak_filter = (\<lambda>xs msk. Inr (masked xs msk)),
      ak_concat = (\<lambda>xss. Inr (concat xss)),
      ak_concat_batches = (\<lambda>sch bs. Inr \<lparr>col_types = map field_type (schema_fields sch), rows = flat_rows bs\<rparr>),
      ak_try_new = (\<lambda>sch cols. Inr (batch_of_columns sch (length (hd cols)) cols))\<rparr>"

lemma reference_kernels_ok: "kernels_spec reference_kernels"
proof -
  have "length (hd cols) = n" if "cols \<noteq> []" "columns_fit sch n cols" for sch n cols
    using that by (cases cols) (auto simp: columns_fit_def list_all2_Cons2)
  then show ?thesis by (simp add: kernels_spec_def reference_kernels_def)
qed

definition list_coalescer :: "(data_type list \<times> batch list \<times> row list) coalescer_ops" where
  "list_coalescer =
     \<lparr>co_new = (\<lambda>sch n big. (map field_type (schema_fields sch), [], [])),
      co_push = (\<lambda>b (t, c, h). Inr (t, c, h @ rows b)),
      co_finish_buffered = (\<lambda>(t, c, h). Inr (t, (if h = [] then c else c @ [\<lparr>col_types = t, rows = h\<rparr>]), [])),
      co_next_completed = (\<lambda>(t, c, h). case c of [] \<Rightarrow> None | b # bs \<Rightarrow> Some (b, t, bs, h)),
      co_is_empty = (\<lambda>(t, c, h). c = [] \<and> h = [])\<rparr>"

definition list_view :: "(data_type list \<times> batch list \<times> row list) buffer_view" where
  "list_view = \<lparr>bv_types = fst, bv_completed = (\<lambda>(t, c, h). c), bv_held = (\<lambda>(t, c, h). h)\<rparr>"

lemma list_coalescer_ok:
  "coalescer_spec list_coalescer (bv_types list_view) (bv_completed list_view) (bv_held list_view)"
  by (auto simp: coalescer_spec_def list_coalescer_def list_view_def split: list.split)


section \<open>Properties\<close>

text \<open>C1. A hash join yields the join of its inputs: for each of the ten join types, with or
  without a filter, under both null equalities and in both partition modes, whichever table
  the build side chose and however the inputs are cut into batches and the matches into
  chunks, the stream that \<open>execute\<close> returns ends without an error, and the rows of its
  batches are the rows of the specified join, or the first ones up to the fetch limit of a
  list of these rows. The inputs are error-free batches of their schemas, memory is granted,
  and the stream is the only one over its build side.\<close>

theorem hash_join_correct:
  assumes "join_setup ctx v ji jf left right" and "\<not> ji_null_aware ji"
    and "hash_join_execute ctx ji jf left right part_idx = Inr (cfg, s)"
    and "in_execute left (left_partition ji part_idx) = Inr (map Inr lbs)" and "in_execute right part_idx = Inr (map Inr rbs)"
    and "join_inputs left right lbs rbs" and "sole_stream ji right"
    and "memory_granted (tx_env ctx) (length (flat_rows lbs))"
    and "\<And>f. ji_fetch ji = Some f \<Longrightarrow>
      f + length (join_rows ji (output_columns ji (in_schema left) (in_schema right)) (flat_rows lbs) (flat_rows rbs)) < usize_mod"
  shows "\<exists>bs xs. run_stream cfg s = Some (map Inr bs)
    \<and> flat_rows bs = take_fetch (ji_fetch ji) xs
    \<and> mset xs = mset (join_rows ji (output_columns ji (in_schema left) (in_schema right)) (flat_rows lbs) (flat_rows rbs))"
  using hash_join_total [OF assms] by blast

text \<open>A full join on one text column whose hashes all collide.\<close>

definition text_schema :: "string \<Rightarrow> schema" where
  "text_schema n = \<lparr>schema_fields = [\<lparr>field_name = n, field_type = Utf8, nullable = True\<rparr>], metadata = Map.empty\<rparr>"

definition text_input :: "string \<Rightarrow> cell list \<Rightarrow> join_input" where
  "text_input n cells = \<lparr>in_schema = text_schema n, in_partitions = 1, in_ordered = False,
     in_execute = (\<lambda>_. Inr [Inr \<lparr>col_types = [Utf8], rows = map (\<lambda>c. [c]) cells\<rparr>])\<rparr>"

definition text_join :: "join_type \<Rightarrow> nat option \<Rightarrow> join_info" where
  "text_join t fetch = \<lparr>ji_on = [(Column ''k'' 0, Column ''j'' 0)], ji_filter = (\<lambda>l r. True), ji_type = t, ji_mode = CollectLeft,
     ji_projection = None, ji_null_equality = NullEqualsNothing, ji_null_aware = False, ji_fetch = fetch\<rparr>"

definition text_context :: "'p pool_ops \<Rightarrow> 'p \<Rightarrow> ('p, data_type list \<times> batch list \<times> row list) task_context" where
  "text_context pool p = \<lparr>tx_env = \<lparr>be_batch_size = (\<lambda>b. 64 * num_rows b), be_fixed_u32 = 48, be_fixed_u64 = 48, be_small_threshold = 1024,
       be_min_density = f64_of_usize 1, be_hash = (\<lambda>_. 7), be_types = (\<lambda>_. Utf8), be_kernels = reference_kernels,
       be_pool = pool\<rparr>,
     tx_pool = p, tx_next_id = 0, tx_batch_size = 2, tx_report = None, tx_coalescer = list_coalescer\<rparr>"

lemma text_setup:
  "join_setup (text_context pool p) list_view (text_join t fetch) None (text_input ''k'' ls) (text_input ''j'' rs)"
proof -
  have "can_project (fst (build_join_schema (text_schema ''k'') (text_schema ''j'') t)) None = Inr ()" by simp
  then show ?thesis
    using reference_kernels_ok list_coalescer_ok
    by (auto simp: join_setup_def text_context_def text_join_def text_input_def text_schema_def keys_typed_def filter_ok_def
        row_fits_def typed_cell_def list_all2_Cons1)
qed

lemma text_inputs:
  assumes "\<forall>c \<in> set ls \<union> set rs. cell_ok Utf8 c" and "length ls < 2 ^ 32" and "length rs < 2 ^ 32"
  shows "join_inputs (text_input ''k'' ls) (text_input ''j'' rs)
    [\<lparr>col_types = [Utf8], rows = map (\<lambda>c. [c]) ls\<rparr>] [\<lparr>col_types = [Utf8], rows = map (\<lambda>c. [c]) rs\<rparr>]"
  using assms by (auto simp: join_inputs_def text_input_def text_schema_def batch_fits_def row_fits_def list_all_iff
      usize_mod_def num_rows_def)

lemma text_execute:
  "\<exists>cfg s. hash_join_execute (text_context pool p) (text_join t fetch) jf (text_input ''k'' ls) (text_input ''j'' rs) 0 = Inr (cfg, s)"
  by (simp add: hash_join_execute_def left_future_def start_collect_def text_join_def text_input_def projected_columns_def
      Let_def case_prod_unfold)

lemma unbounded_grants: "memory_granted (tx_env (text_context unbounded_ops p)) n \<longleftrightarrow> n < 2 ^ 57"
  by (simp add: memory_granted_def grants_def text_context_def try_grow_mem_def reservation_try_grow_def unbounded_ops_def)

theorem hash_join_correct_witness:
  "\<exists>cfg s bs. hash_join_execute (text_context unbounded_ops \<lparr>ub_used = 0\<rparr>) (text_join Full None) None
      (text_input ''k'' [CStr ''a'', CStr ''b'']) (text_input ''j'' [CStr ''a'', CNull, CStr ''a'']) 0 = Inr (cfg, s)
    \<and> run_stream cfg s = Some (map Inr bs)
    \<and> mset (flat_rows bs) = {#[CStr ''a'', CStr ''a''], [CStr ''a'', CStr ''a''], [CNull, CNull], [CStr ''b'', CNull]#}"
proof -
  let ?L = "[CStr ''a'', CStr ''b'']" and ?R = "[CStr ''a'', CNull, CStr ''a'']"
  let ?ctx = "text_context unbounded_ops \<lparr>ub_used = 0\<rparr>" and ?ji = "text_join Full None"
  let ?lb = "\<lparr>col_types = [Utf8], rows = map (\<lambda>c. [c]) ?L\<rparr>" and ?rb = "\<lparr>col_types = [Utf8], rows = map (\<lambda>c. [c]) ?R\<rparr>"
  obtain cfg s where ex: "hash_join_execute ?ctx ?ji None (text_input ''k'' ?L) (text_input ''j'' ?R) 0 = Inr (cfg, s)"
    using text_execute [of unbounded_ops "\<lparr>ub_used = 0\<rparr>" Full None None ?L ?R] by blast
  have "\<exists>bs xs. run_stream cfg s = Some (map Inr bs) \<and> flat_rows bs = take_fetch (ji_fetch ?ji) xs
    \<and> mset xs = mset (join_rows ?ji (output_columns ?ji (in_schema (text_input ''k'' ?L)) (in_schema (text_input ''j'' ?R)))
        (flat_rows [?lb]) (flat_rows [?rb]))"
    by (rule hash_join_correct [OF text_setup _ ex, where lbs = "[?lb]" and rbs = "[?rb]"])
       (use text_inputs [of ?L ?R] in \<open>simp_all add: text_join_def text_input_def left_partition_def sole_stream_def unbounded_grants\<close>)
  moreover have "join_rows ?ji (output_columns ?ji (in_schema (text_input ''k'' ?L)) (in_schema (text_input ''j'' ?R)))
        (flat_rows [?lb]) (flat_rows [?rb]) =
      [[CStr ''a'', CStr ''a''], [CStr ''a'', CStr ''a''], [CNull, CNull], [CStr ''b'', CNull]]" by code_simp
  ultimately show ?thesis using ex by (auto simp: text_join_def take_fetch_def)
qed

end
