(* ===== verification/HashJoinErrors.thy ===== *)
theory HashJoinErrors
  imports HashJoinSound
begin

text \<open>
  How a hash join fails: an error of the left input and a refusal of the memory pool end the
  stream with that error before any row.
\<close>

section \<open>Collecting the left input\<close>

lemma collect_batches_error:
  assumes "grants env"
  shows "collect_batches env (map Inr bs @ Inl e # items) acc mem = Inl e"
proof (induction bs arbitrary: acc mem)
  case (Cons b bs)
  obtain mem1 where "try_grow_mem env (be_batch_size env b) mem = Inr mem1" by (rule grantsE [OF assms])
  with Cons.IH show ?case by simp
qed simp

text \<open>A greedy pool refuses the first batch that does not fit.\<close>

lemma collect_batches_greedy:
  assumes "be_pool env = greedy_ops" and "gp_used p + sum_list (map (be_batch_size env) bs) < usize_mod"
    and "gp_pool_size p < gp_used p + sum_list (map (be_batch_size env) bs)" and "gp_used p \<le> gp_pool_size p"
  shows "\<exists>r' n av. collect_batches env (map Inr bs @ items) acc (r, p) = Inl (insufficient_capacity_err r' n av)"
  using assms
proof (induction bs arbitrary: acc r p)
  case (Cons b bs)
  let ?u = "gp_used p + be_batch_size env b"
  have w: "wadd (gp_used p) (be_batch_size env b) = ?u" using Cons.prems(2) by (simp add: wadd_def)
  show ?case
  proof (cases "?u \<le> gp_pool_size p")
    case True
    let ?p = "p\<lparr>gp_used := ?u\<rparr>" and ?r = "r\<lparr>rs_size := wadd (rs_size r) (be_batch_size env b)\<rparr>"
    have "try_grow_mem env (be_batch_size env b) (r, p) = Inr (?r, ?p)"
      using True w Cons.prems(1) by (simp add: try_grow_mem_def reservation_try_grow_def greedy_ops_def greedy_try_grow_def)
    moreover have "\<exists>r' n av. collect_batches env (map Inr bs @ items) (acc @ [b]) (?r, ?p) = Inl (insufficient_capacity_err r' n av)"
      using Cons.prems True by (intro Cons.IH) (simp_all add: add.assoc)
    ultimately show ?thesis by simp
  next
    case False
    then show ?thesis
      using w Cons.prems(1) by (auto simp: try_grow_mem_def reservation_try_grow_def greedy_ops_def greedy_try_grow_def)
  qed
qed simp

text \<open>An error of collecting is the only item of the stream.\<close>

lemma collect_error_runs:
  assumes su: "join_setup ctx v ji jf left right" and ex: "hash_join_execute ctx ji jf left right part_idx = Inr (cfg, s)"
    and lex: "in_execute left (left_partition ji part_idx) = Inr left_stream" and rex: "in_execute right part_idx = Inr right_stream"
    and err: "\<And>c. \<exists>e. collect_batches (tx_env ctx) left_stream [] (consumer_register (be_pool (tx_env ctx)) c (tx_pool ctx)) = Inl e \<and> P e"
  shows "\<exists>e. run_stream cfg s = Some [Inl e] \<and> P e"
proof -
  obtain fut c threads where p: "cfg = execute_config ctx ji jf left right (output_columns ji (in_schema left) (in_schema right))"
    "s = stream_new cfg fut right_stream (ji_fetch ji)"
    "fut = bind_res (collect_left_input (tx_env ctx) (in_schema left) left_stream (map fst (ji_on ji))
           (need_produce_result_in_final (ji_type ji)) threads (ji_null_equality ji)
           (consumer_register (be_pool (tx_env ctx)) c (tx_pool ctx))) (\<lambda>(ld, mem'). Inr ld)"
    using execute_parts [OF ex lex rex] by metis
  obtain e where e: "collect_batches (tx_env ctx) left_stream [] (consumer_register (be_pool (tx_env ctx)) c (tx_pool ctx)) = Inl e" "P e"
    using err by blast
  have "view_ok cfg v" using su p(1) by (simp add: view_ok_def join_setup_def execute_config_def)
  moreover have "fut = Inl e" using p(3) e(1) by (simp add: collect_left_input_def)
  ultimately have "run_stream cfg s = Some [Inl e]" using build_error_runs p(2) by blast
  with e(2) show ?thesis by blast
qed

section \<open>Properties\<close>





end
