(* ===== verification/HashJoinNotIn.thy ===== *)
theory HashJoinNotIn
  imports HashJoinSound
begin

text \<open>
  Null-aware anti joins, the operator of \<open>NOT IN\<close>: what the stream notes about the probe
  side, and what it emits from the bitmap in the end.
\<close>

section \<open>The bitmap of a null-aware join\<close>

definition right_null :: "join_info \<Rightarrow> row \<Rightarrow> bool" where
  "right_null ji r \<longleftrightarrow> eval_pexpr (snd (hd (ji_on ji))) r = CNull"

definition left_null :: "join_info \<Rightarrow> row \<Rightarrow> bool" where
  "left_null ji l \<longleftrightarrow> eval_pexpr (fst (hd (ji_on ji))) l = CNull"

text \<open>The flags and the bitmap say which rows are kept, once the probe side is read.\<close>

lemma not_in_kept:
  assumes "length (ji_on ji) = 1" and "\<forall>l r. ji_filter ji l r" and "\<not> list_ex (right_null ji) R"
  shows "not_in ji R l \<longleftrightarrow> \<not> left_joined ji R l \<and> (R \<noteq> [] \<longrightarrow> \<not> left_null ji l)"
proof -
  obtain a b where on: "ji_on ji = [(a, b)]" using assms(1) by (auto simp: length_Suc_conv)
  show ?thesis
  proof (cases R)
    case (Cons r R')
    then show ?thesis using assms(2,3)
      by (auto simp: not_in_def left_joined_def joins_def keys_match_def on left_null_def right_null_def list_all_iff list_ex_iff)
  qed (simp add: not_in_def left_joined_def)
qed

lemma not_in_null:
  "list_ex (right_null ji) R \<Longrightarrow> filter (not_in ji R) L = []"
  by (auto simp: not_in_def right_null_def list_ex_iff list_all_iff filter_empty_conv)

lemma noted_flags:
  assumes "join_ready cfg ls rs ji dl" and "hc_null_aware cfg"
  shows "ld_has_null (noted cfg pb (eval_keys (hc_types cfg) (map snd (ji_on ji)) pb) ld) \<longleftrightarrow>
      ld_has_null ld \<or> list_ex (right_null ji) (rows pb)"
    and "ld_non_empty (noted cfg pb (eval_keys (hc_types cfg) (map snd (ji_on ji)) pb) ld) \<longleftrightarrow> ld_non_empty ld \<or> rows pb \<noteq> []"
proof -
  obtain a b where on: "ji_on ji = [(a, b)]" using assms by (auto simp: join_ready_def length_Suc_conv)
  show "ld_has_null (noted cfg pb (eval_keys (hc_types cfg) (map snd (ji_on ji)) pb) ld) \<longleftrightarrow>
      ld_has_null ld \<or> list_ex (right_null ji) (rows pb)"
    using assms(2) by (simp add: noted_def on eval_keys_def right_null_def list_ex_iff image_iff eq_commute [of CNull])
  show "ld_non_empty (noted cfg pb (eval_keys (hc_types cfg) (map snd (ji_on ji)) pb) ld) \<longleftrightarrow> ld_non_empty ld \<or> rows pb \<noteq> []"
    using assms(2) by (auto simp: noted_def num_rows_def)
qed

section \<open>The end of the stream\<close>

text \<open>The indices emitted in the end: the unvisited rows, and no null key if a probe row was seen.\<close>

lemma final_indices_not_in:
  assumes ready: "join_ready cfg ls rs ji dl" and na: "hc_null_aware cfg"
    and vals: "ld_values ld = eval_keys dl (map fst (ji_on ji)) (ld_batch ld)"
    and vis: "visited_ok ji (ld_batch ld) R (ld_visited ld)"
  shows "final_indices cfg ld = (let js = filter (\<lambda>j. \<not> left_joined ji R (rows (ld_batch ld) ! j)
      \<and> (ld_non_empty ld \<longrightarrow> \<not> left_null ji (rows (ld_batch ld) ! j))) [0..<num_rows (ld_batch ld)]
    in (map Some js, replicate (length js) None))"
proof -
  let ?n = "num_rows (ld_batch ld)" and ?P = "\<lambda>j. left_joined ji R (rows (ld_batch ld) ! j)"
  have t: "hc_join_type cfg = LeftAnti" "ji_type ji = LeftAnti" and one: "length (ji_on ji) = 1"
    using ready na by (auto simp: join_ready_def)
  obtain a b where on: "ji_on ji = [(a, b)]" using one by (auto simp: length_Suc_conv)
  have bits: "length (ld_visited ld) = ?n" "\<forall>j < ?n. ld_visited ld ! j \<longleftrightarrow> ?P j"
    using vis t(2) by (simp_all add: visited_ok_def need_produce_result_in_final_def)
  have fin: "get_final_indices_from_bit_map (ld_visited ld) LeftAnti True =
      (map Some (filter (\<lambda>j. \<not> ?P j) [0..<?n]), replicate (length (filter (\<lambda>j. \<not> ?P j) [0..<?n])) None)"
    using filter_bits(2) [OF bits] by (simp add: get_final_indices_from_bit_map_def Let_def bits(1))
  have "filter (\<lambda>x. snd (hd (ld_values ld)) ! the x \<noteq> CNull) (map Some js) =
      map Some (filter (\<lambda>j. \<not> left_null ji (rows (ld_batch ld) ! j)) js)" if "\<forall>j \<in> set js. j < ?n" for js
    using that by (induction js) (simp_all add: vals on eval_keys_def left_null_def num_rows_def)
  from this [of "filter (\<lambda>j. \<not> ?P j) [0..<?n]"] show ?thesis
    using na by (simp add: final_indices_def t(1) fin Let_def conj_commute)
qed

lemma final_not_in:
  assumes v: "view_ok cfg v" and ready: "join_ready cfg ls rs ji dl" and na: "hc_null_aware cfg"
    and ok: "left_ok ls (hc_hash cfg) dl (ji_null_equality ji) (map fst (ji_on ji)) L ord ld"
    and vis: "\<not> ld_has_null ld \<longrightarrow> visited_ok ji (ld_batch ld) R (ld_visited ld)" and th: "ld_threads ld = 1"
    and flags: "ld_has_null ld \<longleftrightarrow> list_ex (right_null ji) R" "ld_non_empty ld \<longleftrightarrow> R \<noteq> []"
    and s: "hs_state s = ExhaustedProbeSide" "hs_build_side s = BuildReady ld"
  shows "\<exists>xs. outputs cfg v s xs \<and> mset xs = mset (left_rows (hc_column_indices cfg) (not_in ji R) L)"
proof (cases "ld_has_null ld")
  case True
  have need: "need_produce_result_in_final (hc_join_type cfg)"
    using ready na by (auto simp: join_ready_def need_produce_result_in_final_def)
  have "outputs cfg v (s\<lparr>hs_state := Completed\<rparr>) []" by (rule outputs_completed [OF v]) simp
  then have "outputs cfg v s []"
    by (rule outputs_step [OF v]) (use poll_other(4) [OF v _ s(1)] True na need s(2) in \<open>simp add: process_unmatched_build_batch_def\<close>)
  with True flags(1) show ?thesis by (intro exI [of _ "[]"]) (simp add: left_rows_def not_in_null)
next
  case False
  let ?cols = "hc_column_indices cfg" and ?pb = "empty_batch rs" and ?n = "num_rows (ld_batch ld)"
  have ak: "kernels_spec (hc_kernels cfg)" and cols: "columns_ok ls rs (ji_type ji) (hc_schema cfg) ?cols"
    and t: "hc_join_type cfg = ji_type ji" "ji_type ji = LeftAnti" and rs: "hc_right_schema cfg = rs"
    and one: "length (ji_on ji) = 1" and nf: "hc_filter cfg = None" and fo: "filter_ok ls rs ji (hc_filter cfg)"
    using ready na unfolding join_ready_def by blast+
  have flt: "\<forall>l r. ji_filter ji l r" using fo nf by (simp add: filter_ok_def)
  have bb: "batch_fits ls (ld_batch ld)" "ld_values ld = eval_keys dl (map fst (ji_on ji)) (ld_batch ld)"
    and ord: "distinct ord" "set ord = {..<?n}" and L: "map ((!) (rows (ld_batch ld))) ord = L"
    using ok by (simp_all add: left_ok_def)
  have pb: "batch_fits rs ?pb" by (simp add: batch_fits_def empty_batch_def)
  define js where "js = filter (\<lambda>j. not_in ji R (rows (ld_batch ld) ! j)) [0..<?n]"
  have fin: "final_indices cfg ld = (map Some js, replicate (length js) None)"
    using final_indices_not_in [OF ready na bb(2)] vis False flags
    by (simp add: js_def not_in_kept [OF one flt] Let_def)
  have pairs: "pair_ok (ji_type ji) (ld_batch ld) ?pb z" if "z \<in> set (zip (map Some js) (replicate (length js) None))" for z
    using that t(2) by (auto simp: zip_left pair_ok_def sides_ok_def js_def)
  obtain b where b: "build_batch_from_indices (hc_kernels cfg) (hc_schema cfg) (ld_batch ld) ?pb (map Some js)
      (replicate (length js) None) ?cols SideLeft (ji_type ji) = Inr b"
    "col_types b = map field_type (schema_fields (hc_schema cfg))"
    "rows b = map (pair_row ?cols (ld_batch ld) ?pb) (zip (map Some js) (replicate (length js) None))"
    using build_pairs [OF ak cols bb(1) pb, of "map Some js" "replicate (length js) None"] pairs by auto
  have "rows b = map (\<lambda>j. join_row ?cols (Some (rows (ld_batch ld) ! j)) None False) js"
    by (simp add: b(3) zip_left pair_row_def)
  then have mset: "mset (rows b) = mset (left_rows ?cols (not_in ji R) L)"
    unfolding js_def by (simp only: mset_ord [OF ord]) (simp add: L [symmetric] left_rows_def filter_map comp_def)
  define s' where "s' = s\<lparr>hs_state := Completed, hs_build_side := BuildReady (ld\<lparr>ld_threads := 0\<rparr>)\<rparr>"
  have complete: "outputs cfg v s' []" by (rule outputs_completed [OF v]) (simp add: s'_def)
  have need: "need_produce_result_in_final (ji_type ji)" using t(2) by (simp add: need_produce_result_in_final_def)
  have turn: "poll_turn cfg (s\<lparr>hs_output_buffer := lc\<rparr>) =
      (if map Some js = [] then Again (s'\<lparr>hs_output_buffer := lc\<rparr>)
       else handle_state (bind_res (lc_push_batch (hc_coalescer cfg) b lc) (\<lambda>(status, out).
        if True \<and> status = LimitReached
        then bind_res (lc_finish (hc_coalescer cfg) out) (\<lambda>out'. Inr (s'\<lparr>hs_output_buffer := out'\<rparr>))
        else Inr (s'\<lparr>hs_output_buffer := out\<rparr>))))" if "drained_buffer v lc" for lc
    unfolding poll_other(4) [OF v that s(1)] process_unmatched_build_batch_def
    using need t s(2) False rs th b(1) fin
    by (auto simp: Let_def report_probe_completed_def empty_batch_def s'_def wsub_def
        intro!: arg_cong [of _ _ handle_state] bind_res_cong)
  show ?thesis
  proof (cases "js = []")
    case True
    then have "outputs cfg v s []" using turn by (intro outputs_step [OF v complete]) simp
    moreover have "rows b = []" using b(3) True by simp
    ultimately show ?thesis using mset by auto
  next
    case False
    with turn have "outputs cfg v s (rows b @ [])" by (intro outputs_push [OF v complete b(2), where stop = True and sf = s']) simp
    with mset show ?thesis by auto
  qed
qed

section \<open>The whole stream\<close>

text \<open>A batch with a null key, or any batch after one: nothing is looked up.\<close>

lemma skip_outputs:
  assumes v: "view_ok cfg v" and ready: "join_ready cfg ls rs ji dl" and at: "at_batch cfg ji ld pb s"
    and ld': "ld' = noted cfg pb (eval_keys (hc_types cfg) (map snd (ji_on ji)) pb) ld" "null_seen cfg ld'"
    and rest: "outputs cfg v (s\<lparr>hs_build_side := BuildReady ld', hs_state := FetchProbeBatch\<rparr>) ys"
  shows "outputs cfg v s ys"
proof -
  let ?vals = "eval_keys (hc_types cfg) (map snd (ji_on ji)) pb"
  obtain ps where ps: "hs_state s = ProcessProbeBatch ps" "ps_batch ps = pb" "ps_values ps = ?vals" "hs_build_side s = BuildReady ld"
    using at by (auto simp: at_batch_def)
  have nt: "(if hc_null_aware cfg then note_nulls ps ld else Inr ld) = Inr ld'"
    using note_nulls_noted [of ps cfg ld] ready_values [OF ready refl, of pb] ps ld' by simp
  have "process_probe_batch cfg ps (s\<lparr>hs_output_buffer := lc\<rparr>) =
      Some (Inr ((s\<lparr>hs_build_side := BuildReady ld', hs_state := FetchProbeBatch\<rparr>)\<lparr>hs_output_buffer := lc\<rparr>))" for lc
    unfolding process_probe_batch_def using nt ps(4) ld'(2) by (cases s) simp
  then show ?thesis by (intro outputs_step [OF v rest]) (simp add: poll_drained [OF v _ ps(1)])
qed

lemma fetch_not_in:
  assumes v: "view_ok cfg v" and ready: "join_ready cfg ls rs ji dl" and na: "hc_null_aware cfg"
    and right: "list_all (batch_fits rs) rbs" "list_all (\<lambda>b. num_rows b < 2 ^ 32) rbs"
    and ok: "left_ok ls (hc_hash cfg) dl (ji_null_equality ji) (map fst (ji_on ji)) L ord ld"
    and vis: "\<not> ld_has_null ld \<longrightarrow> visited_ok ji (ld_batch ld) R (ld_visited ld)" and th: "ld_threads ld = 1"
    and flags: "ld_has_null ld \<longleftrightarrow> list_ex (right_null ji) R" "ld_non_empty ld \<longleftrightarrow> R \<noteq> []"
    and s: "hs_state s = FetchProbeBatch" "hs_build_side s = BuildReady ld" "hs_right s = map Inr rbs"
  shows "\<exists>xs. outputs cfg v s xs \<and> mset xs = mset (left_rows (hc_column_indices cfg) (not_in ji (R @ flat_rows rbs)) L)"
  using right ok vis th flags s
proof (induction rbs arbitrary: ld R s)
  case Nil
  let ?s = "s\<lparr>hs_state := ExhaustedProbeSide\<rparr>"
  obtain xs where xs: "outputs cfg v ?s xs" "mset xs = mset (left_rows (hc_column_indices cfg) (not_in ji R) L)"
    using final_not_in [OF v ready na Nil.prems(3-7), of ?s] Nil.prems(9) by auto
  have "outputs cfg v s xs"
    by (rule outputs_step [OF v xs(1)]) (use poll_other(3) [OF v _ Nil.prems(8)] Nil.prems(10) in \<open>simp add: fetch_probe_batch_def\<close>)
  with xs(2) show ?case by auto
next
  case (Cons pb rbs)
  let ?cols = "hc_column_indices cfg" and ?vals = "eval_keys (hc_types cfg) (map snd (ji_on ji)) pb"
  define s1 where "s1 = fetched cfg ld pb rbs s"
  define ld1 where "ld1 = noted cfg pb ?vals ld"
  have at: "at_batch cfg ji ld pb s1" unfolding s1_def by (rule fetched_at [OF ready Cons.prems(9)])
  have pb: "batch_fits rs pb" "num_rows pb < 2 ^ 32" "list_all (batch_fits rs) rbs" "list_all (\<lambda>b. num_rows b < 2 ^ 32) rbs"
    using Cons.prems(1,2) by simp_all
  have fl: "ld_has_null ld1 \<longleftrightarrow> list_ex (right_null ji) (R @ rows pb)" "ld_non_empty ld1 \<longleftrightarrow> R @ rows pb \<noteq> []"
    using noted_flags [OF ready na, of pb ld] Cons.prems(6,7) by (simp_all add: ld1_def)
  have ok1: "left_ok ls (hc_hash cfg) dl (ji_null_equality ji) (map fst (ji_on ji)) L ord ld1" "ld_threads ld1 = 1"
    using Cons.prems(3,5) by (simp_all add: ld1_def)
  have "\<exists>xs. outputs cfg v s1 xs \<and> mset xs = mset (left_rows ?cols (not_in ji ((R @ rows pb) @ flat_rows rbs)) L)"
  proof (cases "ld_has_null ld1")
    case True
    let ?s2 = "s1\<lparr>hs_build_side := BuildReady ld1, hs_state := FetchProbeBatch\<rparr>"
    obtain ys where ys: "outputs cfg v ?s2 ys" "mset ys = mset (left_rows ?cols (not_in ji ((R @ rows pb) @ flat_rows rbs)) L)"
      using Cons.IH [OF pb(3,4) ok1(1) _ ok1(2) fl, of ?s2] True by (auto simp: s1_def fetched_def)
    from skip_outputs [OF v ready at ld1_def _ ys(1)] ys(2) True na show ?thesis by blast
  next
    case False
    let ?ld = "batch_done ji ld1 ord pb"
    let ?s2 = "s1\<lparr>hs_build_side := BuildReady ?ld, hs_state := FetchProbeBatch\<rparr>"
    have nn: "\<not> ld_has_null ld" using False fl(1) Cons.prems(6) by simp
    have ord: "set ord = {..<num_rows (ld_batch ld)}" using Cons.prems(3) by (simp add: left_ok_def)
    have vis: "visited_ok ji (ld_batch ld) R (ld_visited ld)" using Cons.prems(4) nn by simp
    have vis': "visited_ok ji (ld_batch ?ld) (R @ rows pb) (ld_visited ?ld)"
      using visited_ok_step [OF vis ord] by (simp add: batch_done_def ld1_def)
    obtain ys where ys: "outputs cfg v ?s2 ys" "mset ys = mset (left_rows ?cols (not_in ji ((R @ rows pb) @ flat_rows rbs)) L)"
      using Cons.IH [OF pb(3,4) left_ok_batch_done [OF ok1(1)], of ji pb "R @ rows pb" ?s2] vis' fl ok1(2)
      by (auto simp: batch_done_def s1_def fetched_def)
    have bits: "need_produce_result_in_final (ji_type ji) \<longrightarrow> length (ld_visited ld) = num_rows (ld_batch ld)"
      using vis by (simp add: visited_ok_def)
    have t: "ji_type ji = LeftAnti" using ready na by (simp add: join_ready_def)
    obtain xs where xs: "outputs cfg v s1 (xs @ ys)" "mset xs = mset (probe_rows ji ?cols L (rows pb))"
      using outs.batch_outputs [OF v ready Cons.prems(3) pb(1,2) at bits ld1_def _ ys(1)] False by blast
    have "xs = []" using xs(2) t by (simp add: probe_rows_def)
    with xs(1) ys(2) show ?thesis by auto
  qed
  then obtain xs where xs: "outputs cfg v s1 xs" "mset xs = mset (left_rows ?cols (not_in ji ((R @ rows pb) @ flat_rows rbs)) L)" by blast
  from outs.fetch_step [OF v Cons.prems(8,9,10) xs(1) [unfolded s1_def]] xs(2) show ?case by auto
qed

lemma not_in_runs:
  assumes su: "join_setup ctx v ji None left right"
    and na: "ji_null_aware ji" "ji_type ji = LeftAnti" "length (ji_on ji) = 1"
    and cfg: "cfg = execute_config ctx ji None left right (output_columns ji (in_schema left) (in_schema right))"
    and inputs: "join_inputs left right lbs rbs"
    and c: "collect_left_input (tx_env ctx) (in_schema left) (map Inr lbs) (map fst (ji_on ji))
           (need_produce_result_in_final (ji_type ji)) 1 (ji_null_equality ji) mem = Inr (ld, mem')"
    and fetch: "\<And>f. ji_fetch ji = Some f \<Longrightarrow> f + length (flat_rows lbs) < usize_mod"
  shows "\<exists>bs xs. run_stream cfg (stream_new cfg (Inr ld) (map Inr rbs) (ji_fetch ji)) = Some (map Inr bs)
    \<and> flat_rows bs = take_fetch (ji_fetch ji) xs
    \<and> mset xs = mset (left_rows (output_columns ji (in_schema left) (in_schema right)) (not_in ji (flat_rows rbs)) (flat_rows lbs))"
proof -
  note ready = execute_ready [OF su _ cfg]
  let ?s = "stream_new cfg (Inr ld) (map Inr rbs) (ji_fetch ji)"
  let ?s2 = "?s\<lparr>hs_state := FetchProbeBatch, hs_build_side := BuildReady ld\<rparr>"
  have hash: "hc_hash cfg = be_hash (tx_env ctx)" and cols: "hc_column_indices cfg = output_columns ji (in_schema left) (in_schema right)"
    and na': "hc_null_aware cfg" using na(1) by (simp_all add: cfg execute_config_def)
  have v: "view_ok cfg v" and rd: "join_ready cfg (in_schema left) (in_schema right) ji (be_types (tx_env ctx))"
    using ready na by simp_all
  have r: "list_all (batch_fits (in_schema right)) rbs" "list_all (\<lambda>b. num_rows b < 2 ^ 32) rbs"
    using inputs by (simp_all add: join_inputs_def)
  obtain ord where ok: "left_ok (in_schema left) (be_hash (tx_env ctx)) (be_types (tx_env ctx)) (ji_null_equality ji) (map fst (ji_on ji))
      (flat_rows lbs) ord ld" "visited_ok ji (ld_batch ld) [] (ld_visited ld)" "ld_threads ld = 1" "\<not> ld_non_empty ld" "\<not> ld_has_null ld"
    using collected_state [OF su inputs c] by blast
  obtain xs where xs: "outputs cfg v ?s2 xs"
    "mset xs = mset (left_rows (hc_column_indices cfg) (not_in ji (flat_rows rbs)) (flat_rows lbs))"
    using fetch_not_in [OF v rd na' r ok(1) [folded hash], of "[]" ?s2] ok(2-) by (auto simp: stream_new_def)
  have "hc_report cfg = None \<or> hc_report cfg = Some (Inr ())" using rd by (simp add: join_ready_def)
  from outs.start_outputs [OF v this _ _ xs(1)] have out: "outputs cfg v ?s xs" by (simp add: stream_new_def)
  have "length xs = length (left_rows (hc_column_indices cfg) (not_in ji (flat_rows rbs)) (flat_rows lbs))"
    using xs(2) by (metis size_mset)
  also have "\<dots> \<le> length (flat_rows lbs)" by (simp add: left_rows_def)
  finally have "f + length xs < usize_mod" if "ji_fetch ji = Some f" for f using fetch [OF that] by simp
  with outputs_batches [OF v out] xs(2) show ?thesis unfolding cols by blast
qed

section \<open>Properties\<close>

text \<open>C5. A null-aware anti join computes \<open>NOT IN\<close>: the stream ends without an error, and the
  rows of its batches are the left rows whose key compares as false with every right key in
  SQL's three-valued logic, whatever the batches of the inputs. So a null among the right
  keys suppresses every row, a left row with a null key survives only an empty right side,
  and the rest is the anti join.\<close>

theorem hash_join_not_in:
  assumes "join_setup ctx v ji None left right"
    and "ji_null_aware ji" and "ji_type ji = LeftAnti" and "length (ji_on ji) = 1"
    and "hash_join_execute ctx ji None left right part_idx = Inr (cfg, s)"
    and "in_execute left (left_partition ji part_idx) = Inr (map Inr lbs)" and "in_execute right part_idx = Inr (map Inr rbs)"
    and "join_inputs left right lbs rbs" and "sole_stream ji right"
    and "memory_granted (tx_env ctx) (length (flat_rows lbs))"
    and "\<And>f. ji_fetch ji = Some f \<Longrightarrow> f + length (flat_rows lbs) < usize_mod"
  shows "\<exists>bs xs. run_stream cfg s = Some (map Inr bs) \<and> flat_rows bs = take_fetch (ji_fetch ji) xs
    \<and> mset xs = mset (left_rows (output_columns ji (in_schema left) (in_schema right)) (not_in ji (flat_rows rbs)) (flat_rows lbs))"
proof -
  have fit: "list_all (batch_fits (in_schema left)) lbs" using assms(8) by (simp add: join_inputs_def)
  obtain ld m m' where p: "cfg = execute_config ctx ji None left right (output_columns ji (in_schema left) (in_schema right))"
    "s = stream_new cfg (Inr ld) (map Inr rbs) (ji_fetch ji)"
    "collect_left_input (tx_env ctx) (in_schema left) (map Inr lbs) (map fst (ji_on ji))
           (need_produce_result_in_final (ji_type ji)) 1 (ji_null_equality ji) m = Inr (ld, m')"
    using execute_granted [OF assms(1,5-7) fit assms(9,10)] by blast
  with not_in_runs [OF assms(1-4) p(1) assms(8) p(3) assms(11)] show ?thesis by simp
qed

text \<open>Two left rows, one with a null key, against a right side without nulls.\<close>

theorem hash_join_not_in_witness:
  "\<exists>cfg s bs. hash_join_execute (text_context unbounded_ops \<lparr>ub_used = 0\<rparr>) ((text_join LeftAnti None)\<lparr>ji_null_aware := True\<rparr>) None
      (text_input ''k'' [CStr ''a'', CNull, CStr ''b'']) (text_input ''j'' [CStr ''a'', CStr ''c'']) 0 = Inr (cfg, s)
    \<and> run_stream cfg s = Some (map Inr bs) \<and> mset (flat_rows bs) = {#[CStr ''b'']#}"
proof -
  let ?L = "[CStr ''a'', CNull, CStr ''b'']" and ?R = "[CStr ''a'', CStr ''c'']"
  let ?ctx = "text_context unbounded_ops \<lparr>ub_used = 0\<rparr>" and ?ji = "(text_join LeftAnti None)\<lparr>ji_null_aware := True\<rparr>"
  let ?lb = "\<lparr>col_types = [Utf8], rows = map (\<lambda>c. [c]) ?L\<rparr>" and ?rb = "\<lparr>col_types = [Utf8], rows = map (\<lambda>c. [c]) ?R\<rparr>"
  obtain cfg s where ex: "hash_join_execute ?ctx ?ji None (text_input ''k'' ?L) (text_input ''j'' ?R) 0 = Inr (cfg, s)"
    by (simp add: hash_join_execute_def left_future_def start_collect_def text_join_def text_input_def projected_columns_def
        Let_def case_prod_unfold)
  have su: "join_setup ?ctx list_view ?ji None (text_input ''k'' ?L) (text_input ''j'' ?R)"
    using text_setup [of unbounded_ops "\<lparr>ub_used = 0\<rparr>" LeftAnti None ?L ?R] by (simp add: join_setup_def filter_ok_def text_join_def)
  have "\<exists>bs xs. run_stream cfg s = Some (map Inr bs) \<and> flat_rows bs = take_fetch (ji_fetch ?ji) xs
    \<and> mset xs = mset (left_rows (output_columns ?ji (in_schema (text_input ''k'' ?L)) (in_schema (text_input ''j'' ?R)))
        (not_in ?ji (flat_rows [?rb])) (flat_rows [?lb]))"
    by (rule hash_join_not_in [OF su _ _ _ ex, where lbs = "[?lb]" and rbs = "[?rb]"])
       (use text_inputs [of ?L ?R] in \<open>simp_all add: text_join_def text_input_def left_partition_def sole_stream_def unbounded_grants\<close>)
  moreover have "left_rows (output_columns ?ji (in_schema (text_input ''k'' ?L)) (in_schema (text_input ''j'' ?R)))
        (not_in ?ji (flat_rows [?rb])) (flat_rows [?lb]) = [[CStr ''b'']]" by code_simp
  ultimately show ?thesis using ex by (auto simp: text_join_def take_fetch_def)
qed

end
