(* ===== verification/HashJoinPlans.thy ===== *)
theory HashJoinPlans
  imports JoinSelectionModes HashJoinErrors HashJoinNotIn
begin

text \<open>
  The streams of a hash join against what the rest of the development says of its plan node:
  the rows the pipeline attributes to an inner join, and the rows of the join whose inputs
  the optimizer has swapped.
\<close>

section \<open>Swapped filters and set-ups\<close>

lemma join_filter_swap_columns:
  "jf_column_indices (join_filter_swap jf) = map flip_column (jf_column_indices jf)"
  "jf_schema (join_filter_swap jf) = jf_schema jf" "jf_expression (join_filter_swap jf) = jf_expression jf"
  by (auto simp: join_filter_swap_def flip_column_def)

lemma flip_valid:
  "column_valid rs ls Inner (flip_column ci) = column_valid ls rs Inner ci"
  "column_valid ls rs Inner ci \<Longrightarrow> column_field rs ls Inner (flip_column ci) = column_field ls rs Inner ci"
  by (cases "(ls, rs, Inner, ci)" rule: column_field.cases; simp add: flip_column_def output_join_field_def)+

lemma filter_ok_swap:
  assumes "filter_ok ls rs ji jf"
  shows "filter_ok rs ls (swap_info ls rs m ji) (map_option join_filter_swap jf)"
proof (cases jf)
  case None
  with assms show ?thesis by (simp add: filter_ok_def)
next
  case (Some f)
  with assms obtain ev where f: "jf_column_indices f \<noteq> []" "columns_ok ls rs Inner (jf_schema f) (jf_column_indices f)"
    and ev: "\<forall>b. jf_expression f b = Inr (map ev (rows b))"
      "\<forall>l r. ev (join_row (jf_column_indices f) (Some l) (Some r) True) = Some True \<longleftrightarrow> ji_filter ji l r"
    by (auto simp: filter_ok_def)
  have "columns_ok rs ls Inner (jf_schema f) (map flip_column (jf_column_indices f))"
    using f(2) by (auto simp: columns_ok_def flip_valid)
  with Some f(1) ev show ?thesis by (auto simp: filter_ok_def join_filter_swap_columns join_row_flip intro!: exI [of _ ev])
qed

lemma join_setup_swap:
  assumes "join_setup ctx v ji jf left right"
  shows "join_setup ctx v (swap_info (in_schema left) (in_schema right) m ji) (map_option join_filter_swap jf) right left"
proof -
  let ?ls = "in_schema left" and ?rs = "in_schema right"
  have proj: "can_project (fst (build_join_schema ?ls ?rs (ji_type ji))) (ji_projection ji) = Inr ()"
    and keys: "keys_typed ?ls ?rs (ji_on ji) (be_types (tx_env ctx)) (be_types (tx_env ctx))"
    and jf: "filter_ok ?ls ?rs ji jf" using assms by (simp_all add: join_setup_def)
  have "can_project (fst (build_join_schema ?rs ?ls (swap (ji_type ji)))) (ji_projection (swap_info ?ls ?rs m ji)) = Inr ()"
    using projected_swap(3) [OF _ proj]
    by (cases "one_sided (ji_type ji) \<or> ji_projection ji \<noteq> None") (auto simp: swap_info_projection)
  moreover have "keys_typed ?rs ?ls (ji_on (swap_info ?ls ?rs m ji)) (be_types (tx_env ctx)) (be_types (tx_env ctx))"
    using keys by (auto simp: keys_typed_def)
  ultimately show ?thesis
    using assms filter_ok_swap [OF jf, of m] by (simp add: join_setup_def del: can_project.simps)
qed

section \<open>Properties\<close>

text \<open>C9. Swapping the inputs of a hash join keeps what its streams yield: for every join type
  that is not null-aware, the stream of the join that \<open>swap_inputs\<close> builds, over the exchanged
  inputs and the swapped filter and in whichever partition mode, ends without an error as the
  stream of the join does, and has the same rows, read through the projection that restores
  the order of the columns where one is added.\<close>

theorem swapped_streams_agree:
  assumes su: "join_setup ctx v ji jf left right" and na: "\<not> ji_null_aware ji" and nf: "ji_fetch ji = None"
    and sw: "ji' = swap_info (in_schema left) (in_schema right) m ji"
    and ex: "hash_join_execute ctx ji jf left right i = Inr (cfg, s)"
    and ex': "hash_join_execute ctx ji' (map_option join_filter_swap jf) right left i' = Inr (cfg', s')"
    and src: "in_execute left (left_partition ji i) = Inr (map Inr lbs)" "in_execute right i = Inr (map Inr rbs)"
    and src': "in_execute right (left_partition ji' i') = Inr (map Inr rbs)" "in_execute left i' = Inr (map Inr lbs)"
    and inputs: "join_inputs left right lbs rbs" "join_inputs right left rbs lbs"
    and sole: "sole_stream ji right" "sole_stream ji' left"
    and mem: "memory_granted (tx_env ctx) (length (flat_rows lbs))" "memory_granted (tx_env ctx) (length (flat_rows rbs))"
  shows "\<exists>bs bs'. run_stream cfg s = Some (map Inr bs) \<and> run_stream cfg' s' = Some (map Inr bs')
    \<and> mset (flat_rows bs) = mset (if one_sided (ji_type ji) \<or> ji_projection ji \<noteq> None then flat_rows bs'
        else map (pick_columns (swap_reverting_projection (in_schema left) (in_schema right))) (flat_rows bs'))"
proof -
  let ?ls = "in_schema left" and ?rs = "in_schema right"
  have nf': "ji_fetch ji' = None" and na': "\<not> ji_null_aware ji'" using nf na sw by simp_all
  obtain bs where bs: "run_stream cfg s = Some (map Inr bs)"
    "mset (flat_rows bs) = mset (join_rows ji (output_columns ji ?ls ?rs) (flat_rows lbs) (flat_rows rbs))"
    using hash_join_total [OF su na ex src inputs(1) sole(1) mem(1)] nf by (auto simp: take_fetch_def)
  obtain bs' where bs': "run_stream cfg' s' = Some (map Inr bs')"
    "mset (flat_rows bs') = mset (join_rows ji' (output_columns ji' ?rs ?ls) (flat_rows rbs) (flat_rows lbs))"
    using hash_join_total [OF join_setup_swap [OF su, of m, folded sw] na' ex' src' inputs(2) sole(2) mem(2)] nf'
    by (auto simp: take_fetch_def)
  have proj: "can_project (fst (build_join_schema ?ls ?rs (ji_type ji))) (ji_projection ji) = Inr ()"
    using su by (simp add: join_setup_def)
  show ?thesis
    using bs bs' projected_rows [OF _ proj, of m "flat_rows rbs" "flat_rows lbs"]
      reverted_rows [of ji ?ls ?rs m "flat_rows rbs" "flat_rows lbs"]
    by (cases "one_sided (ji_type ji) \<or> ji_projection ji \<noteq> None") (simp_all add: sw)
qed

lemma text_execute_swapped:
  "\<exists>cfg s. hash_join_execute (text_context pool p) (swap_info ls rs CollectLeft (text_join t fetch)) jf
     (text_input ''j'' R) (text_input ''k'' L) 0 = Inr (cfg, s)"
  by (simp add: hash_join_execute_def left_future_def start_collect_def text_join_def text_input_def projected_columns_def
      swap_info_def swap_join_projection_def Let_def case_prod_unfold)

theorem swapped_streams_agree_witness:
  "\<exists>cfg s cfg' s' bs bs'. hash_join_execute (text_context unbounded_ops \<lparr>ub_used = 0\<rparr>) (text_join Left None) None
      (text_input ''k'' [CStr ''a'', CStr ''b'']) (text_input ''j'' [CStr ''a'', CNull]) 0 = Inr (cfg, s)
    \<and> hash_join_execute (text_context unbounded_ops \<lparr>ub_used = 0\<rparr>)
        (swap_info (text_schema ''k'') (text_schema ''j'') CollectLeft (text_join Left None)) None
      (text_input ''j'' [CStr ''a'', CNull]) (text_input ''k'' [CStr ''a'', CStr ''b'']) 0 = Inr (cfg', s')
    \<and> run_stream cfg s = Some (map Inr bs) \<and> run_stream cfg' s' = Some (map Inr bs')
    \<and> mset (flat_rows bs) =
        mset (map (pick_columns (swap_reverting_projection (text_schema ''k'') (text_schema ''j''))) (flat_rows bs'))"
proof -
  let ?L = "[CStr ''a'', CStr ''b'']" and ?R = "[CStr ''a'', CNull]"
  let ?ctx = "text_context unbounded_ops \<lparr>ub_used = 0\<rparr>" and ?ji = "text_join Left None"
  let ?ji' = "swap_info (text_schema ''k'') (text_schema ''j'') CollectLeft ?ji"
  let ?l = "text_input ''k'' ?L" and ?r = "text_input ''j'' ?R"
  let ?lb = "\<lparr>col_types = [Utf8], rows = map (\<lambda>c. [c]) ?L\<rparr>" and ?rb = "\<lparr>col_types = [Utf8], rows = map (\<lambda>c. [c]) ?R\<rparr>"
  obtain cfg s where ex: "hash_join_execute ?ctx ?ji None ?l ?r 0 = Inr (cfg, s)"
    using text_execute [of unbounded_ops "\<lparr>ub_used = 0\<rparr>" Left None None ?L ?R] by blast
  obtain cfg' s' where ex': "hash_join_execute ?ctx ?ji' None ?r ?l 0 = Inr (cfg', s')"
    using text_execute_swapped [of unbounded_ops "\<lparr>ub_used = 0\<rparr>" "text_schema ''k''" "text_schema ''j''" Left None None ?R ?L] by blast
  have sch: "in_schema ?l = text_schema ''k''" "in_schema ?r = text_schema ''j''" by (simp_all add: text_input_def)
  have "join_inputs ?l ?r [?lb] [?rb]" "join_inputs ?r ?l [?rb] [?lb]"
    by (auto simp: join_inputs_def text_input_def text_schema_def batch_fits_def row_fits_def usize_mod_def num_rows_def)
  then show ?thesis
    using swapped_streams_agree [OF text_setup _ _ _ ex, where ji' = ?ji' and m = CollectLeft and i' = 0 and lbs = "[?lb]" and rbs = "[?rb]"] ex ex'
    by (simp add: sch unbounded_grants) (simp add: text_join_def text_input_def left_partition_def sole_stream_def one_sided_def)
qed

text \<open>C10. The stream of an inner hash join refines the join node of the pipeline: batch by batch it
  yields the rows, in their order and up to the fetch limit, that running the plan attributes
  to the node.\<close>

theorem inner_stream_refines_node:
  assumes su: "join_setup ctx v ji jf left right" and inner: "ji_type ji = Inner" "\<not> ji_null_aware ji"
    and ex: "hash_join_execute ctx ji jf left right i = Inr (cfg, s)"
    and src: "in_execute left (left_partition ji i) = Inr (map Inr lbs)" "in_execute right i = Inr (map Inr rbs)"
    and inputs: "join_inputs left right lbs rbs" and sole: "sole_stream ji right"
    and mem: "memory_granted (tx_env ctx) (length (flat_rows lbs))"
    and fetch: "\<And>f. ji_fetch ji = Some f \<Longrightarrow> f + length (flat_rows lbs) * length (flat_rows rbs) < usize_mod"
  shows "\<exists>bs. run_stream cfg s = Some (map Inr bs)
    \<and> flat_rows bs = flat_rows (hash_join_run J ji (in_schema left) (in_schema right) lbs rbs)"
proof -
  let ?ls = "in_schema left" and ?rs = "in_schema right"
  have width: "\<forall>r \<in> set (flat_rows bs). length r = length (schema_fields sch)" if "list_all (batch_fits sch) bs" for sch bs
    using that by (fastforce simp: flat_rows_def batch_fits_def row_fits_def list_all_iff dest: list_all2_lengthD)
  have proj: "can_project (fst (build_join_schema ?ls ?rs Inner)) (ji_projection ji) = Inr ()"
    using su inner(1) by (simp add: join_setup_def)
  have rows: "map (project_row (ji_projection ji)) (inner_join_rows ji (flat_rows lbs) (flat_rows rbs)) =
      join_rows ji (output_columns ji ?ls ?rs) (flat_rows lbs) (flat_rows rbs)"
    using inputs by (intro inner_rows_columns inner proj width) (simp_all add: join_inputs_def)
  have inner_rows: "join_rows ji cols L R = matched_rows ji cols L R" for cols L R using inner(1) by (simp add: join_rows_def)
  have "length (matched_rows ji cols L R) \<le> length L * length R" for cols L R
    by (induction R) (auto simp: matched_rows_def intro: order_trans [OF add_mono [OF length_filter_le]])
  then have "\<And>f. ji_fetch ji = Some f \<Longrightarrow> f + length (join_rows ji (output_columns ji ?ls ?rs) (flat_rows lbs) (flat_rows rbs)) < usize_mod"
    unfolding inner_rows using fetch by (meson add_left_mono order_le_less_trans)
  moreover have "flat_rows (hash_join_run J ji ?ls ?rs lbs rbs) =
      take_fetch (ji_fetch ji) (map (project_row (ji_projection ji)) (inner_join_rows ji (flat_rows lbs) (flat_rows rbs)))"
    by (simp add: hash_join_run_def inner(1) flat_rows_def)
  ultimately show ?thesis using hash_join_total [OF su inner(2) ex src inputs sole mem] inner(1)
    by (auto simp: rows inner_rows)
qed

theorem inner_stream_refines_node_witness:
  "\<exists>cfg s bs. hash_join_execute (text_context unbounded_ops \<lparr>ub_used = 0\<rparr>) (text_join Inner (Some 1)) None
      (text_input ''k'' [CStr ''a'', CStr ''b'']) (text_input ''j'' [CStr ''b'', CStr ''a'']) 0 = Inr (cfg, s)
    \<and> run_stream cfg s = Some (map Inr bs) \<and> flat_rows bs = [[CStr ''b'', CStr ''b'']]"
proof -
  let ?L = "[CStr ''a'', CStr ''b'']" and ?R = "[CStr ''b'', CStr ''a'']"
  let ?ctx = "text_context unbounded_ops \<lparr>ub_used = 0\<rparr>" and ?ji = "text_join Inner (Some 1)"
  let ?lb = "\<lparr>col_types = [Utf8], rows = map (\<lambda>c. [c]) ?L\<rparr>" and ?rb = "\<lparr>col_types = [Utf8], rows = map (\<lambda>c. [c]) ?R\<rparr>"
  obtain cfg s where ex: "hash_join_execute ?ctx ?ji None (text_input ''k'' ?L) (text_input ''j'' ?R) 0 = Inr (cfg, s)"
    using text_execute [of unbounded_ops "\<lparr>ub_used = 0\<rparr>" Inner "Some 1" None ?L ?R] by blast
  have "\<exists>bs. run_stream cfg s = Some (map Inr bs) \<and> flat_rows bs = flat_rows (hash_join_run (\<lambda>_ _ _ _ _. []) ?ji
      (in_schema (text_input ''k'' ?L)) (in_schema (text_input ''j'' ?R)) [?lb] [?rb])"
    by (rule inner_stream_refines_node [OF text_setup _ _ ex, where lbs = "[?lb]" and rbs = "[?rb]"])
       (use text_inputs [of ?L ?R] in
        \<open>simp_all add: text_join_def text_input_def left_partition_def sole_stream_def unbounded_grants flat_rows_def usize_mod_def\<close>)
  moreover have "flat_rows (hash_join_run (\<lambda>_ _ _ _ _. []) ?ji
      (in_schema (text_input ''k'' ?L)) (in_schema (text_input ''j'' ?R)) [?lb] [?rb]) = [[CStr ''b'', CStr ''b'']]" by code_simp
  ultimately show ?thesis using ex by auto
qed

end
