(* ===== verification/HashJoinShared.thy ===== *)
theory HashJoinShared
  imports HashJoinSound
begin

text \<open>
  The streams of one hash join in mode \<open>CollectLeft\<close>. They share the collected left side: its
  bitmap of visited rows, behind a mutex, and the counter of probe threads, which the last
  stream to exhaust its probe side uses to recognise that it has to emit the unmatched rows
  (\<open>JoinLeftData\<close> in \<open>joins/hash_join/exec.rs\<close>, \<open>OnceAsync\<close> in \<open>joins/utils.rs\<close>). The streams are
  polled in any order, and turns are the steps that interleave: a turn on a probe batch locks
  the bitmap once, a turn that reports decrements the counter once, and it goes on to read the
  bitmap only when no other stream is left that could change it.
\<close>

section \<open>Definitions\<close>

record 'c shared_join =
  sj_left :: "left_data option"
  sj_streams :: "'c hash_join_stream list"
  sj_items :: "batch res list list"

text \<open>
  The future of the build side is made once, by the first stream, and the others get the same
  one. A stream that is polled reads the left side as the others have left it, and what it
  makes of it is what they read next.
\<close>

fun lend_side :: "left_data option \<Rightarrow> build_side \<Rightarrow> build_side" where
  "lend_side (Some ld) (BuildInitial (Inr _)) = BuildInitial (Inr ld)"
| "lend_side (Some ld) (BuildReady _) = BuildReady ld"
| "lend_side _ b = b"

definition lend :: "left_data option \<Rightarrow> 'c hash_join_stream \<Rightarrow> 'c hash_join_stream" where
  "lend sh s = s\<lparr>hs_build_side := lend_side sh (hs_build_side s)\<rparr>"

fun side_left :: "build_side \<Rightarrow> left_data option" where
  "side_left (BuildInitial (Inl e)) = None"
| "side_left (BuildInitial (Inr ld)) = Some ld"
| "side_left (BuildReady ld) = Some ld"

abbreviation left_of :: "'c hash_join_stream \<Rightarrow> left_data option" where
  "left_of s \<equiv> side_left (hs_build_side s)"

definition shared_start :: "'c hash_join_stream list \<Rightarrow> 'c shared_join" where
  "shared_start ss = \<lparr>sj_left = left_of (hd ss), sj_streams = ss, sj_items = replicate (length ss) []\<rparr>"

definition poll_shared :: "'c stream_config \<Rightarrow> nat \<Rightarrow> 'c shared_join \<Rightarrow> 'c shared_join option" where
  "poll_shared cfg i sys =
     (case poll_turn cfg (lend (sj_left sys) (sj_streams sys ! i)) of
        Emit b s' \<Rightarrow> Some (sys\<lparr>sj_left := left_of s', sj_streams := (sj_streams sys)[i := s'],
                              sj_items := (sj_items sys)[i := sj_items sys ! i @ [Inr b]]\<rparr>)
      | Again s' \<Rightarrow> Some (sys\<lparr>sj_left := left_of s', sj_streams := (sj_streams sys)[i := s']\<rparr>)
      | Fail e \<Rightarrow> Some (sys\<lparr>sj_items := (sj_items sys)[i := sj_items sys ! i @ [Inl e]]\<rparr>)
      | End \<Rightarrow> Some sys
      | Diverges \<Rightarrow> None)"

fun run_schedule :: "'c stream_config \<Rightarrow> nat list \<Rightarrow> 'c shared_join \<Rightarrow> 'c shared_join option" where
  "run_schedule cfg [] sys = Some sys"
| "run_schedule cfg (i # is) sys = Option.bind (poll_shared cfg i sys) (run_schedule cfg is)"

definition has_ended :: "'c stream_config \<Rightarrow> 'c shared_join \<Rightarrow> nat \<Rightarrow> bool" where
  "has_ended cfg sys i \<longleftrightarrow> poll_turn cfg (lend (sj_left sys) (sj_streams sys ! i)) = End"

section \<open>Turns on a shared left side\<close>

text \<open>
  Until its probe side is exhausted a stream only adds to the bitmap and never reads it or the
  counter, so that a turn does the same whatever the other streams have done.
\<close>

lemma lend_fields [simp]:
  "hs_state (lend sh s) = hs_state s" "hs_right (lend sh s) = hs_right s" "hs_hashes_buffer (lend sh s) = hs_hashes_buffer s"
  "hs_output_buffer (lend sh s) = hs_output_buffer s" "hs_build_side (lend sh s) = lend_side sh (hs_build_side s)"
  by (simp_all add: lend_def)

lemma lend_ready: "hs_build_side s = BuildReady ld \<Longrightarrow> lend (Some ld') s = s\<lparr>hs_build_side := BuildReady ld'\<rparr>"
  by (simp add: lend_def)

lemma lend_side_lend [simp]: "lend_side (Some x) (lend_side (Some y) b) = lend_side (Some x) b"
  by (cases "(Some y, b)" rule: lend_side.cases) auto

lemma lend_lend [simp]: "lend (Some x) (lend (Some y) s) = lend (Some x) s"
  by (simp add: lend_def)

lemma lend_update [simp]:
  "lend sh (s\<lparr>hs_output_buffer := lc\<rparr>) = (lend sh s)\<lparr>hs_output_buffer := lc\<rparr>"
  "lend sh (s\<lparr>hs_state := st\<rparr>) = (lend sh s)\<lparr>hs_state := st\<rparr>"
  by (cases s; simp add: lend_def)+

definition marks :: "nat list \<Rightarrow> bool list \<Rightarrow> bool list" where
  "marks m bits = fold (\<lambda>j bits. bits[j := True]) m bits"

lemma length_marks [simp]: "length (marks m bits) = length bits"
  unfolding marks_def by (induction m arbitrary: bits) auto

lemma nth_marks: "j < length bits \<Longrightarrow> marks m bits ! j \<longleftrightarrow> bits ! j \<or> j \<in> set m"
proof (induction m arbitrary: bits)
  case (Cons k m)
  then show ?case using Cons.IH [of "bits[k := True]"] by (cases "k = j") (auto simp: marks_def)
qed (simp add: marks_def)

definition somes :: "index_array \<Rightarrow> nat list" where
  "somes xs = map the (filter (\<lambda>x. x \<noteq> None) xs)"

lemma set_visited_marks:
  "set_visited xs bits = Inr out \<Longrightarrow> length bits' = length bits \<Longrightarrow> set_visited xs bits' = Inr (marks (somes xs) bits')"
  by (induction xs bits arbitrary: bits' rule: set_visited.induct) (auto simp: marks_def somes_def split: if_splits)

text \<open>The left side with other contents of the shared cells.\<close>

abbreviation cells :: "left_data \<Rightarrow> bool list \<Rightarrow> nat \<Rightarrow> left_data" where
  "cells ld bits th \<equiv> ld\<lparr>ld_visited := bits, ld_threads := th\<rparr>"

lemma cells_fields:
  "ld_batch (cells ld bits th) = ld_batch ld" "ld_map (cells ld bits th) = ld_map ld" "ld_values (cells ld bits th) = ld_values ld"
  "ld_visited (cells ld bits th) = bits" "(cells ld bits th)\<lparr>ld_visited := bits'\<rparr> = cells ld bits' th"
  by simp_all

definition chunk_after ::
  "'c stream_config \<Rightarrow> process_probe_state \<Rightarrow> map_offset option \<Rightarrow> index_array \<Rightarrow> push_status \<Rightarrow> 'c limited_coalescer
    \<Rightarrow> ('c limited_coalescer \<times> stream_state) res" where
  "chunk_after cfg ps nxt ri st out =
     (if st = LimitReached then bind_res (lc_finish (hc_coalescer cfg) out) (\<lambda>out'. Inr (out', Completed))
      else Inr (out, case nxt of None \<Rightarrow> FetchProbeBatch | Some off \<Rightarrow> ProcessProbeBatch (advance off (last_index ri) ps)))"

lemma bind_res_bind: "bind_res (bind_res r f) g = bind_res r (\<lambda>x. bind_res (f x) g)"
  by (cases r) simp_all

lemma join_chunk_Inr:
  "join_chunk cfg ld ps l0 r0 nxt s = Inr s' \<longleftrightarrow>
    (\<exists>li ri bits b st out out' next_state.
      (case hc_filter cfg of None \<Rightarrow> Inr (l0, r0)
       | Some jf \<Rightarrow> apply_join_filter_to_indices (hc_kernels cfg) (ld_batch ld) (ps_batch ps) l0 r0 jf SideLeft None (hc_join_type cfg)) = Inr (li, ri) \<and>
      (if need_produce_result_in_final (hc_join_type cfg) then set_visited li (ld_visited ld) else Inr (ld_visited ld)) = Inr bits \<and>
      (let (l2, r2) = adjust_indices_by_join_type li ri (alignment_range (ps_joined_probe_idx ps) (nxt = None)
             (num_rows (ps_batch ps)) (last_index ri)) (hc_join_type cfg) (hc_right_side_ordered cfg)
       in if hc_join_type cfg = RightMark
          then build_batch_from_indices (hc_kernels cfg) (hc_schema cfg) (ps_batch ps) (ld_batch ld) l2 r2 (hc_column_indices cfg) SideRight (hc_join_type cfg)
          else build_batch_from_indices (hc_kernels cfg) (hc_schema cfg) (ld_batch ld) (ps_batch ps) l2 r2 (hc_column_indices cfg) SideLeft (hc_join_type cfg)) = Inr b \<and>
      lc_push_batch (hc_coalescer cfg) b (hs_output_buffer s) = Inr (st, out) \<and>
      chunk_after cfg ps nxt ri st out = Inr (out', next_state) \<and>
      s' = s\<lparr>hs_build_side := BuildReady (ld\<lparr>ld_visited := bits\<rparr>), hs_output_buffer := out', hs_state := next_state\<rparr>)"
proof -
  let ?F = "case hc_filter cfg of None \<Rightarrow> Inr (l0, r0)
       | Some jf \<Rightarrow> apply_join_filter_to_indices (hc_kernels cfg) (ld_batch ld) (ps_batch ps) l0 r0 jf SideLeft None (hc_join_type cfg)"
  have "join_chunk cfg ld ps l0 r0 nxt s = bind_res ?F (\<lambda>(li, ri).
     bind_res (if need_produce_result_in_final (hc_join_type cfg) then set_visited li (ld_visited ld) else Inr (ld_visited ld)) (\<lambda>bits.
     bind_res (let (l2, r2) = adjust_indices_by_join_type li ri (alignment_range (ps_joined_probe_idx ps) (nxt = None)
             (num_rows (ps_batch ps)) (last_index ri)) (hc_join_type cfg) (hc_right_side_ordered cfg)
       in if hc_join_type cfg = RightMark
          then build_batch_from_indices (hc_kernels cfg) (hc_schema cfg) (ps_batch ps) (ld_batch ld) l2 r2 (hc_column_indices cfg) SideRight (hc_join_type cfg)
          else build_batch_from_indices (hc_kernels cfg) (hc_schema cfg) (ld_batch ld) (ps_batch ps) l2 r2 (hc_column_indices cfg) SideLeft (hc_join_type cfg)) (\<lambda>b.
     bind_res (lc_push_batch (hc_coalescer cfg) b (hs_output_buffer s)) (\<lambda>(st, out).
     bind_res (chunk_after cfg ps nxt ri st out) (\<lambda>(out', next_state).
     Inr (s\<lparr>hs_build_side := BuildReady (ld\<lparr>ld_visited := bits\<rparr>), hs_output_buffer := out', hs_state := next_state\<rparr>))))))"
    unfolding join_chunk_def Let_def case_prod_unfold
    by (intro bind_res_cong refl) (simp add: chunk_after_def bind_res_bind)
  then show ?thesis by (simp only: bind_res_Inr_iff split_paired_Ex prod.case sum.inject) blast
qed

lemma join_chunk_frame:
  assumes "join_chunk cfg ld ps l0 r0 nxt s = Inr s'"
  shows "\<exists>m. hs_build_side s' = BuildReady (ld\<lparr>ld_visited := marks m (ld_visited ld)\<rparr>)
    \<and> (\<forall>bits th x. length bits = length (ld_visited ld) \<longrightarrow>
        join_chunk cfg (cells ld bits th) ps l0 r0 nxt (s\<lparr>hs_build_side := x\<rparr>) =
        Inr (s'\<lparr>hs_build_side := BuildReady (cells ld (marks m bits) th)\<rparr>))"
proof -
  obtain li ri bits0 b st out out' ns where p:
    "(case hc_filter cfg of None \<Rightarrow> Inr (l0, r0)
       | Some jf \<Rightarrow> apply_join_filter_to_indices (hc_kernels cfg) (ld_batch ld) (ps_batch ps) l0 r0 jf SideLeft None (hc_join_type cfg)) = Inr (li, ri)"
    "(if need_produce_result_in_final (hc_join_type cfg) then set_visited li (ld_visited ld) else Inr (ld_visited ld)) = Inr bits0"
    "(let (l2, r2) = adjust_indices_by_join_type li ri (alignment_range (ps_joined_probe_idx ps) (nxt = None)
             (num_rows (ps_batch ps)) (last_index ri)) (hc_join_type cfg) (hc_right_side_ordered cfg)
       in if hc_join_type cfg = RightMark
          then build_batch_from_indices (hc_kernels cfg) (hc_schema cfg) (ps_batch ps) (ld_batch ld) l2 r2 (hc_column_indices cfg) SideRight (hc_join_type cfg)
          else build_batch_from_indices (hc_kernels cfg) (hc_schema cfg) (ld_batch ld) (ps_batch ps) l2 r2 (hc_column_indices cfg) SideLeft (hc_join_type cfg)) = Inr b"
    "lc_push_batch (hc_coalescer cfg) b (hs_output_buffer s) = Inr (st, out)" "chunk_after cfg ps nxt ri st out = Inr (out', ns)"
    "s' = s\<lparr>hs_build_side := BuildReady (ld\<lparr>ld_visited := bits0\<rparr>), hs_output_buffer := out', hs_state := ns\<rparr>"
    using assms unfolding join_chunk_Inr by (elim exE conjE) (rule that)
  define m where "m = (if need_produce_result_in_final (hc_join_type cfg) then somes li else [])"
  have vis: "(if need_produce_result_in_final (hc_join_type cfg) then set_visited li bits else Inr bits) = Inr (marks m bits)"
    if "length bits = length (ld_visited ld)" for bits
  proof (cases "need_produce_result_in_final (hc_join_type cfg)")
    case True
    then have "set_visited li (ld_visited ld) = Inr bits0" using p(2) by simp
    from set_visited_marks [OF this that] True show ?thesis by (simp add: m_def)
  qed (simp add: m_def marks_def)
  have "join_chunk cfg (cells ld bits th) ps l0 r0 nxt (s\<lparr>hs_build_side := x\<rparr>) = Inr (s'\<lparr>hs_build_side := BuildReady (cells ld (marks m bits) th)\<rparr>)"
    if "length bits = length (ld_visited ld)" for bits th x
    unfolding join_chunk_Inr cells_fields
    by (rule exI [of _ li], rule exI [of _ ri], rule exI [of _ "marks m bits"], rule exI [of _ b], rule exI [of _ st],
        rule exI [of _ out], rule exI [of _ out'], rule exI [of _ ns], intro conjI,
        rule p(1), rule vis [OF that], rule p(3), simp add: p(4), rule p(5), simp add: p(6))
  moreover have "hs_build_side s' = BuildReady (ld\<lparr>ld_visited := marks m (ld_visited ld)\<rparr>)"
    unfolding p(6) using trans [OF p(2) [symmetric] vis [OF refl]] by simp
  ultimately show ?thesis by blast
qed

lemma lookup_map_cells: "lookup_map cfg (cells ld bits th) = lookup_map cfg ld"
  by (intro ext) (simp only: lookup_map_def cells_fields)

lemma process_probe_frame:
  assumes na: "\<not> hc_null_aware cfg" and left: "hs_build_side s = BuildReady ld"
    and step: "process_probe_batch cfg ps s = Some (Inr s')"
  shows "\<exists>m. hs_build_side s' = BuildReady (ld\<lparr>ld_visited := marks m (ld_visited ld)\<rparr>)
    \<and> (\<forall>bits th. length bits = length (ld_visited ld) \<longrightarrow>
        process_probe_batch cfg ps (s\<lparr>hs_build_side := BuildReady (cells ld bits th)\<rparr>) =
        Some (Inr (s'\<lparr>hs_build_side := BuildReady (cells ld (marks m bits) th)\<rparr>)))"
proof (cases "map_is_empty (ld_map ld) \<and> hc_filter cfg = None")
  case True
  then obtain b st out where "build_batch_empty_build_side (hc_kernels cfg) (hc_schema cfg) (ld_batch ld) (ps_batch ps)
        (hc_column_indices cfg) (hc_join_type cfg) = Inr b"
    "lc_push_batch (hc_coalescer cfg) b (hs_output_buffer s) = Inr (st, out)"
    "s' = s\<lparr>hs_build_side := BuildReady ld, hs_output_buffer := out, hs_state := FetchProbeBatch\<rparr>"
    using step na left by (auto simp: process_probe_batch_def)
  then show ?thesis using na True by (intro exI [of _ "[]"]) (simp add: process_probe_batch_def marks_def)
next
  case False
  then obtain l0 r0 nxt where l: "lookup_map cfg ld (hs_hashes_buffer s) ps = Some (Inr (l0, r0, nxt))" "join_chunk cfg ld ps l0 r0 nxt s = Inr s'"
    using step na left by (auto simp: process_probe_batch_def elim!: bind_run.elims)
  from join_chunk_frame [OF l(2)] obtain m where m: "hs_build_side s' = BuildReady (ld\<lparr>ld_visited := marks m (ld_visited ld)\<rparr>)"
    "\<And>bits th x. length bits = length (ld_visited ld) \<Longrightarrow> join_chunk cfg (cells ld bits th) ps l0 r0 nxt (s\<lparr>hs_build_side := x\<rparr>) =
        Inr (s'\<lparr>hs_build_side := BuildReady (cells ld (marks m bits) th)\<rparr>)" by blast
  have "process_probe_batch cfg ps (s\<lparr>hs_build_side := BuildReady (cells ld bits th)\<rparr>) =
      Some (join_chunk cfg (cells ld bits th) ps l0 r0 nxt (s\<lparr>hs_build_side := BuildReady (cells ld bits th)\<rparr>))" for bits th
  proof -
    have "lookup_map cfg (cells ld bits th) (hs_hashes_buffer s) ps = Some (Inr (l0, r0, nxt))" using l(1) by (simp only: lookup_map_cells)
    then show ?thesis using na False by (auto simp: process_probe_batch_def)
  qed
  with m show ?thesis by auto
qed

text \<open>A turn of a stream that has not exhausted its probe side, on another state of the cells.\<close>

lemma turn_emit_frame:
  "poll_turn cfg s = Emit b s' \<Longrightarrow> poll_turn cfg (lend sh s) = Emit b (lend sh s') \<and> hs_build_side s' = hs_build_side s"
  by (auto simp: poll_turn_def split: option.splits if_splits stream_state.splits sum.splits elim!: handle_state.elims)

definition turn_body :: "'c stream_config \<Rightarrow> 'c hash_join_stream \<Rightarrow> 'c polled" where
  "turn_body cfg s = (case hs_state s of
       WaitBuildSide \<Rightarrow> handle_state (collect_build_side cfg s)
     | WaitPartitionBoundsReport \<Rightarrow> handle_state (wait_for_partition_bounds_report cfg s)
     | FetchProbeBatch \<Rightarrow> handle_state (fetch_probe_batch cfg s)
     | ProcessProbeBatch ps \<Rightarrow> (case process_probe_batch cfg ps s of None \<Rightarrow> Diverges | Some r \<Rightarrow> handle_state r)
     | ExhaustedProbeSide \<Rightarrow> handle_state (process_unmatched_build_batch cfg s)
     | Completed \<Rightarrow>
         if lc_is_empty (hc_coalescer cfg) (hs_output_buffer s) then End
         else handle_state (bind_res (lc_finish (hc_coalescer cfg) (hs_output_buffer s)) (\<lambda>out. Inr (s\<lparr>hs_output_buffer := out\<rparr>))))"

lemma poll_turn_body:
  "poll_turn cfg s = (case lc_next_completed_batch (hc_coalescer cfg) (hs_output_buffer s) of
       Some (b, out) \<Rightarrow> Emit b (s\<lparr>hs_output_buffer := out\<rparr>)
     | None \<Rightarrow> if lc_finished (hs_output_buffer s) then End else turn_body cfg s)"
  unfolding poll_turn_def turn_body_def by (rule refl)

lemma poll_turn_lend:
  "poll_turn cfg s = Again s' \<Longrightarrow> poll_turn cfg (lend sh s) = turn_body cfg (lend sh s) \<and> turn_body cfg s = Again s'"
  by (auto simp: poll_turn_body split: option.splits if_splits)

lemma handle_Again [simp]: "handle_state r = Again s \<longleftrightarrow> r = Inr s"
  by (cases r) auto

lemma turn_again_frame:
  assumes na: "\<not> hc_null_aware cfg" and "poll_turn cfg s = Again s'" and st: "hs_state s \<noteq> ExhaustedProbeSide" and left: "left_of s = Some ld"
  shows "\<exists>m. left_of s' = Some (ld\<lparr>ld_visited := marks m (ld_visited ld)\<rparr>)
    \<and> (\<forall>bits th. length bits = length (ld_visited ld) \<longrightarrow>
        poll_turn cfg (lend (Some (cells ld bits th)) s) = Again (lend (Some (cells ld (marks m bits) th)) s'))"
proof -
  note lent = conjunct1 [OF poll_turn_lend [OF assms(2)]] and body = conjunct2 [OF poll_turn_lend [OF assms(2)]]
  have quiet: ?thesis if "left_of s' = Some ld" "\<And>bits th. turn_body cfg (lend (Some (cells ld bits th)) s) = Again (lend (Some (cells ld bits th)) s')"
    using that lent by (intro exI [of _ "[]"]) (simp add: marks_def)
  show ?thesis
  proof (cases "hs_state s")
    case WaitBuildSide
    then show ?thesis using body left
      by (intro quiet; cases "hs_build_side s" rule: side_left.cases) (auto simp: turn_body_def collect_build_side_def lend_def)
  next
    case WaitPartitionBoundsReport
    then show ?thesis using body left by (intro quiet) (auto simp: turn_body_def wait_for_partition_bounds_report_def)
  next
    case FetchProbeBatch
    then show ?thesis using body left
      by (intro quiet; cases "hs_build_side s" rule: side_left.cases; cases "ld_map ld")
         (auto simp: turn_body_def fetch_probe_batch_def lend_def split: list.splits sum.splits)
  next
    case (ProcessProbeBatch ps)
    then have step: "process_probe_batch cfg ps s = Some (Inr s')" using body by (auto simp: turn_body_def split: option.splits)
    then have ready: "hs_build_side s = BuildReady ld"
      using left by (cases "hs_build_side s" rule: side_left.cases) (auto simp: process_probe_batch_def)
    from process_probe_frame [OF na ready step] obtain m where
      m: "hs_build_side s' = BuildReady (ld\<lparr>ld_visited := marks m (ld_visited ld)\<rparr>)"
      "\<And>bits th. length bits = length (ld_visited ld) \<Longrightarrow> process_probe_batch cfg ps (s\<lparr>hs_build_side := BuildReady (cells ld bits th)\<rparr>) =
        Some (Inr (s'\<lparr>hs_build_side := BuildReady (cells ld (marks m bits) th)\<rparr>))" by blast
    have "poll_turn cfg (lend (Some (cells ld bits th)) s) = Again (lend (Some (cells ld (marks m bits) th)) s')"
      if "length bits = length (ld_visited ld)" for bits th
      using m(2) [OF that] ProcessProbeBatch lent [of "Some (cells ld bits th)"]
      unfolding lend_ready [OF ready] lend_ready [OF m(1)] by (simp add: turn_body_def)
    with m(1) show ?thesis by auto
  next
    case Completed
    then show ?thesis using body left by (intro quiet) (auto simp: turn_body_def split: if_splits)
  qed (use st in simp)
qed

lemma turn_end_frame: "poll_turn cfg s = End \<Longrightarrow> poll_turn cfg (lend sh s) = End"
  by (auto simp: poll_turn_body turn_body_def split: option.splits if_splits stream_state.splits elim!: handle_state.elims)

lemma completed_turn:
  "hs_state s = Completed \<Longrightarrow> poll_turn cfg s = Again s' \<Longrightarrow> hs_state s' = Completed"
  "poll_turn cfg s = Emit b s' \<Longrightarrow> hs_state s' = hs_state s"
  by (auto simp: poll_turn_body turn_body_def split: option.splits if_splits stream_state.splits elim!: handle_state.elims)

lemma exhausted_turn:
  assumes "hs_state s = ExhaustedProbeSide" and "poll_turn cfg s = Again s'" and "hs_build_side s = BuildReady ld" and "\<not> hc_null_aware cfg"
  shows "hs_state s' = Completed"
    and "hs_build_side s' = BuildReady (if need_produce_result_in_final (hc_join_type cfg) then ld\<lparr>ld_threads := wsub (ld_threads ld) 1\<rparr> else ld)"
proof -
  have "process_unmatched_build_batch cfg s = Inr s'"
    using assms(1,2) by (auto simp: poll_turn_body turn_body_def split: option.splits if_splits)
  then show "hs_state s' = Completed"
    "hs_build_side s' = BuildReady (if need_produce_result_in_final (hc_join_type cfg) then ld\<lparr>ld_threads := wsub (ld_threads ld) 1\<rparr> else ld)"
    using assms(3,4) by (auto simp: process_unmatched_build_batch_def report_probe_completed_def Let_def split: if_splits prod.splits)
qed

end
