(* ===== verification/HashJoinInterleave.thy ===== *)
theory HashJoinInterleave
  imports HashJoinShared
begin

text \<open>
  A stream of a collected hash join, followed on its own up to the point where it reports that
  its probe side is exhausted, and what a turn of it does among the other streams.
\<close>

section \<open>The turns of one stream\<close>

text \<open>
  The turns that lead from a state to one where \<open>T\<close> holds: their number, and the rows that
  are emitted on the way followed by those that \<open>T\<close> says are still to come.
\<close>

inductive reach :: "'c stream_config \<Rightarrow> ('c hash_join_stream \<Rightarrow> row list \<Rightarrow> bool) \<Rightarrow> nat \<Rightarrow> 'c hash_join_stream \<Rightarrow> row list \<Rightarrow> bool"
  for cfg T where
  stop: "T s xs \<Longrightarrow> reach cfg T 0 s xs"
| emit: "poll_turn cfg s = Emit b s' \<Longrightarrow> reach cfg T n s' xs \<Longrightarrow> reach cfg T (Suc n) s (rows b @ xs)"
| again: "poll_turn cfg s = Again s' \<Longrightarrow> reach cfg T n s' xs \<Longrightarrow> reach cfg T (Suc n) s xs"

definition at_end :: "'c stream_config \<Rightarrow> 'c hash_join_stream \<Rightarrow> row list \<Rightarrow> bool" where
  "at_end cfg s xs \<longleftrightarrow> poll_turn cfg s = End \<and> xs = []"

definition at_exhausted ::
  "(bool list \<Rightarrow> bool) \<Rightarrow> left_data \<Rightarrow> 'c stream_config \<Rightarrow> 'c buffer_view \<Rightarrow> 'c hash_join_stream \<Rightarrow> row list \<Rightarrow> bool" where
  "at_exhausted Q ld cfg v s xs \<longleftrightarrow> hs_state s = ExhaustedProbeSide \<and>
     (\<exists>bits. hs_build_side s = BuildReady (ld\<lparr>ld_visited := bits\<rparr>) \<and> length bits = length (ld_visited ld) \<and> Q bits) \<and>
     buffer_ok cfg v (hs_output_buffer s) 0 \<and> bv_completed v (lc_inner (hs_output_buffer s)) = [] \<and>
     lc_fetch (hs_output_buffer s) = None \<and> xs = buffered v (hs_output_buffer s)"

text \<open>A stream without a limit that gets to the end of its probe side.\<close>

definition arrives ::
  "(bool list \<Rightarrow> bool) \<Rightarrow> left_data \<Rightarrow> 'c stream_config \<Rightarrow> 'c buffer_view \<Rightarrow> 'c hash_join_stream \<Rightarrow> row list \<Rightarrow> bool" where
  "arrives Q ld cfg v s xs \<longleftrightarrow>
     (\<forall>lc. buffer_ok cfg v lc (length xs) \<longrightarrow> lc_fetch lc = None \<longrightarrow>
        (\<exists>n. reach cfg (at_exhausted Q ld cfg v) n (s\<lparr>hs_output_buffer := lc\<rparr>) (buffered v lc @ xs)))"

lemma next_batch_fetch:
  assumes "view_ok cfg v" and "bv_completed v (lc_inner lc) = b # bs"
  shows "\<exists>lc'. poll_turn cfg (s\<lparr>hs_output_buffer := lc\<rparr>) = Emit b (s\<lparr>hs_output_buffer := lc'\<rparr>)
    \<and> bv_completed v (lc_inner lc') = bs \<and> buffered v lc = rows b @ buffered v lc'
    \<and> (\<forall>n. buffer_ok cfg v lc n \<longrightarrow> buffer_ok cfg v lc' n) \<and> lc_fetch lc' = lc_fetch lc"
proof -
  obtain lc' where "lc_next_completed_batch (hc_coalescer cfg) lc = Some (b, lc')" "bv_completed v (lc_inner lc') = bs"
    "lc_finished lc' = lc_finished lc" "lc_total_rows lc' = lc_total_rows lc" "lc_fetch lc' = lc_fetch lc"
    "bv_types v (lc_inner lc') = bv_types v (lc_inner lc)" "buffered v lc = rows b @ buffered v lc'"
    using lc_next_rows [OF assms(1) [unfolded view_ok_def], of lc] assms(2) by (auto simp: buffered_def)
  then show ?thesis by (intro exI [of _ lc']) (auto simp: poll_turn_def buffer_ok_def fits_def split: option.splits)
qed

lemma arrivesI:
  assumes v: "view_ok cfg v"
    and step: "\<And>lc. buffer_ok cfg v lc (length xs) \<Longrightarrow> lc_fetch lc = None \<Longrightarrow> bv_completed v (lc_inner lc) = [] \<Longrightarrow>
      \<exists>n. reach cfg (at_exhausted Q ld cfg v) n (s\<lparr>hs_output_buffer := lc\<rparr>) (buffered v lc @ xs)"
  shows "arrives Q ld cfg v s xs"
  unfolding arrives_def
proof (intro allI impI)
  fix lc assume "buffer_ok cfg v lc (length xs)" "lc_fetch lc = None"
  then show "\<exists>n. reach cfg (at_exhausted Q ld cfg v) n (s\<lparr>hs_output_buffer := lc\<rparr>) (buffered v lc @ xs)"
  proof (induction "bv_completed v (lc_inner lc)" arbitrary: lc)
    case Nil
    then show ?case by (intro step) simp_all
  next
    case (Cons b bs)
    from next_batch_fetch [OF v Cons(2) [symmetric], of s] obtain lc' where
      lc': "poll_turn cfg (s\<lparr>hs_output_buffer := lc\<rparr>) = Emit b (s\<lparr>hs_output_buffer := lc'\<rparr>)"
        "bv_completed v (lc_inner lc') = bs" "buffered v lc = rows b @ buffered v lc'"
        "\<forall>n. buffer_ok cfg v lc n \<longrightarrow> buffer_ok cfg v lc' n" "lc_fetch lc' = lc_fetch lc" by blast
    have "\<exists>n. reach cfg (at_exhausted Q ld cfg v) n (s\<lparr>hs_output_buffer := lc'\<rparr>) (buffered v lc' @ xs)"
      using Cons(1) [OF lc'(2) [symmetric]] lc'(4,5) Cons(3,4) by simp
    then show ?case using reach.emit [OF lc'(1)] lc'(3) by fastforce
  qed
qed

lemma arrives_step:
  assumes v: "view_ok cfg v" and "arrives Q ld cfg v s' xs"
    and "\<And>lc. drained_buffer v lc \<Longrightarrow> poll_turn cfg (s\<lparr>hs_output_buffer := lc\<rparr>) = Again (s'\<lparr>hs_output_buffer := lc\<rparr>)"
  shows "arrives Q ld cfg v s xs"
proof (rule arrivesI [OF v])
  fix lc assume lc: "buffer_ok cfg v lc (length xs)" "lc_fetch lc = None" "bv_completed v (lc_inner lc) = []"
  then have "drained_buffer v lc" by (simp add: drained_buffer_def buffer_ok_def)
  with assms(2,3) lc show "\<exists>n. reach cfg (at_exhausted Q ld cfg v) n (s\<lparr>hs_output_buffer := lc\<rparr>) (buffered v lc @ xs)"
    unfolding arrives_def by (blast intro: reach.again)
qed

lemma arrives_push:
  assumes v: "view_ok cfg v" and "arrives Q ld cfg v s' xs"
    and b: "col_types b = map field_type (schema_fields (hc_schema cfg))"
    and step: "\<And>lc. drained_buffer v lc \<Longrightarrow> poll_turn cfg (s\<lparr>hs_output_buffer := lc\<rparr>) =
      handle_state (bind_res (lc_push_batch (hc_coalescer cfg) b lc) (\<lambda>(status, out).
        if stop \<and> status = LimitReached
        then bind_res (lc_finish (hc_coalescer cfg) out) (\<lambda>out'. Inr (sf\<lparr>hs_output_buffer := out'\<rparr>))
        else Inr (s'\<lparr>hs_output_buffer := out\<rparr>)))"
  shows "arrives Q ld cfg v s (rows b @ xs)"
proof (rule arrivesI [OF v])
  fix lc assume lc: "buffer_ok cfg v lc (length (rows b @ xs))" "lc_fetch lc = None" "bv_completed v (lc_inner lc) = []"
  then have dr: "drained_buffer v lc" by (simp add: drained_buffer_def buffer_ok_def)
  have "fits lc (num_rows b + length xs)" using lc(1) by (simp add: buffer_ok_def num_rows_def)
  then obtain st lc' where p: "lc_push_batch (hc_coalescer cfg) b lc = Inr (st, lc')" "buffer_ok cfg v lc' (length xs)"
    "buffered v lc' = buffered v lc @ take_room lc (rows b)"
    using lc_push_batch_rows [OF v [unfolded view_ok_def], of lc b "length xs"] lc b by (auto simp: buffer_ok_def buffered_def)
  have q: "st \<noteq> LimitReached" "lc_fetch lc' = None"
    using p(1) lc(1,2) by (auto simp: lc_push_batch_def buffer_ok_def)
  have "poll_turn cfg (s\<lparr>hs_output_buffer := lc\<rparr>) = Again (s'\<lparr>hs_output_buffer := lc'\<rparr>)"
    using step [OF dr] p(1) q(1) by simp
  moreover obtain n where "reach cfg (at_exhausted Q ld cfg v) n (s'\<lparr>hs_output_buffer := lc'\<rparr>) (buffered v lc' @ xs)"
    using assms(2) p(2) q(2) unfolding arrives_def by blast
  ultimately show "\<exists>n. reach cfg (at_exhausted Q ld cfg v) n (s\<lparr>hs_output_buffer := lc\<rparr>) (buffered v lc @ rows b @ xs)"
    using p(3) lc(2) by (auto simp: take_room_def intro: reach.again)
qed

interpretation arr: turn_logic "arrives Q ld" for Q ld
  by unfold_locales (rule arrives_step arrives_push; assumption)+


lemma solo_stream:
  assumes v: "view_ok cfg v" and ready: "join_ready cfg ls rs ji dl" and na: "\<not> hc_null_aware cfg"
    and right: "list_all (batch_fits rs) rbs" "list_all (\<lambda>b. num_rows b < 2 ^ 32) rbs"
    and ok: "left_ok ls (hc_hash cfg) dl (ji_null_equality ji) (map fst (ji_on ji)) L ord ld"
    and vis: "visited_ok ji (ld_batch ld) [] (ld_visited ld)"
  shows "\<exists>n xs. reach cfg (at_exhausted (visited_ok ji (ld_batch ld) (flat_rows rbs)) ld cfg v) n (stream_new cfg (Inr ld) (map Inr rbs) None) xs
    \<and> mset xs = mset (probe_rows ji (hc_column_indices cfg) L (flat_rows rbs))"
proof -
  let ?Q = "visited_ok ji (ld_batch ld) (flat_rows rbs)" and ?s = "stream_new cfg (Inr ld) (map Inr rbs) None"
  let ?lc = "lc_new (hc_coalescer cfg) (hc_schema cfg) (hc_batch_size cfg) None"
  let ?s2 = "?s\<lparr>hs_state := FetchProbeBatch, hs_build_side := BuildReady ld\<rparr>"
  have fin: "\<exists>ys. arrives ?Q ld cfg v s' ys \<and> ys = []"
    if "hs_state s' = ExhaustedProbeSide" "hs_build_side s' = BuildReady (ld\<lparr>ld_visited := bits\<rparr>)"
      "length bits = length (ld_visited ld)" "visited_ok ji (ld_batch ld) ([] @ flat_rows rbs) bits" for s' bits
    using that by (intro exI [of _ "[]"] conjI refl arrivesI [OF v] exI [of _ 0] reach.stop) (auto simp: at_exhausted_def)
  obtain xs where xs: "arrives ?Q ld cfg v ?s2 xs" "mset xs = mset (probe_rows ji (hc_column_indices cfg) L (flat_rows rbs))"
    using arr.probe_side_outputs [OF v ready right ok vis na, of ?s2 ?Q ld "\<lambda>ys. ys = []"] fin by (auto simp: stream_new_def)
  have "hc_report cfg = None \<or> hc_report cfg = Some (Inr ())" using ready by (simp add: join_ready_def)
  from arr.start_outputs [OF v this _ _ xs(1)] have ar: "arrives ?Q ld cfg v ?s xs" by (simp add: stream_new_def)
  note nb = new_buffer [OF v refl, of None "length xs"]
  have "buffer_ok cfg v ?lc (length xs)" "lc_fetch ?lc = None" by (rule nb(1); simp) (simp add: lc_new_def)
  with ar obtain n where "reach cfg (at_exhausted ?Q ld cfg v) n (?s\<lparr>hs_output_buffer := ?lc\<rparr>) (buffered v ?lc @ xs)"
    unfolding arrives_def by blast
  moreover have "?s\<lparr>hs_output_buffer := ?lc\<rparr> = ?s" by (simp add: stream_new_def)
  ultimately show ?thesis using xs(2) nb(2) by auto
qed

text \<open>A stream that has completed is done with the probe side.\<close>

lemma completed_no_return:
  "reach cfg (at_exhausted Q ld cfg v) n s xs \<Longrightarrow> hs_state s \<noteq> Completed"
  by (induction rule: reach.induct) (auto simp: at_exhausted_def completed_turn)

lemma completed_again_frame:
  "hs_state s = Completed \<Longrightarrow> poll_turn cfg s = Again s' \<Longrightarrow>
     poll_turn cfg (lend sh s) = Again (lend sh s') \<and> hs_build_side s' = hs_build_side s"
  by (auto simp: poll_turn_body turn_body_def split: option.splits if_splits)

lemma reach_end_lend:
  "reach cfg (at_end cfg) n s xs \<Longrightarrow> hs_state s = Completed \<Longrightarrow> reach cfg (at_end cfg) n (lend sh s) xs"
proof (induction rule: reach.induct)
  case (stop s xs)
  then show ?case by (intro reach.stop) (simp add: at_end_def turn_end_frame)
next
  case (emit s b s' n xs)
  then show ?case using turn_emit_frame [OF emit(1)] completed_turn(2) [OF emit(1)] by (auto intro: reach.emit)
next
  case (again s s' n xs)
  then show ?case using completed_again_frame [OF _ again(1)] completed_turn(1) [OF _ again(1)] by (auto intro: reach.again)
qed

lemma run_reach:
  assumes "run_stream cfg s = Some items"
  shows "\<forall>bs. items = map Inr bs \<longrightarrow> (\<exists>n. reach cfg (at_end cfg) n s (flat_rows bs))"
proof (rule run_stream.raw_induct [where P = "\<lambda>cfg s items. \<forall>bs. items = map Inr bs \<longrightarrow> (\<exists>n. reach cfg (at_end cfg) n s (flat_rows bs))", OF _ assms])
  fix run cfg s items
  assume IH: "\<And>cfg s items. run cfg s = Some items \<Longrightarrow> \<forall>bs. items = map Inr bs \<longrightarrow> (\<exists>n. reach cfg (at_end cfg) n s (flat_rows bs))"
    and eq: "(case poll_turn cfg s of Emit b s' \<Rightarrow> Option.bind (run cfg s') (\<lambda>items. Some (Inr b # items)) | Again s' \<Rightarrow> run cfg s'
      | Fail e \<Rightarrow> Some [Inl e] | End \<Rightarrow> Some [] | Diverges \<Rightarrow> None) = Some items"
  show "\<forall>bs. items = map Inr bs \<longrightarrow> (\<exists>n. reach cfg (at_end cfg) n s (flat_rows bs))"
  proof (intro allI impI)
    fix bs assume bs: "items = map Inr bs"
    show "\<exists>n. reach cfg (at_end cfg) n s (flat_rows bs)"
    proof (cases "poll_turn cfg s")
      case (Emit b s')
      then obtain its where its: "run cfg s' = Some its" "items = Inr b # its" using eq by (cases "run cfg s'") auto
      then obtain bs' where bs': "bs = b # bs'" "its = map Inr bs'" using bs by (cases bs) auto
      then obtain n where "reach cfg (at_end cfg) n s' (flat_rows bs')" using IH [OF its(1)] by blast
      from reach.emit [OF Emit this] bs'(1) show ?thesis by auto
    next
      case (Again s')
      then have "run cfg s' = Some items" using eq by simp
      from IH [OF this] reach.again [OF Again] bs show ?thesis by blast
    next
      case End
      then show ?thesis using eq bs by (auto simp: at_end_def intro!: exI [of _ 0] reach.stop)
    qed (use eq bs in auto)
  qed
qed

section \<open>Turns of a stream of the system\<close>

text \<open>
  A stream that is still probing is one that ran alone, up to the contents of the cells: it
  would have set \<open>bits\<close>, and needs \<open>n\<close> more turns to exhaust its probe side. A stream that
  is closing only empties its buffer.
\<close>

definition probing ::
  "(bool list \<Rightarrow> bool) \<Rightarrow> left_data \<Rightarrow> 'c stream_config \<Rightarrow> 'c buffer_view \<Rightarrow> 'c hash_join_stream \<Rightarrow> bool list \<Rightarrow> nat \<Rightarrow> row list \<Rightarrow> bool" where
  "probing Q ld cfg v s bits n xs \<longleftrightarrow>
     (\<exists>g X. s = lend (Some X) g \<and> left_of g = Some (ld\<lparr>ld_visited := bits\<rparr>) \<and> length bits = length (ld_visited ld) \<and>
            reach cfg (at_exhausted Q ld cfg v) n g xs)"

definition closing :: "'c stream_config \<Rightarrow> 'c hash_join_stream \<Rightarrow> nat \<Rightarrow> row list \<Rightarrow> bool" where
  "closing cfg s n xs \<longleftrightarrow> hs_state s = Completed \<and> left_of s \<noteq> None \<and> reach cfg (at_end cfg) n s xs"

text \<open>A stream about to report that its probe side is exhausted.\<close>

definition reporting :: "'c stream_config \<Rightarrow> 'c buffer_view \<Rightarrow> left_data \<Rightarrow> 'c hash_join_stream \<Rightarrow> row list \<Rightarrow> bool" where
  "reporting cfg v ld s xs \<longleftrightarrow> hs_state s = ExhaustedProbeSide \<and> hs_build_side s = BuildReady ld \<and>
     buffer_ok cfg v (hs_output_buffer s) 0 \<and> bv_completed v (lc_inner (hs_output_buffer s)) = [] \<and>
     lc_fetch (hs_output_buffer s) = None \<and> xs = buffered v (hs_output_buffer s)"

lemma ld_visited_inj: "ld\<lparr>ld_visited := x\<rparr> = ld\<lparr>ld_visited := y\<rparr> \<longleftrightarrow> x = y"
  by (cases ld) simp

lemma left_of_lend: "left_of s = Some ld \<Longrightarrow> left_of (lend (Some X) s) = Some X"
  by (cases "hs_build_side s" rule: side_left.cases) auto

lemma probing_turn:
  assumes na: "\<not> hc_null_aware cfg" and pr: "probing Q ld cfg v s bits n xs"
    and B: "length B = length (ld_visited ld)" and t: "t = lend (Some (cells ld B th)) s"
  obtains (emit) b s' n' ys where "poll_turn cfg t = Emit b s'" "left_of s' = Some (cells ld B th)" "n = Suc n'" "xs = rows b @ ys"
      "probing Q ld cfg v s' bits n' ys"
    | (again) m s' n' where "poll_turn cfg t = Again s'" "left_of s' = Some (cells ld (marks m B) th)" "n = Suc n'"
      "probing Q ld cfg v s' (marks m bits) n' xs"
    | (report) "reporting cfg v (cells ld B th) t xs" "Q bits"
proof -
  obtain g X where g: "s = lend (Some X) g" "left_of g = Some (ld\<lparr>ld_visited := bits\<rparr>)" "length bits = length (ld_visited ld)"
    "reach cfg (at_exhausted Q ld cfg v) n g xs" using pr unfolding probing_def by blast
  have tg: "t = lend (Some (cells ld B th)) g" using t g(1) by simp
  from g(4) show thesis
  proof cases
    case stop
    then have "hs_build_side g = BuildReady (ld\<lparr>ld_visited := bits\<rparr>)" "Q bits"
      using g(2) by (auto simp: at_exhausted_def ld_visited_inj)
    with stop tg show thesis by (intro report) (auto simp: at_exhausted_def reporting_def)
  next
    case (emit b g' n' ys)
    note fr = turn_emit_frame [OF emit(3), of "Some (cells ld B th)"]
    have lg: "left_of g' = Some (ld\<lparr>ld_visited := bits\<rparr>)" using fr g(2) by simp
    have "probing Q ld cfg v (lend (Some (cells ld B th)) g') bits n' ys"
      unfolding probing_def using lg g(3) emit(4) by blast
    then show thesis using fr tg left_of_lend [OF lg] emit by (intro that(1)) auto
  next
    case (again g' n')
    have "hs_state g \<noteq> ExhaustedProbeSide"
    proof
      assume ex: "hs_state g = ExhaustedProbeSide"
      have "hs_state g' = Completed"
        using again(2) ex na g(2)
        by (cases "hs_build_side g" rule: side_left.cases)
           (auto simp: poll_turn_body turn_body_def process_unmatched_build_batch_def Let_def split: option.splits if_splits prod.splits)
      with completed_no_return [OF again(3)] show False by simp
    qed
    from turn_again_frame [OF na again(2) this g(2)] obtain m where
      m: "left_of g' = Some (ld\<lparr>ld_visited := bits\<rparr>\<lparr>ld_visited := marks m bits\<rparr>)"
      "\<And>bits' th'. length bits' = length bits \<Longrightarrow> poll_turn cfg (lend (Some (cells (ld\<lparr>ld_visited := bits\<rparr>) bits' th')) g) =
          Again (lend (Some (cells (ld\<lparr>ld_visited := bits\<rparr>) (marks m bits') th')) g')" by auto
    have lg: "left_of g' = Some (ld\<lparr>ld_visited := marks m bits\<rparr>)" using m(1) by simp
    have "probing Q ld cfg v (lend (Some (cells ld (marks m B) th)) g') (marks m bits) n' xs"
      unfolding probing_def using lg g(3) again(3) by auto
    then show thesis using m(2) [of B th] B g(3) tg left_of_lend [OF lg] again(1) by (intro that(2)) auto
  qed
qed

lemma closing_turn:
  assumes cl: "closing cfg s n xs" and t: "t = lend (Some X) s"
  obtains (emit) b s' n' ys where "poll_turn cfg t = Emit b s'" "left_of s' = Some X" "n = Suc n'" "xs = rows b @ ys" "closing cfg s' n' ys"
    | (again) s' n' where "poll_turn cfg t = Again s'" "left_of s' = Some X" "n = Suc n'" "closing cfg s' n' xs"
    | (ended) "poll_turn cfg t = End" "xs = []"
proof -
  have st: "hs_state t = Completed" "left_of t = Some X" using cl t left_of_lend by (auto simp: closing_def)
  have "reach cfg (at_end cfg) n t xs" using cl t reach_end_lend unfolding closing_def by blast
  then show thesis
  proof cases
    case (emit b s' n' ys)
    then show thesis using st turn_emit_frame [OF emit(3)] completed_turn(2) [OF emit(3)]
      by (intro that(1) [of b s' n' ys]) (auto simp: closing_def)
  next
    case (again s' n')
    then show thesis using st completed_again_frame [OF st(1) again(2)] completed_turn(1) [OF st(1) again(2)]
      by (intro that(2) [of s' n']) (auto simp: closing_def)
  qed (auto simp: at_end_def intro: that(3))
qed

end
