(* ===== verification/HashJoinCollected.thy ===== *)
theory HashJoinCollected
  imports HashJoinInterleave
begin

text \<open>
  Every interleaving of the streams of a collected hash join yields the rows of the join. The
  streams run as they would alone until they report that their probe side is exhausted; the
  last one to report finds in the bitmap what all of them have set.
\<close>

section \<open>Reporting\<close>

lemma final_waits:
  assumes v: "view_ok cfg v" and na: "\<not> hc_null_aware cfg"
    and s: "hs_state s = ExhaustedProbeSide" "hs_build_side s = BuildReady ld"
    and more: "need_produce_result_in_final (hc_join_type cfg) \<Longrightarrow> ld_threads ld \<noteq> 1"
  shows "outputs cfg v s []"
proof (cases "need_produce_result_in_final (hc_join_type cfg)")
  case False
  have "outputs cfg v (s\<lparr>hs_state := Completed\<rparr>) []" by (rule outputs_completed [OF v]) simp
  then show ?thesis
    by (rule outputs_step [OF v]) (use poll_other(4) [OF v _ s(1)] False in \<open>simp add: process_unmatched_build_batch_def\<close>)
next
  case True
  let ?s = "s\<lparr>hs_state := Completed, hs_build_side := BuildReady (ld\<lparr>ld_threads := wsub (ld_threads ld) 1\<rparr>)\<rparr>"
  have "outputs cfg v ?s []" by (rule outputs_completed [OF v]) simp
  then show ?thesis
    by (rule outputs_step [OF v])
       (use poll_other(4) [OF v _ s(1)] True more [OF True] na s(2) in
         \<open>auto simp: process_unmatched_build_batch_def report_probe_completed_def Let_def stream_wait\<close>)
qed

lemma report_outputs:
  assumes v: "view_ok cfg v" and rep: "reporting cfg v ld s xs" and out: "outputs cfg v s ys" and na: "\<not> hc_null_aware cfg"
  shows "\<exists>s' n. poll_turn cfg s = Again s' \<and> closing cfg s' n (xs @ ys) \<and>
    left_of s' = Some (if need_produce_result_in_final (hc_join_type cfg) then ld\<lparr>ld_threads := wsub (ld_threads ld) 1\<rparr> else ld)"
proof -
  let ?lc = "hs_output_buffer s"
  have r: "hs_state s = ExhaustedProbeSide" "hs_build_side s = BuildReady ld" "buffer_ok cfg v ?lc (length ys)"
    "bv_completed v (lc_inner ?lc) = []" "lc_fetch ?lc = None" "xs = buffered v ?lc"
    using rep by (auto simp: reporting_def buffer_ok_def fits_def)
  have "runs cfg (s\<lparr>hs_output_buffer := ?lc\<rparr>) (buffered v ?lc @ take_room ?lc ys)" using out r(3) unfolding outputs_def by blast
  then have "runs cfg s (xs @ ys)" using r(5,6) by (simp add: take_room_def)
  then obtain bs where bs: "run_stream cfg s = Some (map Inr bs)" "flat_rows bs = xs @ ys" unfolding runs_def by blast
  obtain n where "reach cfg (at_end cfg) n s (xs @ ys)" using run_reach [OF bs(1)] bs(2) by (auto dest: spec [of _ bs])
  then show ?thesis
  proof cases
    case stop
    then have "poll_turn cfg s = End" by (simp add: at_end_def)
    then show ?thesis using r(1,3) no_batch [OF v r(4)]
      by (auto simp: poll_turn_def buffer_ok_def elim!: handle_state.elims)
  next
    case (emit b s' n' zs)
    then show ?thesis using r(1) no_batch [OF v r(4)] by (auto simp: poll_turn_def split: if_splits elim!: handle_state.elims)
  next
    case (again s' n')
    then show ?thesis using exhausted_turn [OF r(1) again(2) r(2) na] by (auto simp: closing_def)
  qed
qed

text \<open>The stream that reports last outputs the rows that none of them could.\<close>

lemma report_turn:
  assumes v: "view_ok cfg v" and ready: "join_ready cfg ls rs ji dl" and na: "\<not> hc_null_aware cfg"
    and ok: "left_ok ls (hc_hash cfg) dl (ji_null_equality ji) (map fst (ji_on ji)) L ord ld"
    and rep: "reporting cfg v (cells ld B th) s xs" and th: "0 < th" "th < usize_mod"
    and vis: "need_produce_result_in_final (ji_type ji) \<Longrightarrow> th = 1 \<Longrightarrow> visited_ok ji (ld_batch ld) R B"
  shows "\<exists>s' n ys. poll_turn cfg s = Again s' \<and> closing cfg s' n (xs @ ys) \<and>
    left_of s' = Some (cells ld B (if need_produce_result_in_final (ji_type ji) then th - 1 else th)) \<and>
    mset ys = (if need_produce_result_in_final (ji_type ji) \<and> th = 1 then mset (final_rows ji (hc_column_indices cfg) L R) else {#})"
proof -
  have t: "hc_join_type cfg = ji_type ji" using ready by (simp add: join_ready_def)
  have s: "hs_state s = ExhaustedProbeSide" "hs_build_side s = BuildReady (cells ld B th)" using rep by (simp_all add: reporting_def)
  have "\<exists>ys. outputs cfg v s ys \<and>
      mset ys = (if need_produce_result_in_final (ji_type ji) \<and> th = 1 then mset (final_rows ji (hc_column_indices cfg) L R) else {#})"
  proof (cases "need_produce_result_in_final (ji_type ji) \<and> th = 1")
    case True
    then show ?thesis
      using final_outputs [OF v ready _ _ _ s na, of L ord R] ok vis by (auto simp: left_ok_def)
  next
    case False
    then show ?thesis using final_waits [OF v na s] t by auto
  qed
  then obtain ys where ys: "outputs cfg v s ys"
    "mset ys = (if need_produce_result_in_final (ji_type ji) \<and> th = 1 then mset (final_rows ji (hc_column_indices cfg) L R) else {#})" by blast
  have "wsub th 1 = th - 1" using th by (simp add: wsub_def)
  then have cell: "(if need_produce_result_in_final (hc_join_type cfg) then (cells ld B th)\<lparr>ld_threads := wsub (ld_threads (cells ld B th)) 1\<rparr>
      else cells ld B th) = cells ld B (if need_produce_result_in_final (ji_type ji) then th - 1 else th)" using t by simp
  from report_outputs [OF v rep ys(1) na] ys(2) show ?thesis unfolding cell by blast
qed


section \<open>The invariant of the system\<close>

text \<open>
  What is known of each stream beside its state: whether it is still probing, the bits it has
  set, the turns and the rows to come, and what it outputs of the unmatched rows.
\<close>

record progress =
  pg_probing :: bool
  pg_bits :: "bool list"
  pg_turns :: nat
  pg_rows :: "row list"
  pg_final :: "row list"

definition stream_ok ::
  "'c stream_config \<Rightarrow> 'c buffer_view \<Rightarrow> join_info \<Rightarrow> row list \<Rightarrow> left_data \<Rightarrow> row list \<Rightarrow> 'c hash_join_stream \<Rightarrow> batch list \<Rightarrow> progress \<Rightarrow> bool" where
  "stream_ok cfg v ji L ld R s bs g \<longleftrightarrow>
     (if pg_probing g
      then probing (visited_ok ji (ld_batch ld) R) ld cfg v s (pg_bits g) (pg_turns g) (pg_rows g) \<and> pg_final g = []
      else closing cfg s (pg_turns g) (pg_rows g) \<and> visited_ok ji (ld_batch ld) R (pg_bits g)) \<and>
     length (pg_bits g) = length (ld_visited ld) \<and>
     mset (flat_rows bs) + mset (pg_rows g) = mset (probe_rows ji (hc_column_indices cfg) L R) + mset (pg_final g)"

definition live :: "progress list \<Rightarrow> nat" where
  "live gs = (\<Sum>g\<leftarrow>gs. if pg_probing g then 1 else 0)"

definition cells_ok :: "join_info \<Rightarrow> left_data \<Rightarrow> progress list \<Rightarrow> bool list \<Rightarrow> nat \<Rightarrow> bool" where
  "cells_ok ji ld gs B th \<longleftrightarrow> length B = length (ld_visited ld) \<and>
     (\<forall>j < length B. B ! j \<longleftrightarrow> (\<exists>k < length gs. pg_bits (gs ! k) ! j)) \<and>
     th = (if need_produce_result_in_final (ji_type ji) then live gs else length gs)"

definition finals_ok :: "'c stream_config \<Rightarrow> join_info \<Rightarrow> row list \<Rightarrow> row list list \<Rightarrow> progress list \<Rightarrow> bool" where
  "finals_ok cfg ji L Rs gs \<longleftrightarrow>
     (\<Sum>g\<leftarrow>gs. mset (pg_final g)) = (if live gs = 0 then mset (final_rows ji (hc_column_indices cfg) L (concat Rs)) else {#})"

definition system_ok ::
  "'c stream_config \<Rightarrow> 'c buffer_view \<Rightarrow> join_info \<Rightarrow> row list \<Rightarrow> left_data \<Rightarrow> row list list \<Rightarrow> 'c shared_join \<Rightarrow> batch list list \<Rightarrow> progress list \<Rightarrow> bool" where
  "system_ok cfg v ji L ld Rs sys bss gs \<longleftrightarrow>
     length (sj_streams sys) = length Rs \<and> length gs = length Rs \<and> length bss = length Rs \<and> sj_items sys = map (map Inr) bss \<and>
     (\<forall>k < length Rs. stream_ok cfg v ji L ld (Rs ! k) (sj_streams sys ! k) (bss ! k) (gs ! k)) \<and>
     (\<exists>B th. sj_left sys = Some (cells ld B th) \<and> cells_ok ji ld gs B th) \<and> finals_ok cfg ji L Rs gs"

text \<open>Every turn takes the system closer to its end.\<close>

definition turns_left :: "(progress list \<times> progress list) set" where
  "turns_left = measures [live, \<lambda>gs. \<Sum>g\<leftarrow>gs. pg_turns g]"

lemma sum_list_put:
  fixes f :: "'a \<Rightarrow> 'b :: comm_monoid_add"
  assumes "i < length xs"
  shows "sum_list (map f (xs[i := x])) + f (xs ! i) = sum_list (map f xs) + f x"
  using assms
proof (induction xs arbitrary: i)
  case (Cons y xs)
  show ?case
  proof (cases i)
    case (Suc k)
    with Cons.IH [of k] Cons.prems show ?thesis by (simp add: add.assoc)
  qed (simp add: add.commute add.left_commute)
qed simp

lemma live_zero: "live gs = 0 \<longleftrightarrow> (\<forall>k < length gs. \<not> pg_probing (gs ! k))"
  by (induction gs) (auto simp: live_def nth_Cons split: nat.splits)

lemma live_bound: "live gs \<le> length gs"
  by (induction gs) (auto simp: live_def)

lemma live_put:
  assumes "i < length gs"
  shows "pg_probing g = pg_probing (gs ! i) \<Longrightarrow> live (gs[i := g]) = live gs"
    and "pg_probing (gs ! i) \<Longrightarrow> \<not> pg_probing g \<Longrightarrow> Suc (live (gs[i := g])) = live gs"
  using sum_list_put [OF assms, of "\<lambda>g. if pg_probing g then 1 else (0 :: nat)" g] by (auto simp: live_def)

lemma turns_left_same:
  assumes "i < length gs" and "pg_probing g = pg_probing (gs ! i)" and "pg_turns g < pg_turns (gs ! i)"
  shows "(gs[i := g], gs) \<in> turns_left"
  using sum_list_put [OF assms(1), of pg_turns g] live_put(1) [OF assms(1,2)] assms(3) by (simp add: turns_left_def)

lemma turns_left_report:
  assumes "i < length gs" and "pg_probing (gs ! i)" and "\<not> pg_probing g"
  shows "(gs[i := g], gs) \<in> turns_left"
  using live_put(2) [OF assms] by (simp add: turns_left_def)

lemma nth_put: "k < length xs \<Longrightarrow> xs[i := x] ! k = (if k = i then x else xs ! k)"
  by auto

text \<open>A step of stream \<open>i\<close> that keeps its phase, and one in which it reports.\<close>

lemma cells_ok_keep:
  assumes "cells_ok ji ld gs B th" and i: "i < length gs" and "pg_probing g = pg_probing (gs ! i)"
    and len: "length (pg_bits (gs ! i)) = length (ld_visited ld)" and "pg_bits g = marks m (pg_bits (gs ! i))"
  shows "cells_ok ji ld (gs[i := g]) (marks m B) th"
proof -
  have "marks m B ! j \<longleftrightarrow> (\<exists>k < length gs. pg_bits (gs[i := g] ! k) ! j)" if j: "j < length B" for j
  proof -
    have B: "B ! j \<longleftrightarrow> (\<exists>k < length gs. pg_bits (gs ! k) ! j)" and jl: "j < length (pg_bits (gs ! i))"
      using assms(1) j len by (auto simp: cells_ok_def)
    have g: "pg_bits g ! j \<longleftrightarrow> pg_bits (gs ! i) ! j \<or> j \<in> set m" using assms(5) nth_marks [OF jl] by simp
    show ?thesis unfolding nth_marks [OF j] B using g i by (metis nth_list_update_eq nth_list_update_neq)
  qed
  with assms live_put(1) [OF i] show ?thesis by (simp add: cells_ok_def)
qed

lemma finals_ok_keep:
  assumes "finals_ok cfg ji L Rs gs" and i: "i < length gs" and "pg_probing g = pg_probing (gs ! i)" and "pg_final g = pg_final (gs ! i)"
  shows "finals_ok cfg ji L Rs (gs[i := g])"
  using assms sum_list_put [OF i, of "\<lambda>g. mset (pg_final g)" g] live_put(1) [OF i] by (simp add: finals_ok_def)

lemma joined_bits:
  assumes cells: "cells_ok ji ld gs B th" and n: "length gs = length Rs" "Rs \<noteq> []"
    and vis: "\<And>k. k < length Rs \<Longrightarrow> visited_ok ji (ld_batch ld) (Rs ! k) (pg_bits (gs ! k)) \<and> length (pg_bits (gs ! k)) = length (ld_visited ld)"
  shows "visited_ok ji (ld_batch ld) (concat Rs) B"
  unfolding visited_ok_def
proof (intro impI conjI allI)
  assume need: "need_produce_result_in_final (ji_type ji)"
  show len: "length B = num_rows (ld_batch ld)" using vis [of 0] n(2) need cells by (auto simp: visited_ok_def cells_ok_def)
  fix j assume j: "j < num_rows (ld_batch ld)"
  have "pg_bits (gs ! k) ! j \<longleftrightarrow> left_joined ji (Rs ! k) (rows (ld_batch ld) ! j)" if "k < length Rs" for k
    using vis [OF that] need j by (simp add: visited_ok_def)
  then have "B ! j \<longleftrightarrow> (\<exists>k < length Rs. left_joined ji (Rs ! k) (rows (ld_batch ld) ! j))"
    using cells j len n(1) by (auto simp: cells_ok_def)
  also have "\<dots> \<longleftrightarrow> left_joined ji (concat Rs) (rows (ld_batch ld) ! j)"
    by (simp add: left_joined_def list_ex_iff) (metis in_set_conv_nth)
  finally show "B ! j \<longleftrightarrow> left_joined ji (concat Rs) (rows (ld_batch ld) ! j)" .
qed


lemma stream_turn:
  assumes na: "\<not> hc_null_aware cfg" and ok: "stream_ok cfg v ji L ld R s bs g" and B: "length B = length (ld_visited ld)"
    and t: "t = lend (Some (cells ld B th)) s"
  obtains (emit) b s' n ys where "poll_turn cfg t = Emit b s'" "left_of s' = Some (cells ld B th)" "pg_turns g = Suc n"
      "stream_ok cfg v ji L ld R s' (bs @ [b]) (g\<lparr>pg_turns := n, pg_rows := ys\<rparr>)"
    | (again) m s' n where "poll_turn cfg t = Again s'" "left_of s' = Some (cells ld (marks m B) th)" "pg_turns g = Suc n"
      "stream_ok cfg v ji L ld R s' bs (g\<lparr>pg_turns := n, pg_bits := marks m (pg_bits g)\<rparr>)"
    | (report) "pg_probing g" "reporting cfg v (cells ld B th) t (pg_rows g)" "visited_ok ji (ld_batch ld) R (pg_bits g)"
    | (ended) "poll_turn cfg t = End" "\<not> pg_probing g" "pg_rows g = []"
proof (cases "pg_probing g")
  case True
  then have pr: "probing (visited_ok ji (ld_batch ld) R) ld cfg v s (pg_bits g) (pg_turns g) (pg_rows g)" using ok by (simp add: stream_ok_def)
  show thesis
  proof (cases rule: probing_turn [OF na pr B t])
    case (1 b s' n ys)
    then show thesis using ok True by (intro emit [of b s' n ys]) (simp_all add: stream_ok_def add.assoc)
  next
    case (2 m s' n)
    then show thesis using ok True by (intro again [of s' m n]) (simp_all add: stream_ok_def)
  next
    case 3
    with True report show thesis by blast
  qed
next
  case False
  then have cl: "closing cfg s (pg_turns g) (pg_rows g)" using ok by (simp add: stream_ok_def)
  have id: "marks [] bits = bits" for bits by (simp add: marks_def)
  show thesis
  proof (cases rule: closing_turn [OF cl t])
    case (1 b s' n ys)
    then show thesis using ok False by (intro emit [of b s' n ys]) (simp_all add: stream_ok_def add.assoc)
  next
    case (2 s' n)
    then show thesis using ok False by (intro again [of s' "[]" n]) (simp_all add: stream_ok_def id)
  next
    case 3
    with False ended show thesis by blast
  qed
qed

lemma system_put:
  assumes "system_ok cfg v ji L ld Rs sys bss gs" and "i < length Rs" and "stream_ok cfg v ji L ld (Rs ! i) s' bs' g'"
    and "cells_ok ji ld (gs[i := g']) B' th'" and "finals_ok cfg ji L Rs (gs[i := g'])" and "left_of s' = Some (cells ld B' th')"
  shows "system_ok cfg v ji L ld Rs
    (sys\<lparr>sj_left := left_of s', sj_streams := (sj_streams sys)[i := s'], sj_items := (sj_items sys)[i := map Inr bs']\<rparr>) (bss[i := bs']) (gs[i := g'])"
  using assms unfolding system_ok_def by (auto simp: nth_put map_update)

lemma items_same:
  "system_ok cfg v ji L ld Rs sys bss gs \<Longrightarrow> i < length Rs \<Longrightarrow> (sj_items sys)[i := map Inr (bss ! i)] = sj_items sys"
  by (auto simp: system_ok_def map_update [symmetric])


lemma report_step:
  assumes v: "view_ok cfg v" and ready: "join_ready cfg ls rs ji dl" and na: "\<not> hc_null_aware cfg"
    and left: "left_ok ls (hc_hash cfg) dl (ji_null_equality ji) (map fst (ji_on ji)) L ord ld"
    and ok: "system_ok cfg v ji L ld Rs sys bss gs" and i: "i < length Rs" and bound: "length Rs < usize_mod"
    and cells: "cells_ok ji ld gs B th" and probing: "pg_probing (gs ! i)"
    and rep: "reporting cfg v (cells ld B th) t (pg_rows (gs ! i))" and vis: "visited_ok ji (ld_batch ld) (Rs ! i) (pg_bits (gs ! i))"
  shows "\<exists>s' g' th'. poll_turn cfg t = Again s' \<and> \<not> pg_probing g' \<and> stream_ok cfg v ji L ld (Rs ! i) s' (bss ! i) g' \<and>
    left_of s' = Some (cells ld B th') \<and> cells_ok ji ld (gs[i := g']) B th' \<and> finals_ok cfg ji L Rs (gs[i := g'])"
proof -
  let ?need = "need_produce_result_in_final (ji_type ji)" and ?g = "gs ! i"
  have n: "length gs = length Rs" and streams: "\<And>k. k < length Rs \<Longrightarrow> stream_ok cfg v ji L ld (Rs ! k) (sj_streams sys ! k) (bss ! k) (gs ! k)"
    and fin: "finals_ok cfg ji L Rs gs" using ok by (simp_all add: system_ok_def)
  have live: "Suc (live (gs[i := g])) = live gs" if "\<not> pg_probing g" for g using live_put(2) [of i gs g] that probing i n by simp
  have th: "th = (if ?need then live gs else length Rs)" using cells n by (simp add: cells_ok_def)
  have th1: "0 < th" "th < usize_mod"
    using th live [of "?g\<lparr>pg_probing := False\<rparr>"] live_bound [of gs] n i bound by (auto split: if_splits)
  have all: "visited_ok ji (ld_batch ld) (concat Rs) B" if need: ?need and one: "th = 1"
  proof (rule joined_bits [OF cells n])
    fix k assume k: "k < length Rs"
    have "live (gs[i := ?g\<lparr>pg_probing := False\<rparr>]) = 0" using live [of "?g\<lparr>pg_probing := False\<rparr>"] th need one by simp
    then have "k \<noteq> i \<Longrightarrow> \<not> pg_probing (gs ! k)" using k n by (auto simp: live_zero dest: spec [of _ k])
    with streams [OF k] vis show "visited_ok ji (ld_batch ld) (Rs ! k) (pg_bits (gs ! k)) \<and> length (pg_bits (gs ! k)) = length (ld_visited ld)"
      by (cases "k = i") (auto simp: stream_ok_def)
  qed (use i in auto)
  obtain s' n ys where turn: "poll_turn cfg t = Again s'" "closing cfg s' n (pg_rows ?g @ ys)" "left_of s' = Some (cells ld B (if ?need then th - 1 else th))"
    and ys: "mset ys = (if ?need \<and> th = 1 then mset (final_rows ji (hc_column_indices cfg) L (concat Rs)) else {#})"
    using report_turn [OF v ready na left rep th1 all] by blast
  define g' where "g' = ?g\<lparr>pg_probing := False, pg_turns := n, pg_rows := pg_rows ?g @ ys, pg_final := ys\<rparr>"
  have live': "Suc (live (gs[i := g'])) = live gs" by (rule live) (simp add: g'_def)
  have "stream_ok cfg v ji L ld (Rs ! i) s' (bss ! i) g'"
    using streams [OF i] turn(2) vis probing by (simp add: stream_ok_def g'_def add.assoc [symmetric])
  moreover have "cells_ok ji ld (gs[i := g']) B (if ?need then th - 1 else th)"
  proof -
    have "(\<exists>k < length gs. pg_bits (gs[i := g'] ! k) ! j) = (\<exists>k < length gs. pg_bits (gs ! k) ! j)" for j
      by (rule ex_cong1) (auto simp: nth_put g'_def split: if_splits)
    with cells live' show ?thesis by (auto simp: cells_ok_def)
  qed
  moreover have "finals_ok cfg ji L Rs (gs[i := g'])"
  proof -
    have "(\<Sum>g\<leftarrow>gs[i := g']. mset (pg_final g)) = mset ys"
      using sum_list_put [of i gs "\<lambda>g. mset (pg_final g)" g'] i n(1) fin live' streams [OF i] probing
      by (auto simp: finals_ok_def stream_ok_def g'_def)
    then show ?thesis using ys th live' by (auto simp: finals_ok_def final_rows_none)
  qed
  ultimately show ?thesis using turn(1,3) by (intro exI [of _ s'] exI [of _ g'] exI) (auto simp: g'_def)
qed

text \<open>Every poll of a stream keeps the invariant, and unless it has ended is progress.\<close>

lemma shared_step:
  assumes v: "view_ok cfg v" and ready: "join_ready cfg ls rs ji dl" and na: "\<not> hc_null_aware cfg"
    and left: "left_ok ls (hc_hash cfg) dl (ji_null_equality ji) (map fst (ji_on ji)) L ord ld"
    and ok: "system_ok cfg v ji L ld Rs sys bss gs" and i: "i < length Rs" and bound: "length Rs < usize_mod"
  shows "\<exists>sys' bss' gs'. poll_shared cfg i sys = Some sys' \<and> system_ok cfg v ji L ld Rs sys' bss' gs' \<and>
    (has_ended cfg sys i \<and> sys' = sys \<or> (gs', gs) \<in> turns_left)"
proof -
  let ?s = "sj_streams sys ! i" and ?g = "gs ! i"
  obtain B th where B: "sj_left sys = Some (cells ld B th)" "cells_ok ji ld gs B th" "length B = length (ld_visited ld)"
    using ok by (auto simp: system_ok_def cells_ok_def)
  have n: "i < length gs" and st: "stream_ok cfg v ji L ld (Rs ! i) ?s (bss ! i) ?g" and fin: "finals_ok cfg ji L Rs gs"
    and bits: "length (pg_bits ?g) = length (ld_visited ld)" and items: "sj_items sys ! i = map Inr (bss ! i)"
    using ok i by (auto simp: system_ok_def stream_ok_def)
  note put = system_put [OF ok i]
  show ?thesis
  proof (cases rule: stream_turn [OF na st B(3) refl, where th = th])
    case (1 b s' m ys)
    let ?g' = "?g\<lparr>pg_turns := m, pg_rows := ys\<rparr>"
    have "cells_ok ji ld (gs[i := ?g']) (marks [] B) th" by (rule cells_ok_keep [OF B(2) n _ bits]) (simp_all add: marks_def)
    then have "system_ok cfg v ji L ld Rs
      (sys\<lparr>sj_left := left_of s', sj_streams := (sj_streams sys)[i := s'], sj_items := (sj_items sys)[i := map Inr (bss ! i @ [b])]\<rparr>)
      (bss[i := bss ! i @ [b]]) (gs[i := ?g'])"
      using put [OF 1(4)] finals_ok_keep [OF fin n] 1(2) by (simp add: marks_def)
    moreover have "(gs[i := ?g'], gs) \<in> turns_left" by (rule turns_left_same [OF n]) (simp_all add: 1(3))
    ultimately show ?thesis using 1(1) B(1) items by (fastforce simp: poll_shared_def)
  next
    case (2 m s' k)
    let ?g' = "?g\<lparr>pg_turns := k, pg_bits := marks m (pg_bits ?g)\<rparr>"
    have "cells_ok ji ld (gs[i := ?g']) (marks m B) th" by (rule cells_ok_keep [OF B(2) n _ bits]) simp_all
    then have "system_ok cfg v ji L ld Rs (sys\<lparr>sj_left := left_of s', sj_streams := (sj_streams sys)[i := s']\<rparr>) (bss[i := bss ! i]) (gs[i := ?g'])"
      using put [OF 2(4)] finals_ok_keep [OF fin n] 2(2) items_same [OF ok i] by simp
    moreover have "(gs[i := ?g'], gs) \<in> turns_left" by (rule turns_left_same [OF n]) (simp_all add: 2(3))
    ultimately show ?thesis using 2(1) B(1) by (fastforce simp: poll_shared_def)
  next
    case 3
    obtain s' g' th' where r: "poll_turn cfg (lend (Some (cells ld B th)) ?s) = Again s'" "\<not> pg_probing g'"
      "stream_ok cfg v ji L ld (Rs ! i) s' (bss ! i) g'" "left_of s' = Some (cells ld B th')"
      "cells_ok ji ld (gs[i := g']) B th'" "finals_ok cfg ji L Rs (gs[i := g'])"
      using report_step [OF v ready na left ok i bound B(2) 3] by blast
    have "system_ok cfg v ji L ld Rs (sys\<lparr>sj_left := left_of s', sj_streams := (sj_streams sys)[i := s']\<rparr>) (bss[i := bss ! i]) (gs[i := g'])"
      using put [OF r(3,5,6,4)] items_same [OF ok i] by simp
    moreover have "(gs[i := g'], gs) \<in> turns_left" by (rule turns_left_report [OF n 3(1) r(2)])
    ultimately show ?thesis using r(1) B(1) by (fastforce simp: poll_shared_def)
  next
    case 4
    then show ?thesis using ok B(1) by (auto simp: poll_shared_def has_ended_def)
  qed
qed


section \<open>Schedules\<close>

lemma shared_run:
  assumes v: "view_ok cfg v" and ready: "join_ready cfg ls rs ji dl" and na: "\<not> hc_null_aware cfg"
    and left: "left_ok ls (hc_hash cfg) dl (ji_null_equality ji) (map fst (ji_on ji)) L ord ld" and bound: "length Rs < usize_mod"
    and ok: "system_ok cfg v ji L ld Rs sys bss gs" and sched: "\<forall>i \<in> set is. i < length Rs"
  shows "\<exists>sys' bss' gs'. run_schedule cfg is sys = Some sys' \<and> system_ok cfg v ji L ld Rs sys' bss' gs'"
  using ok sched
proof (induction "is" arbitrary: sys bss gs)
  case (Cons i "is")
  from shared_step [OF v ready na left Cons.prems(1) _ bound] Cons.prems(2) obtain sys' bss' gs'
    where "poll_shared cfg i sys = Some sys'" "system_ok cfg v ji L ld Rs sys' bss' gs'" by (metis list.set_intros(1))
  with Cons.IH [of sys' bss' gs'] Cons.prems(2) show ?case by auto
qed auto

lemma schedule_step:
  assumes "poll_shared cfg (f k) sys = Some sys1"
    and "\<exists>k' \<ge> Suc k. \<exists>sys'. run_schedule cfg (map f [Suc k..<k']) sys1 = Some sys' \<and> P sys'"
  shows "\<exists>k' \<ge> k. \<exists>sys'. run_schedule cfg (map f [k..<k']) sys = Some sys' \<and> P sys'"
proof -
  obtain k' sys' where "Suc k \<le> k'" "run_schedule cfg (map f [Suc k..<k']) sys1 = Some sys'" "P sys'" using assms(2) by blast
  with assms(1) show ?thesis by (intro exI [of _ k']) (simp add: upt_conv_Cons)
qed

text \<open>A schedule that comes back to every stream ends them all.\<close>

lemma fair_run:
  assumes v: "view_ok cfg v" and ready: "join_ready cfg ls rs ji dl" and na: "\<not> hc_null_aware cfg"
    and left: "left_ok ls (hc_hash cfg) dl (ji_null_equality ji) (map fst (ji_on ji)) L ord ld" and bound: "length Rs < usize_mod"
    and ok: "system_ok cfg v ji L ld Rs sys bss gs"
    and sched: "\<And>k. f k < length Rs" and fair: "\<And>i k. i < length Rs \<Longrightarrow> \<exists>k' \<ge> k. f k' = i"
  shows "\<exists>k' \<ge> k. \<exists>sys'. run_schedule cfg (map f [k..<k']) sys = Some sys' \<and> (\<forall>i < length Rs. has_ended cfg sys' i)"
proof -
  define ends where "ends k sys \<longleftrightarrow>
    (\<exists>k' \<ge> k. \<exists>sys'. run_schedule cfg (map f [k..<k']) sys = Some sys' \<and> (\<forall>i < length Rs. has_ended cfg sys' i))" for k sys
  have wf: "wf turns_left" by (simp add: turns_left_def)
  from ok have "ends k sys"
  proof (induction gs arbitrary: sys bss k rule: wf_induct_rule [OF wf])
    case (1 gs)
    have step: "ends k sys" if ended: "has_ended cfg sys (f k) \<Longrightarrow> ends (Suc k) sys" for k
    proof -
      obtain sys1 bss1 gs1 where s1: "poll_shared cfg (f k) sys = Some sys1" "system_ok cfg v ji L ld Rs sys1 bss1 gs1"
        "has_ended cfg sys (f k) \<and> sys1 = sys \<or> (gs1, gs) \<in> turns_left"
        using shared_step [OF v ready na left 1(2) sched bound] by blast
      from s1(3) have "ends (Suc k) sys1"
      proof
        assume "(gs1, gs) \<in> turns_left"
        then show ?thesis by (rule 1(1) [OF _ s1(2)])
      qed (use ended in simp)
      then show ?thesis unfolding ends_def by (rule schedule_step [of cfg f k, OF s1(1)])
    qed
    show ?case
    proof (cases "\<forall>i < length Rs. has_ended cfg sys i")
      case True
      then show ?thesis unfolding ends_def by (intro exI [of _ k]) simp
    next
      case False
      then obtain i where i: "i < length Rs" "\<not> has_ended cfg sys i" by blast
      from fair [OF i(1), of k] obtain d where "f (k + d) = i" by (auto simp: le_iff_add)
      then show ?thesis
      proof (induction d arbitrary: k)
        case 0
        with i(2) show ?case by (intro step [of k]) simp
      next
        case (Suc d)
        then have "ends (Suc k) sys" by simp
        then show ?case by (rule step)
      qed
    qed
  qed
  then show ?thesis unfolding ends_def .
qed

text \<open>What has been yielded is part of the join, and all of it once every stream has ended.\<close>

lemma probe_rows_concat: "mset (probe_rows ji cols L (concat Rs)) = (\<Sum>R\<leftarrow>Rs. mset (probe_rows ji cols L R))"
  by (induction Rs) (simp_all add: probe_rows_append)

lemma system_balance:
  assumes "system_ok cfg v ji L ld Rs sys bss gs"
  shows "mset (concat (map flat_rows bss)) + (\<Sum>g\<leftarrow>gs. mset (pg_rows g)) =
    mset (probe_rows ji (hc_column_indices cfg) L (concat Rs)) + (\<Sum>g\<leftarrow>gs. mset (pg_final g))"
proof -
  have n: "length gs = length Rs" "length bss = length Rs" and
    eq: "\<And>k. k < length Rs \<Longrightarrow> mset (flat_rows (bss ! k)) + mset (pg_rows (gs ! k)) =
      mset (probe_rows ji (hc_column_indices cfg) L (Rs ! k)) + mset (pg_final (gs ! k))"
    using assms by (simp_all add: system_ok_def stream_ok_def)
  show ?thesis
    using eq by (simp add: mset_concat comp_def probe_rows_concat sum_list_sum_nth n sum.distrib [symmetric])
qed

lemma ended_stream:
  assumes v: "view_ok cfg v" and na: "\<not> hc_null_aware cfg" and ok: "system_ok cfg v ji L ld Rs sys bss gs"
    and i: "i < length Rs" and ended: "has_ended cfg sys i"
  shows "\<not> pg_probing (gs ! i)" and "pg_rows (gs ! i) = []"
proof -
  obtain B th where B: "sj_left sys = Some (cells ld B th)" "length B = length (ld_visited ld)"
    using ok by (auto simp: system_ok_def cells_ok_def)
  have st: "stream_ok cfg v ji L ld (Rs ! i) (sj_streams sys ! i) (bss ! i) (gs ! i)" using ok i by (simp add: system_ok_def)
  have e: "poll_turn cfg (lend (Some (cells ld B th)) (sj_streams sys ! i)) = End" using ended B(1) by (simp add: has_ended_def)
  have "\<not> reporting cfg v (cells ld B th) (lend (Some (cells ld B th)) (sj_streams sys ! i)) xs" for xs
    using e no_batch [OF v] by (auto simp: reporting_def poll_turn_def buffer_ok_def elim!: handle_state.elims)
  then have "\<not> pg_probing (gs ! i) \<and> pg_rows (gs ! i) = []" using e by (cases rule: stream_turn [OF na st B(2) refl, where th = th]) auto
  then show "\<not> pg_probing (gs ! i)" and "pg_rows (gs ! i) = []" by simp_all
qed

lemma system_rows:
  assumes v: "view_ok cfg v" and na: "\<not> hc_null_aware cfg" and ok: "system_ok cfg v ji L ld Rs sys bss gs"
  shows "mset (concat (map flat_rows bss)) \<subseteq># mset (join_rows ji (hc_column_indices cfg) L (concat Rs))"
    and "\<forall>i < length Rs. has_ended cfg sys i \<Longrightarrow>
      mset (concat (map flat_rows bss)) = mset (join_rows ji (hc_column_indices cfg) L (concat Rs))"
proof -
  let ?P = "mset (probe_rows ji (hc_column_indices cfg) L (concat Rs))" and ?F = "mset (final_rows ji (hc_column_indices cfg) L (concat Rs))"
  have fin: "(\<Sum>g\<leftarrow>gs. mset (pg_final g)) = (if live gs = 0 then ?F else {#})" and n: "length gs = length Rs"
    using ok by (simp_all add: system_ok_def finals_ok_def)
  note bal = system_balance [OF ok, unfolded fin]
  then have "mset (concat (map flat_rows bss)) \<subseteq># ?P + (if live gs = 0 then ?F else {#})" by (metis mset_subset_eq_add_left)
  then show "mset (concat (map flat_rows bss)) \<subseteq># mset (join_rows ji (hc_column_indices cfg) L (concat Rs))"
    unfolding join_rows_split by (auto split: if_splits intro: subset_mset.order_trans)
  assume e: "\<forall>i < length Rs. has_ended cfg sys i"
  have "live gs = 0" using ended_stream(1) [OF v na ok] e n by (simp add: live_zero)
  moreover have "(\<Sum>g\<leftarrow>gs. mset (pg_rows g)) = {#}" using ended_stream(2) [OF v na ok] e n by (simp add: sum_list_sum_nth)
  ultimately show "mset (concat (map flat_rows bss)) = mset (join_rows ji (hc_column_indices cfg) L (concat Rs))"
    using bal by (simp add: join_rows_split)
qed

end
