(* ===== verification/HashJoinPartitions.thy ===== *)
theory HashJoinPartitions
  imports HashJoinCollected
begin

text \<open>
  The streams that \<open>HashJoinExec::execute\<close> returns for the partitions of a collected hash join
  satisfy the invariant of the system at the start, and together they yield the join.
\<close>

section \<open>From the operator to its streams\<close>

lemma start_ok:
  assumes v: "view_ok cfg v" and ready: "join_ready cfg ls rs ji dl" and na: "\<not> hc_null_aware cfg"
    and left: "left_ok ls (hc_hash cfg) dl (ji_null_equality ji) (map fst (ji_on ji)) L ord ld"
    and vis: "visited_ok ji (ld_batch ld) [] (ld_visited ld)" and th: "ld_threads ld = length rbss"
    and right: "\<And>rbs. rbs \<in> set rbss \<Longrightarrow> list_all (batch_fits rs) rbs \<and> list_all (\<lambda>b. num_rows b < 2 ^ 32) rbs" and ne: "rbss \<noteq> []"
    and ss: "ss = map (\<lambda>rbs. stream_new cfg (Inr ld) (map Inr rbs) None) rbss"
  shows "\<exists>gs. system_ok cfg v ji L ld (map flat_rows rbss) (shared_start ss) (replicate (length rbss) []) gs"
proof -
  have "\<forall>rbs. \<exists>g. rbs \<in> set rbss \<longrightarrow> stream_ok cfg v ji L ld (flat_rows rbs) (stream_new cfg (Inr ld) (map Inr rbs) None) [] g \<and>
      pg_probing g \<and> pg_bits g = ld_visited ld \<and> pg_final g = []"
  proof (intro allI)
    fix rbs
    let ?s = "stream_new cfg (Inr ld) (map Inr rbs) None"
    show "\<exists>g. rbs \<in> set rbss \<longrightarrow> stream_ok cfg v ji L ld (flat_rows rbs) ?s [] g \<and> pg_probing g \<and> pg_bits g = ld_visited ld \<and> pg_final g = []"
    proof (cases "rbs \<in> set rbss")
      case True
      then obtain n xs where "reach cfg (at_exhausted (visited_ok ji (ld_batch ld) (flat_rows rbs)) ld cfg v) n ?s xs"
        "mset xs = mset (probe_rows ji (hc_column_indices cfg) L (flat_rows rbs))"
        using solo_stream [OF v ready na _ _ left vis] right by blast
      moreover have "?s = lend (Some ld) ?s" "left_of ?s = Some (ld\<lparr>ld_visited := ld_visited ld\<rparr>)" by (simp_all add: lend_def stream_new_def)
      ultimately have "stream_ok cfg v ji L ld (flat_rows rbs) ?s []
          \<lparr>pg_probing = True, pg_bits = ld_visited ld, pg_turns = n, pg_rows = xs, pg_final = []\<rparr>"
        unfolding stream_ok_def probing_def by auto
      then show ?thesis by (intro exI) auto
    qed simp
  qed
  from choice [OF this] obtain G where G: "\<And>rbs. rbs \<in> set rbss \<Longrightarrow>
      stream_ok cfg v ji L ld (flat_rows rbs) (stream_new cfg (Inr ld) (map Inr rbs) None) [] (G rbs) \<and>
      pg_probing (G rbs) \<and> pg_bits (G rbs) = ld_visited ld \<and> pg_final (G rbs) = []" by blast
  then have G': "stream_ok cfg v ji L ld (flat_rows (rbss ! k)) (stream_new cfg (Inr ld) (map Inr (rbss ! k)) None) [] (G (rbss ! k))"
    "pg_probing (G (rbss ! k))" "pg_bits (G (rbss ! k)) = ld_visited ld" "pg_final (G (rbss ! k)) = []" if "k < length rbss" for k
    using that by simp_all
  have live: "live (map G rbss) = length rbss" using G by (simp add: live_def comp_def sum_list_triv cong: map_cong)
  have fin: "(\<Sum>g\<leftarrow>map G rbss. mset (pg_final g)) = {#}" using G by (simp add: comp_def cong: map_cong)
  have "cells_ok ji ld (map G rbss) (ld_visited ld) (length rbss)" using G'(3) ne live by (auto simp: cells_ok_def)
  moreover have "cells ld (ld_visited ld) (length rbss) = ld" unfolding th [symmetric] by simp
  moreover have "sj_left (shared_start ss) = Some ld" using ne by (cases rbss) (simp_all add: shared_start_def ss stream_new_def)
  ultimately have cl: "\<exists>B th. sj_left (shared_start ss) = Some (cells ld B th) \<and> cells_ok ji ld (map G rbss) B th" by metis
  have "finals_ok cfg ji L (map flat_rows rbss) (map G rbss)" using fin live ne by (simp add: finals_ok_def)
  with G'(1) cl show ?thesis unfolding system_ok_def
    by (intro exI [of _ "map G rbss"] conjI) (simp_all add: shared_start_def ss)
qed

text \<open>
  The streams of a hash join in mode \<open>CollectLeft\<close>: one for each partition of the right input,
  each the result of executing its partition.
\<close>

definition collected_run ::
  "('p, 'c) task_context \<Rightarrow> join_info \<Rightarrow> join_filter option \<Rightarrow> join_input \<Rightarrow> join_input \<Rightarrow> batch list \<Rightarrow> batch list list
    \<Rightarrow> 'c stream_config \<Rightarrow> 'c hash_join_stream list \<Rightarrow> bool" where
  "collected_run ctx ji jf left right lbs rbss cfg ss \<longleftrightarrow>
     ji_mode ji = CollectLeft \<and> in_partitions right = length rbss \<and> rbss \<noteq> [] \<and> length rbss < usize_mod \<and> length ss = length rbss \<and>
     in_execute left 0 = Inr (map Inr lbs) \<and>
     (\<forall>k < length rbss. in_execute right k = Inr (map Inr (rbss ! k)) \<and> join_inputs left right lbs (rbss ! k) \<and>
        hash_join_execute ctx ji jf left right k = Inr (cfg, ss ! k))"

lemma execute_collected:
  assumes "ji_mode ji = CollectLeft" and "hash_join_execute ctx ji jf left right k = Inr (cfg, s)" and "in_execute right k = Inr right_stream"
  shows "cfg = execute_config ctx ji jf left right (output_columns ji (in_schema left) (in_schema right)) \<and>
    (\<exists>fut. start_collect ctx ji left ''HashJoinInput'' 0 (in_partitions right) = Inr fut \<and> s = stream_new cfg fut right_stream (ji_fetch ji))"
proof -
  obtain fut cols where f: "left_future ctx ji left right k = Inr fut"
    "projected_columns (ji_projection ji) (snd (build_join_schema (in_schema left) (in_schema right) (ji_type ji))) = Inr cols"
    "cfg = execute_config ctx ji jf left right cols" "s = stream_new cfg fut right_stream (ji_fetch ji)"
    using assms by (auto simp: hash_join_execute_def Let_def split: if_splits)
  with projected_columns_ok [OF f(2)] assms(1) show ?thesis by (auto simp: left_future_def)
qed

lemma collected_streams:
  assumes su: "join_setup ctx v ji jf left right" and run: "collected_run ctx ji jf left right lbs rbss cfg ss"
    and fetch: "ji_fetch ji = None" and mem: "memory_granted (tx_env ctx) (length (flat_rows lbs))"
  obtains ld m m' where
    "cfg = execute_config ctx ji jf left right (output_columns ji (in_schema left) (in_schema right))"
    and "ss = map (\<lambda>rbs. stream_new cfg (Inr ld) (map Inr rbs) None) rbss"
    and "collect_left_input (tx_env ctx) (in_schema left) (map Inr lbs) (map fst (ji_on ji))
           (need_produce_result_in_final (ji_type ji)) (length rbss) (ji_null_equality ji) m = Inr (ld, m')"
proof -
  have mode: "ji_mode ji = CollectLeft" "in_partitions right = length rbss" "length ss = length rbss" "0 < length rbss"
    and lex: "in_execute left 0 = Inr (map Inr lbs)"
    and part: "\<And>k. k < length rbss \<Longrightarrow> in_execute right k = Inr (map Inr (rbss ! k)) \<and> join_inputs left right lbs (rbss ! k) \<and>
        hash_join_execute ctx ji jf left right k = Inr (cfg, ss ! k)"
    using run by (auto simp: collected_run_def)
  have ex: "cfg = execute_config ctx ji jf left right (output_columns ji (in_schema left) (in_schema right)) \<and>
      (\<exists>fut. start_collect ctx ji left ''HashJoinInput'' 0 (length rbss) = Inr fut \<and> ss ! k = stream_new cfg fut (map Inr (rbss ! k)) None)"
    if "k < length rbss" for k
    using execute_collected [OF mode(1), of ctx jf left right k cfg "ss ! k"] part [OF that] mode(2) fetch by auto
  obtain fut where fut: "start_collect ctx ji left ''HashJoinInput'' 0 (length rbss) = Inr fut" using ex [OF mode(4)] by blast
  obtain c where c: "fut = bind_res (collect_left_input (tx_env ctx) (in_schema left) (map Inr lbs) (map fst (ji_on ji))
           (need_produce_result_in_final (ji_type ji)) (length rbss) (ji_null_equality ji)
           (consumer_register (be_pool (tx_env ctx)) c (tx_pool ctx))) (\<lambda>(ld, mem'). Inr ld)"
    using start_collect_ok [OF fut lex] by blast
  have ak: "kernels_spec (be_kernels (tx_env ctx))" and fit: "list_all (batch_fits (in_schema left)) lbs"
    using su part [OF mode(4)] by (simp_all add: join_setup_def join_inputs_def)
  have typed: "typed_cell (be_types (tx_env ctx) e) (eval_pexpr e r)" if "e \<in> set (map fst (ji_on ji))" "row_fits (in_schema left) r" for e r
    using su that by (auto simp: join_setup_def keys_typed_def)
  obtain ld m' where ld: "collect_left_input (tx_env ctx) (in_schema left) (map Inr lbs) (map fst (ji_on ji))
           (need_produce_result_in_final (ji_type ji)) (length rbss) (ji_null_equality ji)
           (consumer_register (be_pool (tx_env ctx)) c (tx_pool ctx)) = Inr (ld, m')"
    using collect_left_succeeds [OF ak fit _ typed] mem unfolding memory_granted_def by blast
  have "ss = map (\<lambda>rbs. stream_new cfg (Inr ld) (map Inr rbs) None) rbss"
    using ex fut c ld mode(3) by (intro nth_equalityI) auto
  from that [OF conjunct1 [OF ex [OF mode(4)]] this ld] show thesis .
qed

text \<open>The invariant holds at the start, of the streams that the operator returns.\<close>

lemma collected_start:
  assumes su: "join_setup ctx v ji jf left right" and na: "\<not> ji_null_aware ji" and fetch: "ji_fetch ji = None"
    and run: "collected_run ctx ji jf left right lbs rbss cfg ss" and mem: "memory_granted (tx_env ctx) (length (flat_rows lbs))"
  obtains ord ld gs where "view_ok cfg v" and "join_ready cfg (in_schema left) (in_schema right) ji (be_types (tx_env ctx))"
    and "\<not> hc_null_aware cfg" and "hc_column_indices cfg = output_columns ji (in_schema left) (in_schema right)"
    and "left_ok (in_schema left) (hc_hash cfg) (be_types (tx_env ctx)) (ji_null_equality ji) (map fst (ji_on ji)) (flat_rows lbs) ord ld"
    and "system_ok cfg v ji (flat_rows lbs) ld (map flat_rows rbss) (shared_start ss) (replicate (length rbss) []) gs"
    and "length (map flat_rows rbss) < usize_mod"
proof -
  have ne: "rbss \<noteq> []" and bound: "length rbss < usize_mod" and parts: "\<And>k. k < length rbss \<Longrightarrow> join_inputs left right lbs (rbss ! k)"
    using run by (auto simp: collected_run_def)
  obtain ld m m' where cfg: "cfg = execute_config ctx ji jf left right (output_columns ji (in_schema left) (in_schema right))"
    and ss: "ss = map (\<lambda>rbs. stream_new cfg (Inr ld) (map Inr rbs) None) rbss"
    and c: "collect_left_input (tx_env ctx) (in_schema left) (map Inr lbs) (map fst (ji_on ji))
           (need_produce_result_in_final (ji_type ji)) (length rbss) (ji_null_equality ji) m = Inr (ld, m')"
    using collected_streams [OF su run fetch mem] by blast
  have ready: "view_ok cfg v" "join_ready cfg (in_schema left) (in_schema right) ji (be_types (tx_env ctx))"
    using execute_ready [OF su _ cfg] na by simp_all
  have hc: "hc_hash cfg = be_hash (tx_env ctx)" "\<not> hc_null_aware cfg" "hc_column_indices cfg = output_columns ji (in_schema left) (in_schema right)"
    using na by (simp_all add: cfg execute_config_def)
  obtain ord where ok: "left_ok (in_schema left) (hc_hash cfg) (be_types (tx_env ctx)) (ji_null_equality ji) (map fst (ji_on ji))
      (flat_rows lbs) ord ld" "visited_ok ji (ld_batch ld) [] (ld_visited ld)" "ld_threads ld = length rbss"
    using collected_state [OF su _ c] parts [of 0] ne hc(1) by auto
  have "list_all (batch_fits (in_schema right)) rbs \<and> list_all (\<lambda>b. num_rows b < 2 ^ 32) rbs" if "rbs \<in> set rbss" for rbs
    using that parts by (auto simp: in_set_conv_nth join_inputs_def)
  from start_ok [OF ready hc(2) ok this ne ss] obtain gs where
    "system_ok cfg v ji (flat_rows lbs) ld (map flat_rows rbss) (shared_start ss) (replicate (length rbss) []) gs" by blast
  with that ready hc ok(1) bound show thesis by simp
qed

section \<open>Properties\<close>

text \<open>C3. The streams of a collected hash join together yield the join. For each of the ten join
  types, with one stream for each partition of the probe side and all of them sharing the build
  side, its bitmap of visited rows and its counter of probe threads: whatever the order in which
  the streams are polled, no stream fails, at every moment what has been yielded is part of the
  join of the left input with all right partitions, each row at most as often as it is there,
  and when every stream has ended it is the whole join. The unmatched rows of the build side
  thus come out once, whichever stream is the last to exhaust its probe side. The inputs are
  error-free batches of their schemas, memory is granted and there is no fetch limit.\<close>

theorem collected_streams_correct:
  assumes "join_setup ctx v ji jf left right" and "\<not> ji_null_aware ji" and "ji_fetch ji = None"
    and "collected_run ctx ji jf left right lbs rbss cfg ss" and "memory_granted (tx_env ctx) (length (flat_rows lbs))"
    and "\<forall>i \<in> set sched. i < length ss"
  shows "\<exists>sys bss. run_schedule cfg sched (shared_start ss) = Some sys \<and> sj_items sys = map (map Inr) bss
    \<and> mset (concat (map flat_rows bss)) \<subseteq>#
        mset (join_rows ji (output_columns ji (in_schema left) (in_schema right)) (flat_rows lbs) (concat (map flat_rows rbss)))
    \<and> ((\<forall>i < length ss. has_ended cfg sys i) \<longrightarrow> mset (concat (map flat_rows bss)) =
        mset (join_rows ji (output_columns ji (in_schema left) (in_schema right)) (flat_rows lbs) (concat (map flat_rows rbss))))"
proof -
  obtain ord ld gs where st: "view_ok cfg v" "join_ready cfg (in_schema left) (in_schema right) ji (be_types (tx_env ctx))"
    "\<not> hc_null_aware cfg" "hc_column_indices cfg = output_columns ji (in_schema left) (in_schema right)"
    "left_ok (in_schema left) (hc_hash cfg) (be_types (tx_env ctx)) (ji_null_equality ji) (map fst (ji_on ji)) (flat_rows lbs) ord ld"
    "system_ok cfg v ji (flat_rows lbs) ld (map flat_rows rbss) (shared_start ss) (replicate (length rbss) []) gs"
    "length (map flat_rows rbss) < usize_mod" using collected_start [OF assms(1-5)] by blast
  have n: "length ss = length (map flat_rows rbss)" using assms(4) by (simp add: collected_run_def)
  obtain sys bss gs' where run: "run_schedule cfg sched (shared_start ss) = Some sys"
    "system_ok cfg v ji (flat_rows lbs) ld (map flat_rows rbss) sys bss gs'"
    using shared_run [OF st(1-3,5,7,6)] assms(6) n by metis
  have "sj_items sys = map (map Inr) bss" using run(2) by (simp add: system_ok_def)
  with run(1) system_rows [OF st(1,3) run(2)] n show ?thesis unfolding st(4) by auto
qed

text \<open>C6. The streams of a collected hash join all end, under every schedule that comes back to
  each of them again and again: after finitely many polls no stream has anything left to do,
  and the batches yielded are error-free and hold the rows of the join. As above, inputs are
  error-free, memory is granted, there is no fetch limit, and a report to dynamic filters, if
  there are any, is answered when it is polled for.\<close>

theorem collected_streams_end:
  assumes "join_setup ctx v ji jf left right" and "\<not> ji_null_aware ji" and "ji_fetch ji = None"
    and "collected_run ctx ji jf left right lbs rbss cfg ss" and "memory_granted (tx_env ctx) (length (flat_rows lbs))"
    and "\<And>k. f k < length ss" and "\<And>i k. i < length ss \<Longrightarrow> \<exists>k' \<ge> k. f k' = i"
  shows "\<exists>n sys bss. run_schedule cfg (map f [0..<n]) (shared_start ss) = Some sys \<and> (\<forall>i < length ss. has_ended cfg sys i)
    \<and> sj_items sys = map (map Inr) bss \<and> mset (concat (map flat_rows bss)) =
        mset (join_rows ji (output_columns ji (in_schema left) (in_schema right)) (flat_rows lbs) (concat (map flat_rows rbss)))"
proof -
  obtain ord ld gs where st: "view_ok cfg v" "join_ready cfg (in_schema left) (in_schema right) ji (be_types (tx_env ctx))"
    "\<not> hc_null_aware cfg" "hc_column_indices cfg = output_columns ji (in_schema left) (in_schema right)"
    "left_ok (in_schema left) (hc_hash cfg) (be_types (tx_env ctx)) (ji_null_equality ji) (map fst (ji_on ji)) (flat_rows lbs) ord ld"
    "system_ok cfg v ji (flat_rows lbs) ld (map flat_rows rbss) (shared_start ss) (replicate (length rbss) []) gs"
    "length (map flat_rows rbss) < usize_mod" using collected_start [OF assms(1-5)] by blast
  have len: "length ss = length (map flat_rows rbss)" using assms(4) by (simp add: collected_run_def)
  obtain n sys where run: "run_schedule cfg (map f [0..<n]) (shared_start ss) = Some sys" "\<forall>i < length (map flat_rows rbss). has_ended cfg sys i"
    using fair_run [OF st(1-3,5,7,6) assms(6,7) [unfolded len], of 0] by blast
  have "\<forall>i \<in> set (map f [0..<n]). i < length (map flat_rows rbss)" using assms(6) len by simp
  from shared_run [OF st(1-3,5,7,6) this] run(1) obtain bss gs' where
    ok: "system_ok cfg v ji (flat_rows lbs) ld (map flat_rows rbss) sys bss gs'" by auto
  have "sj_items sys = map (map Inr) bss" using ok by (simp add: system_ok_def)
  with run system_rows(2) [OF st(1,3) ok run(2)] len show ?thesis unfolding st(4) by auto
qed

text \<open>A full join whose probe side has two partitions.\<close>

definition split_input :: "string \<Rightarrow> cell list list \<Rightarrow> join_input" where
  "split_input n parts = \<lparr>in_schema = text_schema n, in_partitions = length parts, in_ordered = False,
     in_execute = (\<lambda>i. Inr [Inr \<lparr>col_types = [Utf8], rows = map (\<lambda>c. [c]) (parts ! i)\<rparr>])\<rparr>"

lemma split_setup:
  "join_setup (text_context pool p) list_view (text_join t fetch) None (text_input ''k'' ls) (split_input ''j'' parts)"
  using text_setup [of pool p t fetch ls "[]"] by (simp add: join_setup_def text_input_def split_input_def)

lemma split_run:
  assumes "parts \<noteq> []" and "length parts < usize_mod" and "length ls < 2 ^ 32"
    and "\<forall>cs \<in> set parts. length cs < 2 ^ 32 \<and> (\<forall>c \<in> set ls \<union> set cs. cell_ok Utf8 c)"
  shows "\<exists>cfg ss. collected_run (text_context pool p) (text_join t fetch) jf (text_input ''k'' ls) (split_input ''j'' parts)
    [\<lparr>col_types = [Utf8], rows = map (\<lambda>c. [c]) ls\<rparr>] (map (\<lambda>cs. [\<lparr>col_types = [Utf8], rows = map (\<lambda>c. [c]) cs\<rparr>]) parts) cfg ss"
proof -
  let ?ex = "hash_join_execute (text_context pool p) (text_join t fetch) jf (text_input ''k'' ls) (split_input ''j'' parts)"
  have "\<exists>cfg. \<forall>k. \<exists>s. ?ex k = Inr (cfg, s)"
    by (simp add: hash_join_execute_def left_future_def start_collect_def text_join_def text_input_def split_input_def
        projected_columns_def Let_def case_prod_unfold)
  then obtain cfg S where ex: "\<And>k. ?ex k = Inr (cfg, S k)" by metis
  have "join_inputs (text_input ''k'' ls) (split_input ''j'' parts) [\<lparr>col_types = [Utf8], rows = map (\<lambda>c. [c]) ls\<rparr>]
      [\<lparr>col_types = [Utf8], rows = map (\<lambda>c. [c]) (parts ! k)\<rparr>]" if "k < length parts" for k
    using text_inputs [of ls "parts ! k"] assms(3) bspec [OF assms(4) nth_mem [OF that]]
    by (auto simp: join_inputs_def text_input_def split_input_def)
  then show ?thesis using assms(1,2) ex
    by (intro exI [of _ cfg] exI [of _ "map S [0..<length parts]"]) (simp add: collected_run_def text_join_def text_input_def split_input_def)
qed

theorem collected_streams_correct_witness:
  "\<exists>cfg ss sys bss.
     collected_run (text_context unbounded_ops \<lparr>ub_used = 0\<rparr>) (text_join Full None) None
       (text_input ''k'' [CStr ''a'', CStr ''b'', CStr ''c'']) (split_input ''j'' [[CStr ''a'', CNull], [CStr ''b'']])
       [\<lparr>col_types = [Utf8], rows = [[CStr ''a''], [CStr ''b''], [CStr ''c'']]\<rparr>]
       [[\<lparr>col_types = [Utf8], rows = [[CStr ''a''], [CNull]]\<rparr>], [\<lparr>col_types = [Utf8], rows = [[CStr ''b'']]\<rparr>]] cfg ss
     \<and> run_schedule cfg [1, 0, 0, 1, 1, 0, 1] (shared_start ss) = Some sys \<and> sj_items sys = map (map Inr) bss
     \<and> mset (concat (map flat_rows bss)) \<subseteq>#
         {#[CStr ''a'', CStr ''a''], [CStr ''b'', CStr ''b''], [CNull, CNull], [CStr ''c'', CNull]#}"
proof -
  let ?L = "[CStr ''a'', CStr ''b'', CStr ''c'']" and ?P = "[[CStr ''a'', CNull], [CStr ''b'']]" and ?ji = "text_join Full None"
  let ?l = "text_input ''k'' ?L" and ?r = "split_input ''j'' ?P" and ?ctx = "text_context unbounded_ops \<lparr>ub_used = 0\<rparr>"
  let ?lbs = "[\<lparr>col_types = [Utf8], rows = [[CStr ''a''], [CStr ''b''], [CStr ''c'']]\<rparr>]"
  let ?rbss = "[[\<lparr>col_types = [Utf8], rows = [[CStr ''a''], [CNull]]\<rparr>], [\<lparr>col_types = [Utf8], rows = [[CStr ''b'']]\<rparr>]]"
  obtain cfg ss where run: "collected_run ?ctx ?ji None ?l ?r ?lbs ?rbss cfg ss"
    using split_run [of ?P ?L unbounded_ops "\<lparr>ub_used = 0\<rparr>" Full None None] by (auto simp: usize_mod_def)
  have "\<exists>sys bss. run_schedule cfg [1, 0, 0, 1, 1, 0, 1] (shared_start ss) = Some sys \<and> sj_items sys = map (map Inr) bss
    \<and> mset (concat (map flat_rows bss)) \<subseteq>#
        mset (join_rows ?ji (output_columns ?ji (in_schema ?l) (in_schema ?r)) (flat_rows ?lbs) (concat (map flat_rows ?rbss)))
    \<and> ((\<forall>i < length ss. has_ended cfg sys i) \<longrightarrow> mset (concat (map flat_rows bss)) =
        mset (join_rows ?ji (output_columns ?ji (in_schema ?l) (in_schema ?r)) (flat_rows ?lbs) (concat (map flat_rows ?rbss))))"
    by (rule collected_streams_correct [OF split_setup _ _ run])
       (use run in \<open>simp_all add: text_join_def unbounded_grants collected_run_def\<close>)
  moreover have "join_rows ?ji (output_columns ?ji (in_schema ?l) (in_schema ?r)) (flat_rows ?lbs) (concat (map flat_rows ?rbss)) =
      [[CStr ''a'', CStr ''a''], [CStr ''b'', CStr ''b''], [CNull, CNull], [CStr ''c'', CNull]]" by code_simp
  ultimately show ?thesis using run by auto
qed

theorem collected_streams_end_witness:
  "\<exists>cfg ss n sys bss.
     collected_run (text_context unbounded_ops \<lparr>ub_used = 0\<rparr>) (text_join Full None) None
       (text_input ''k'' [CStr ''a'', CStr ''b'', CStr ''c'']) (split_input ''j'' [[CStr ''a'', CNull], [CStr ''b'']])
       [\<lparr>col_types = [Utf8], rows = [[CStr ''a''], [CStr ''b''], [CStr ''c'']]\<rparr>]
       [[\<lparr>col_types = [Utf8], rows = [[CStr ''a''], [CNull]]\<rparr>], [\<lparr>col_types = [Utf8], rows = [[CStr ''b'']]\<rparr>]] cfg ss
     \<and> run_schedule cfg (map (\<lambda>k. k mod 2) [0..<n]) (shared_start ss) = Some sys \<and> has_ended cfg sys 0 \<and> has_ended cfg sys 1
     \<and> sj_items sys = map (map Inr) bss \<and> mset (concat (map flat_rows bss)) =
         {#[CStr ''a'', CStr ''a''], [CStr ''b'', CStr ''b''], [CNull, CNull], [CStr ''c'', CNull]#}"
proof -
  let ?L = "[CStr ''a'', CStr ''b'', CStr ''c'']" and ?P = "[[CStr ''a'', CNull], [CStr ''b'']]" and ?ji = "text_join Full None"
  let ?l = "text_input ''k'' ?L" and ?r = "split_input ''j'' ?P" and ?ctx = "text_context unbounded_ops \<lparr>ub_used = 0\<rparr>"
  let ?lbs = "[\<lparr>col_types = [Utf8], rows = [[CStr ''a''], [CStr ''b''], [CStr ''c'']]\<rparr>]"
  let ?rbss = "[[\<lparr>col_types = [Utf8], rows = [[CStr ''a''], [CNull]]\<rparr>], [\<lparr>col_types = [Utf8], rows = [[CStr ''b'']]\<rparr>]]"
  obtain cfg ss where run: "collected_run ?ctx ?ji None ?l ?r ?lbs ?rbss cfg ss"
    using split_run [of ?P ?L unbounded_ops "\<lparr>ub_used = 0\<rparr>" Full None None] by (auto simp: usize_mod_def)
  then have two: "length ss = 2" by (simp add: collected_run_def)
  have fair: "\<exists>k' \<ge> k. k' mod 2 = i" if "i < length ss" for i k using that two by (intro exI [of _ "2 * k + i"]) auto
  have "\<exists>n sys bss. run_schedule cfg (map (\<lambda>k. k mod 2) [0..<n]) (shared_start ss) = Some sys \<and> (\<forall>i < length ss. has_ended cfg sys i)
    \<and> sj_items sys = map (map Inr) bss \<and> mset (concat (map flat_rows bss)) =
        mset (join_rows ?ji (output_columns ?ji (in_schema ?l) (in_schema ?r)) (flat_rows ?lbs) (concat (map flat_rows ?rbss)))"
    by (rule collected_streams_end [OF split_setup _ _ run])
       (use fair two in \<open>simp_all add: text_join_def unbounded_grants\<close>)
  moreover have "join_rows ?ji (output_columns ?ji (in_schema ?l) (in_schema ?r)) (flat_rows ?lbs) (concat (map flat_rows ?rbss)) =
      [[CStr ''a'', CStr ''a''], [CStr ''b'', CStr ''b''], [CNull, CNull], [CStr ''c'', CNull]]" by code_simp
  ultimately obtain n sys bss where r: "run_schedule cfg (map (\<lambda>k. k mod 2) [0..<n]) (shared_start ss) = Some sys"
    "\<forall>i < length ss. has_ended cfg sys i" "sj_items sys = map (map Inr) bss" "mset (concat (map flat_rows bss)) =
         {#[CStr ''a'', CStr ''a''], [CStr ''b'', CStr ''b''], [CNull, CNull], [CStr ''c'', CNull]#}" by auto
  have "has_ended cfg sys 0" "has_ended cfg sys 1" using r(2) two by simp_all
  with run r(1,3,4) show ?thesis by blast
qed

end
