(* ===== verification/MlKnapsack.thy ===== *)
theory MlKnapsack
  imports Knapsack "HOL-Library.Multiset"
begin

text \<open>
  The Python side of the budget policy, \<open>ml/knapsack.py\<close>: the exact knapsack, which the
  optimizer's \<open>knapsack_select\<close> is a port of, and the greedy selection. Integers are
  unbounded and may be negative; the tables are lists that the loops assign to by index.
\<close>

section \<open>Definitions\<close>

record py_candidate =
  py_col_name :: string
  cand_value :: f64
  cand_weight :: int

text \<open>\<open>_kb\<close>; the result is positive, so capacities are natural numbers.\<close>

definition py_kb :: "int \<Rightarrow> nat" where
  "py_kb bytes_val = nat (max 1 (bytes_val div 1024))"

text \<open>One turn of the inner loop; \<open>chosen\<close> is the whole matrix.\<close>

fun py_cell :: "nat \<Rightarrow> f64 \<Rightarrow> nat \<Rightarrow> nat \<Rightarrow> f64 list \<times> bool list list \<Rightarrow> f64 list \<times> bool list list" where
  "py_cell wi v i w (dp, chosen) =
     (let candidate_val = fadd (dp ! (w - wi)) v
      in if flt (dp ! w) candidate_val then (dp[w := candidate_val], chosen[i := (chosen ! i)[w := True]])
         else (dp, chosen))"

text \<open>\<open>for w in range(W, ws[i] - 1, -1)\<close>, and the loop over the items.\<close>

definition py_item :: "nat \<Rightarrow> py_candidate list \<Rightarrow> nat \<Rightarrow> f64 list \<times> bool list list \<Rightarrow> f64 list \<times> bool list list" where
  "py_item cap cs i =
     fold (py_cell (py_kb (cand_weight (cs ! i))) (cand_value (cs ! i)) i) (rev [py_kb (cand_weight (cs ! i))..<Suc cap])"

definition py_table :: "nat \<Rightarrow> py_candidate list \<Rightarrow> f64 list \<times> bool list list" where
  "py_table cap cs = fold (py_item cap cs) [0..<length cs]
     (replicate (Suc cap) fzero, replicate (length cs) (replicate (Suc cap) False))"

text \<open>The traceback: the names collected so far and the capacity left.\<close>

definition py_trace_step :: "py_candidate list \<Rightarrow> bool list list \<Rightarrow> nat \<Rightarrow> string list \<times> nat \<Rightarrow> string list \<times> nat" where
  "py_trace_step cs chosen i st =
     (if chosen ! i ! snd st then (fst st @ [py_col_name (cs ! i)], snd st - py_kb (cand_weight (cs ! i))) else st)"

definition select_filters_exact :: "py_candidate list \<Rightarrow> int \<Rightarrow> string list" where
  "select_filters_exact cs budget_bytes =
     (if cs = [] \<or> budget_bytes \<le> 0 then []
      else let cap = py_kb budget_bytes
           in fst (fold (py_trace_step cs (snd (py_table cap cs))) (rev [0..<length cs]) ([], cap)))"

text \<open>
  \<open>sorted(..., reverse=True)\<close>: stable, with the largest keys first. Keys are compared with
  \<open><\<close> only, so that this describes Python's sort on keys without NaN.
\<close>

fun py_insort :: "('a \<Rightarrow> f64) \<Rightarrow> 'a \<Rightarrow> 'a list \<Rightarrow> 'a list" where
  "py_insort key x [] = [x]"
| "py_insort key x (y # ys) = (if flt (key x) (key y) then x # y # ys else y # py_insort key x ys)"

definition py_sorted_reverse :: "('a \<Rightarrow> f64) \<Rightarrow> 'a list \<Rightarrow> 'a list" where
  "py_sorted_reverse key xs = rev (fold (py_insort key) (rev xs) [])"

definition value_ratio :: "py_candidate \<Rightarrow> f64" where
  "value_ratio c = fdiv (cand_value c) (f64_of_usize (nat (max (cand_weight c) 1)))"

definition greedy_step :: "py_candidate \<Rightarrow> py_candidate list \<times> int \<Rightarrow> py_candidate list \<times> int" where
  "greedy_step c st = (if cand_weight c \<le> snd st then (fst st @ [c], snd st - cand_weight c) else st)"

definition select_filters_greedy :: "py_candidate list \<Rightarrow> int \<Rightarrow> string list" where
  "select_filters_greedy cs budget_bytes =
     (if cs = [] \<or> budget_bytes \<le> 0 then []
      else map py_col_name (fst (fold greedy_step (py_sorted_reverse value_ratio cs) ([], budget_bytes))))"

section \<open>The exact knapsack against the port\<close>

definition port_candidate :: "py_candidate \<Rightarrow> ml_candidate" where
  "port_candidate c = \<lparr>cand_key = py_col_name c, build_col = py_col_name c, probe_col = py_col_name c,
     weight_bytes = nat (cand_weight c), pred_prob = cand_value c\<rparr>"

lemma port_candidate_simps [simp]:
  "cand_key (port_candidate c) = py_col_name c" "weight_bytes (port_candidate c) = nat (cand_weight c)"
  "pred_prob (port_candidate c) = cand_value c"
  by (simp_all add: port_candidate_def)

lemma py_kb_port: "py_kb b = to_kb (nat b)"
proof (cases "0 \<le> b")
  case True
  then have "nat b div 1024 = nat (b div 1024)" by (simp add: nat_div_distrib)
  then show ?thesis unfolding py_kb_def to_kb_def by arith
next
  case False
  then have "b div 1024 < 0" by simp
  then have "max 1 (b div 1024) = 1" by linarith
  then show ?thesis using False by (simp add: py_kb_def to_kb_def)
qed

text \<open>A loop on one row of the matrix is a loop on the row.\<close>

lemma py_cells_row:
  assumes "i < length chosen"
  shows "fold (py_cell wi v i) ws (dp, chosen) =
    (let (dp', row) = fold (knap_cell wi v) ws (dp, chosen ! i) in (dp', chosen[i := row]))"
  using assms
proof (induction ws arbitrary: dp chosen)
  case (Cons w ws)
  then show ?case by (simp add: Let_def split: prod.split)
qed simp

lemma py_item_row:
  assumes "i < length chosen" and "chosen ! i = replicate (Suc cap) False" and "i < length cs"
  shows "py_item cap cs i (dp, chosen) =
    (let (dp', row) = knap_row cap (py_kb (cand_weight (cs ! i))) (cand_value (cs ! i)) dp in (dp', chosen[i := row]))"
  using py_cells_row [OF assms(1)] assms(2) by (simp add: py_item_def knap_row_def del: upt_Suc replicate_Suc)

lemma py_table_prefix:
  assumes "k \<le> length cs"
  shows "fold (py_item cap cs) [0..<k] (replicate (Suc cap) fzero, replicate (length cs) (replicate (Suc cap) False)) =
    (fst (knap_table cap (map port_candidate (take k cs))),
     snd (knap_table cap (map port_candidate (take k cs))) @ replicate (length cs - k) (replicate (Suc cap) False))
    \<and> length (snd (knap_table cap (map port_candidate (take k cs)))) = k"
  using assms
proof (induction k)
  case 0
  then show ?case by (simp add: knap_table_def)
next
  case (Suc k)
  let ?t = "knap_table cap (map port_candidate (take k cs))" and ?no = "replicate (Suc cap) False"
  have t: "take (Suc k) cs = take k cs @ [cs ! k]" using Suc.prems by (simp add: take_Suc_conv_app_nth)
  have len: "length (snd ?t) = k" using Suc by simp
  obtain dp' row where row: "knap_row cap (to_kb (nat (cand_weight (cs ! k)))) (cand_value (cs ! k)) (fst ?t) = (dp', row)" by fastforce
  have next': "knap_table cap (map port_candidate (take (Suc k) cs)) = (dp', snd ?t @ [row])"
    using row by (simp add: t knap_table_def knap_item_def)
  have rest: "replicate (length cs - k) ?no = ?no # replicate (length cs - Suc k) ?no"
    using Suc.prems by (metis Suc_diff_Suc Suc_le_lessD replicate_Suc)
  have "py_item cap cs k (fst ?t, snd ?t @ replicate (length cs - k) ?no) = (dp', (snd ?t @ replicate (length cs - k) ?no)[k := row])"
    using Suc.prems row len by (subst py_item_row) (simp_all add: nth_append py_kb_port del: replicate_Suc)
  also have "(snd ?t @ replicate (length cs - k) ?no)[k := row] = (snd ?t @ [row]) @ replicate (length cs - Suc k) ?no"
    unfolding rest using len by (simp add: list_update_append)
  finally show ?case using Suc next' len by simp
qed

lemma py_table_port:
  "py_table cap cs = knap_table cap (map port_candidate cs)" "length (snd (knap_table cap (map port_candidate cs))) = length cs"
  using py_table_prefix [of "length cs" cs cap] by (simp_all add: py_table_def)

lemma py_trace_port:
  assumes "length chosen = length cs" and "k \<le> length cs"
  shows "fst (fold (py_trace_step cs chosen) (rev [0..<k]) (sel, w)) =
    sel @ map cand_key (knap_trace w (rev (zip (take k chosen) (map port_candidate (take k cs)))))"
  using assms(2)
proof (induction k arbitrary: sel w)
  case (Suc k)
  have "take (Suc k) cs = take k cs @ [cs ! k]" "take (Suc k) chosen = take k chosen @ [chosen ! k]"
    using Suc.prems assms(1) by (simp_all add: take_Suc_conv_app_nth)
  with Suc assms(1) show ?case by (simp add: py_trace_step_def py_kb_port)
qed simp

lemma select_exact_keys:
  "set (select_filters_exact cs budget) = knapsack_select (map port_candidate cs) (nat budget)"
proof (cases "cs = [] \<or> budget \<le> 0")
  case False
  let ?cap = "py_kb budget"
  have "select_filters_exact cs budget =
      map cand_key (knap_trace ?cap (rev (zip (snd (knap_table ?cap (map port_candidate cs))) (map port_candidate cs))))"
    using False py_trace_port [OF py_table_port(2) order_refl, of cs ?cap "[]" ?cap]
    by (simp add: select_filters_exact_def py_table_port Let_def)
  then show ?thesis using False by (simp add: knapsack_select_def knap_chosen_def py_kb_port)
qed (auto simp: select_filters_exact_def knapsack_select_def)

lemma knapsack_keys: "knapsack_select cs budget \<subseteq> cand_key ` set cs"
proof -
  have "set (knap_trace w rcs) \<subseteq> snd ` set rcs" for w rcs by (induction w rcs rule: knap_trace.induct) auto
  then have "set (knap_chosen w cs) \<subseteq> set cs" for w by (force simp: knap_chosen_def dest: set_zip_rightD)
  then show ?thesis by (auto simp: knapsack_select_def)
qed

section \<open>The greedy selection\<close>

lemma py_sorted_mset [simp]: "mset (py_sorted_reverse key xs) = mset xs"
proof -
  have ins: "mset (py_insort key x ys) = add_mset x (mset ys)" for x ys by (induction ys) auto
  have "mset (fold (py_insort key) xs ys) = mset xs + mset ys" for xs ys
    by (induction xs arbitrary: ys) (simp_all add: ins)
  then show ?thesis by (simp add: py_sorted_reverse_def)
qed

definition weight_sum :: "py_candidate list \<Rightarrow> int" where
  "weight_sum S = sum_list (map cand_weight S)"

lemma greedy_step_pair:
  "greedy_step c (S, left) = (if cand_weight c \<le> left then (S @ [c], left - cand_weight c) else (S, left))"
  by (simp add: greedy_step_def)

lemma greedy_invariant:
  assumes "0 \<le> left" and "\<forall>c \<in> set cs. 0 \<le> cand_weight c"
  shows "\<exists>T left'. fold greedy_step cs (S, left) = (S @ T, left') \<and> 0 \<le> left' \<and> left' = left - weight_sum T
    \<and> mset T \<subseteq># mset cs \<and> (\<forall>c \<in># mset cs - mset T. left' < cand_weight c)"
  using assms
proof (induction cs arbitrary: S left)
  case (Cons c cs)
  have rest: "\<forall>d \<in> set cs. 0 \<le> cand_weight d" using Cons.prems(2) by simp
  show ?case
  proof (cases "cand_weight c \<le> left")
    case True
    then have "0 \<le> left - cand_weight c" by simp
    from Cons.IH [OF this rest, of "S @ [c]"] obtain T left' where T: "fold greedy_step cs (S @ [c], left - cand_weight c) = ((S @ [c]) @ T, left')" "0 \<le> left'"
      "left' = left - cand_weight c - weight_sum T" "mset T \<subseteq># mset cs" "\<forall>d \<in># mset cs - mset T. left' < cand_weight d"
      by blast
    with True show ?thesis by (intro exI [of _ "c # T"] exI [of _ left']) (simp add: greedy_step_pair weight_sum_def)
  next
    case False
    from Cons.IH [OF Cons.prems(1) rest, of S] obtain T left' where T: "fold greedy_step cs (S, left) = (S @ T, left')" "0 \<le> left'"
      "left' = left - weight_sum T" "mset T \<subseteq># mset cs" "\<forall>d \<in># mset cs - mset T. left' < cand_weight d"
      by blast
    have "set T \<subseteq> set cs" using set_mset_mono [OF T(4)] by simp
    with rest have "\<forall>d \<in> set T. 0 \<le> cand_weight d" by blast
    then have "0 \<le> weight_sum T" by (auto simp: weight_sum_def intro!: sum_list_nonneg)
    then have "left' < cand_weight c" using False T(3) by simp
    then have "\<forall>d \<in># mset (c # cs) - mset T. left' < cand_weight d"
      using T(5) multiset_diff_union_assoc [OF T(4), of "{#c#}"] by simp
    moreover have "mset T \<subseteq># mset (c # cs)"
      using subset_mset.order_trans [OF T(4) mset_subset_eq_add_right [of "mset cs" "{#c#}"]] by simp
    moreover have "fold greedy_step (c # cs) (S, left) = (S @ T, left')" using False T(1) by (simp add: greedy_step_pair)
    ultimately show ?thesis using T(2,3) by blast
  qed
qed (simp add: weight_sum_def)

section \<open>Properties\<close>

text \<open>C16. The script and the optimizer select the same filters: for any candidates and any
  budget, also with weights that are not positive, the names that the exact knapsack of the
  script returns are the keys that the port in the optimizer selects.\<close>

theorem exact_knapsack_parity:
  "set (select_filters_exact cs budget) = knapsack_select (map port_candidate cs) (nat budget)"
  by (rule select_exact_keys)

text \<open>C31. The greedy selection keeps to the budget in bytes, which the exact one does not, and
  cannot be extended: with weights that are not negative, every candidate it leaves out is
  larger than what is left of the budget.\<close>

theorem greedy_within_budget:
  assumes "0 < budget" and "\<forall>c \<in> set cs. 0 \<le> cand_weight c"
  shows "\<exists>S. select_filters_greedy cs budget = map py_col_name S \<and> mset S \<subseteq># mset cs \<and> weight_sum S \<le> budget
    \<and> (\<forall>c \<in># mset cs - mset S. budget < weight_sum S + cand_weight c)"
proof (cases "cs = []")
  case False
  have s: "\<forall>c \<in> set (py_sorted_reverse value_ratio cs). 0 \<le> cand_weight c"
    using assms(2) by (metis py_sorted_mset set_mset_mset)
  obtain S left' where S: "fold greedy_step (py_sorted_reverse value_ratio cs) ([], budget) = ([] @ S, left')" "0 \<le> left'"
    "left' = budget - weight_sum S" "mset S \<subseteq># mset cs" "\<forall>c \<in># mset cs - mset S. left' < cand_weight c"
    using greedy_invariant [OF less_imp_le [OF assms(1)] s, of "[]"] by (auto simp only: py_sorted_mset)
  then show ?thesis using False assms(1) by (intro exI [of _ S]) (auto simp: select_filters_greedy_def)
qed (use assms(1) in \<open>simp add: select_filters_greedy_def weight_sum_def\<close>)

text \<open>The candidates of the third test of the script.\<close>

definition gap_candidates :: "py_candidate list" where
  "gap_candidates = [\<lparr>py_col_name = ''big'', cand_value = flit (9 / 10), cand_weight = 5120\<rparr>,
     \<lparr>py_col_name = ''med1'', cand_value = flit (7 / 10), cand_weight = 4096\<rparr>,
     \<lparr>py_col_name = ''med2'', cand_value = flit (5 / 10), cand_weight = 3072\<rparr>]"

theorem greedy_within_budget_witness:
  "\<exists>S. select_filters_greedy gap_candidates 7168 = map py_col_name S \<and> mset S \<subseteq># mset gap_candidates \<and> weight_sum S \<le> 7168
    \<and> (\<forall>c \<in># mset gap_candidates - mset S. 7168 < weight_sum S + cand_weight c)"
  by (rule greedy_within_budget) (simp_all add: gap_candidates_def)

end
