(* ===== verification/MlScripts.thy ===== *)
theory MlScripts
  imports MlKnapsack BloomTransfer
begin

text \<open>
  The Python side of the model, \<open>ml/bf_model.py\<close>: the export of the trained classifier to
  JSON and the inference from it that the optimizer's \<open>predict_proba\<close> mirrors; and the
  evaluation of the policy in \<open>ml/evaluation.py\<close>. What training leaves behind (scikit-learn's
  arrays) and NumPy's functions are parameters. Exceptions are values; indices may be
  negative and then count from the end.
\<close>

section \<open>Definitions\<close>

datatype py_error = IndexError | KeyError | TypeError

type_synonym 'a py = "py_error + 'a"

definition py_get :: "'a list \<Rightarrow> int \<Rightarrow> 'a py" where
  "py_get xs i =
     (if 0 \<le> i \<and> i < int (length xs) then Inr (xs ! nat i)
      else if i < 0 \<and> 0 \<le> i + int (length xs) then Inr (xs ! nat (i + int (length xs)))
      else Inl IndexError)"

definition FEATURE_COLS :: "string list" where
  "FEATURE_COLS = [''build_cardinality'', ''distinct_estimate'', ''filter_size_bytes'', ''build_time_ms'', ''distinctness_ratio'']"

subsection \<open>Export\<close>

text \<open>A fitted tree and classifier, as far as the export reads them.\<close>

record sk_tree =
  node_count :: nat
  sk_feature :: "int list"
  sk_threshold :: "f64 list"
  children_left :: "int list"
  children_right :: "int list"
  sk_value :: "f64 list"

record sk_classifier =
  sk_n_estimators :: nat
  sk_learning_rate :: f64
  class_prior :: f64
  sk_estimators :: "sk_tree list"

definition tree_to_nodes :: "sk_tree \<Rightarrow> node list" where
  "tree_to_nodes t = map (\<lambda>i.
     if sk_feature t ! i = - 2
     then \<lparr>node_feature = - 1, node_threshold = None, node_left = - 1, node_right = - 1, node_value = Some (sk_value t ! i)\<rparr>
     else \<lparr>node_feature = sk_feature t ! i, node_threshold = Some (sk_threshold t ! i),
           node_left = children_left t ! i, node_right = children_right t ! i, node_value = None\<rparr>) [0..<node_count t]"

definition np_clip :: "f64 \<Rightarrow> f64 \<Rightarrow> f64 \<Rightarrow> f64" where
  "np_clip x lo hi = (if flt x lo then lo else if flt hi x then hi else x)"

definition export_model :: "(f64 \<Rightarrow> f64) \<Rightarrow> sk_classifier \<Rightarrow> gbt_model" where
  "export_model np_log clf =
     (let prior = np_clip (class_prior clf) (flit (1 / 10 ^ 7)) (fsub (flit 1) (flit (1 / 10 ^ 7)))
      in \<lparr>feature_names = FEATURE_COLS, n_estimators = sk_n_estimators clf, learning_rate = sk_learning_rate clf,
          init_score = np_log (fdiv prior (fsub (flit 1) prior)), trees = map tree_to_nodes (sk_estimators clf)\<rparr>)"

subsection \<open>Inference\<close>

fun lookup_features :: "(string \<rightharpoonup> f64) \<Rightarrow> string list \<Rightarrow> f64 list py" where
  "lookup_features d [] = Inr []"
| "lookup_features d (f # fs) =
     (case d f of
        None \<Rightarrow> Inl KeyError
      | Some x \<Rightarrow> (case lookup_features d fs of Inl e \<Rightarrow> Inl e | Inr xs \<Rightarrow> Inr (x # xs)))"

text \<open>The loop over one tree, which may not end; a threshold or a value that is \<open>None\<close> raises.\<close>

partial_function (option) py_walk :: "node list \<Rightarrow> f64 list \<Rightarrow> int \<Rightarrow> f64 py option" where
  "py_walk nodes x idx =
     (case py_get nodes idx of
        Inl e \<Rightarrow> Some (Inl e)
      | Inr n \<Rightarrow>
          if node_feature n = - 1
          then Some (case node_value n of None \<Rightarrow> Inl TypeError | Some v \<Rightarrow> Inr v)
          else case py_get x (node_feature n) of
                 Inl e \<Rightarrow> Some (Inl e)
               | Inr y \<Rightarrow>
                   (case node_threshold n of
                      None \<Rightarrow> Some (Inl TypeError)
                    | Some t \<Rightarrow> py_walk nodes x (if fle y t then node_left n else node_right n)))"

fun py_score :: "f64 \<Rightarrow> f64 list \<Rightarrow> f64 \<Rightarrow> node list list \<Rightarrow> f64 py option" where
  "py_score lr x score [] = Some (Inr score)"
| "py_score lr x score (t # ts) =
     (case py_walk t x 0 of
        None \<Rightarrow> None
      | Some (Inl e) \<Rightarrow> Some (Inl e)
      | Some (Inr v) \<Rightarrow> py_score lr x (fadd score (fmul lr v)) ts)"

definition predict_from_json :: "(f64 \<Rightarrow> f64) \<Rightarrow> (string \<rightharpoonup> f64) \<Rightarrow> gbt_model \<Rightarrow> f64 py option" where
  "predict_from_json np_exp features_dict model =
     (case lookup_features features_dict (feature_names model) of
        Inl e \<Rightarrow> Some (Inl e)
      | Inr x \<Rightarrow>
          (case py_score (learning_rate model) x (init_score model) (trees model) of
             None \<Rightarrow> None
           | Some (Inl e) \<Rightarrow> Some (Inl e)
           | Some (Inr score) \<Rightarrow> Some (Inr (fdiv (flit 1) (fadd (flit 1) (np_exp (fneg score)))))))"

subsection \<open>Evaluation\<close>

text \<open>A row of the metrics, averaged over its runs, and a candidate with its prediction.\<close>

record metrics_row =
  row_query :: string
  row_col :: string
  row_features :: "string \<rightharpoonup> f64"
  row_bytes :: int
  row_benefit :: f64
  row_label :: f64

record detail =
  det_key :: string
  det_row :: metrics_row
  predicted_p :: f64
  det_selected :: bool

fun predict_rows :: "(f64 \<Rightarrow> f64) \<Rightarrow> gbt_model \<Rightarrow> metrics_row list \<Rightarrow> detail list py option" where
  "predict_rows np_exp model [] = Some (Inr [])"
| "predict_rows np_exp model (r # rs) =
     (case predict_from_json np_exp (row_features r) model of
        None \<Rightarrow> None
      | Some (Inl e) \<Rightarrow> Some (Inl e)
      | Some (Inr p) \<Rightarrow>
          (case predict_rows np_exp model rs of
             None \<Rightarrow> None
           | Some (Inl e) \<Rightarrow> Some (Inl e)
           | Some (Inr ds) \<Rightarrow>
               Some (Inr (\<lparr>det_key = row_query r @ '':'' @ row_col r, det_row = r, predicted_p = p, det_selected = False\<rparr> # ds))))"

definition knapsack_in :: "detail \<Rightarrow> py_candidate" where
  "knapsack_in d = \<lparr>py_col_name = det_key d, cand_value = predicted_p d, cand_weight = row_bytes (det_row d)\<rparr>"

definition ml_detail :: "(f64 \<Rightarrow> f64) \<Rightarrow> metrics_row list \<Rightarrow> gbt_model \<Rightarrow> int \<Rightarrow> detail list py option" where
  "ml_detail np_exp df model budget_bytes =
     (case predict_rows np_exp model df of
        None \<Rightarrow> None
      | Some (Inl e) \<Rightarrow> Some (Inl e)
      | Some (Inr cs) \<Rightarrow>
          let selected_keys = set (select_filters_exact (map knapsack_in cs) budget_bytes)
          in Some (Inr (map (\<lambda>c. c\<lparr>det_selected := (det_key c \<in> selected_keys)\<rparr>) cs)))"

definition add_benefit :: "detail \<Rightarrow> (string \<rightharpoonup> f64) \<Rightarrow> (string \<rightharpoonup> f64)" where
  "add_benefit c per_query =
     (if det_selected c
      then per_query(row_query (det_row c) \<mapsto>
             fadd (case per_query (row_query (det_row c)) of None \<Rightarrow> fzero | Some s \<Rightarrow> s) (row_benefit (det_row c)))
      else per_query)"

definition ml_guided_global :: "(f64 \<Rightarrow> f64) \<Rightarrow> metrics_row list \<Rightarrow> gbt_model \<Rightarrow> int \<Rightarrow> (string \<rightharpoonup> f64) py option" where
  "ml_guided_global np_exp df model budget_bytes =
     (case ml_detail np_exp df model budget_bytes of
        None \<Rightarrow> None
      | Some (Inl e) \<Rightarrow> Some (Inl e)
      | Some (Inr cs) \<Rightarrow> Some (Inr (fold add_benefit cs Map.empty)))"

section \<open>Exported models\<close>

text \<open>
  The layout of a fitted tree: one entry per node in every array, the root first, parents
  before their children, and split features among those the model was trained on.
\<close>

definition sk_tree_ok :: "sk_tree \<Rightarrow> bool" where
  "sk_tree_ok t \<longleftrightarrow> 0 < node_count t \<and> node_count t < 2 ^ 31 \<and>
     length (sk_feature t) = node_count t \<and> length (sk_threshold t) = node_count t \<and> length (children_left t) = node_count t \<and>
     length (children_right t) = node_count t \<and> length (sk_value t) = node_count t \<and>
     (\<forall>i < node_count t. sk_feature t ! i = - 2 \<or>
        0 \<le> sk_feature t ! i \<and> sk_feature t ! i < int (length FEATURE_COLS) \<and>
        int i < children_left t ! i \<and> children_left t ! i < int (node_count t) \<and>
        int i < children_right t ! i \<and> children_right t ! i < int (node_count t))"

text \<open>A node on which neither inference falls back on a default or raises.\<close>

definition full_node :: "node \<Rightarrow> bool" where
  "full_node nd \<longleftrightarrow>
     (if node_feature nd = - 1 then node_value nd \<noteq> None
      else node_threshold nd \<noteq> None \<and> 0 \<le> node_feature nd \<and> node_feature nd < int (length FEATURE_COLS))"

lemma tree_to_nodes_wf:
  assumes "sk_tree_ok t"
  shows "wf_tree (tree_to_nodes t)" and "list_all full_node (tree_to_nodes t)"
proof -
  have "wf_node (node_count t) i (tree_to_nodes t ! i)" if "i < node_count t" for i
    using assms that by (auto simp: sk_tree_ok_def wf_node_def tree_to_nodes_def)
  moreover have "zip [0..<node_count t] (tree_to_nodes t) = map (\<lambda>i. (i, tree_to_nodes t ! i)) [0..<node_count t]"
    by (intro nth_equalityI) (simp_all add: tree_to_nodes_def)
  ultimately show "wf_tree (tree_to_nodes t)"
    using assms by (auto simp: wf_tree_def sk_tree_ok_def list_all_iff tree_to_nodes_def)
  show "list_all full_node (tree_to_nodes t)"
    using assms by (auto simp: sk_tree_ok_def list_all_iff tree_to_nodes_def full_node_def)
qed

text \<open>On such nodes the two walks take the same steps.\<close>

lemma py_walk_parity:
  assumes wf: "wf_tree nodes" and full: "list_all full_node nodes" and x: "length x = length FEATURE_COLS" and "idx < length nodes"
  shows "\<exists>v. py_walk nodes x (int idx) = Some (Inr v) \<and> walk_loop nodes x idx = Some (Inr v)"
  using assms(4)
proof (induction "length nodes - idx" arbitrary: idx rule: less_induct)
  case less
  let ?n = "nodes ! idx"
  have n: "full_node ?n" "py_get nodes (int idx) = Inr ?n" using full less.prems by (simp_all add: list_all_length py_get_def)
  show ?case
  proof (cases "node_feature ?n = - 1")
    case True
    with n less.prems show ?thesis
      by (subst py_walk.simps, subst walk_loop.simps) (auto simp: full_node_def leaf_value_def)
  next
    case False
    then obtain t where t: "node_threshold ?n = Some t" "0 \<le> node_feature ?n" "node_feature ?n < int (length x)"
      using n(1) x by (auto simp: full_node_def)
    have f: "as_usize (node_feature ?n) = nat (node_feature ?n)"
      using t x by (intro as_usize_nonneg) (simp_all add: FEATURE_COLS_def)
    define g where "g = (if fle (x ! nat (node_feature ?n)) t then node_left ?n else node_right ?n)"
    have next': "next_index ?n x = as_usize g"
      using t f by (auto simp: next_index_def feature_value_def nat_less_iff g_def)
    have "int idx < g \<and> g < int (length nodes)" using wf_tree_node [OF wf less.prems] False by (simp add: wf_node_def g_def)
    moreover have "length nodes < 2 ^ 31" using wf by (simp add: wf_tree_def)
    ultimately have go: "as_usize g = nat g" "idx < nat g" "nat g < length nodes" "int (nat g) = g"
      by (auto intro: as_usize_nonneg)
    then have "length nodes - nat g < length nodes - idx" using less.prems by (intro diff_less_mono2)
    then obtain v where "py_walk nodes x g = Some (Inr v)" "walk_loop nodes x (nat g) = Some (Inr v)"
      using less.hyps [of "nat g"] go(3,4) by auto
    with False t n(2) next' go(1) less.prems show ?thesis
      by (subst py_walk.simps, subst walk_loop.simps) (simp add: py_get_def flip: g_def)
  qed
qed

lemma py_score_parity:
  assumes "list_all wf_tree ts" and "list_all (list_all full_node) ts" and "length x = length FEATURE_COLS"
  shows "\<exists>s'. py_score lr x s ts = Some (Inr s') \<and> score_trees lr x s ts = Some (Inr s')"
  using assms(1,2)
proof (induction ts arbitrary: s)
  case (Cons t ts)
  then have "t \<noteq> []" by (auto simp: wf_tree_def)
  then obtain v where "py_walk t x 0 = Some (Inr v)" "walk_tree t x = Some (Inr v)"
    using py_walk_parity [of t x 0] Cons.prems assms(3) by (auto simp: walk_tree_def)
  with Cons show ?case by simp
qed simp

lemma lookup_features_dom: "set fs \<subseteq> dom d \<Longrightarrow> lookup_features d fs = Inr (map (the \<circ> d) fs)"
  by (induction fs) auto

definition row_vector :: "(string \<rightharpoonup> f64) \<Rightarrow> f64 list" where
  "row_vector d = map (the \<circ> d) FEATURE_COLS"

lemma row_vector_zip:
  assumes "length x = length FEATURE_COLS"
  shows "row_vector (map_of (zip FEATURE_COLS x)) = x" and "set FEATURE_COLS \<subseteq> dom (map_of (zip FEATURE_COLS x))"
proof -
  have "distinct FEATURE_COLS" by (simp add: FEATURE_COLS_def)
  then show "row_vector (map_of (zip FEATURE_COLS x)) = x"
    using assms by (intro nth_equalityI) (simp_all add: row_vector_def map_of_zip_nth)
qed (use assms in simp)

lemma predict_parity:
  assumes "list_all sk_tree_ok (sk_estimators clf)" and "set FEATURE_COLS \<subseteq> dom d"
  shows "\<exists>p. predict_from_json expf d (export_model lg clf) = Some (Inr p)
    \<and> predict_proba expf (row_vector d) (export_model lg clf) = Some (Inr p)"
proof -
  let ?m = "export_model lg clf"
  have m: "feature_names ?m = FEATURE_COLS" "trees ?m = map tree_to_nodes (sk_estimators clf)"
    by (simp_all add: export_model_def Let_def)
  have "list_all wf_tree (trees ?m)" "list_all (list_all full_node) (trees ?m)"
    using assms(1) tree_to_nodes_wf by (auto simp: m list_all_iff)
  then obtain s where "py_score (learning_rate ?m) (row_vector d) (init_score ?m) (trees ?m) = Some (Inr s)"
    "score_trees (learning_rate ?m) (row_vector d) (init_score ?m) (trees ?m) = Some (Inr s)"
    using py_score_parity [of "trees ?m" "row_vector d"] by (auto simp: row_vector_def)
  with lookup_features_dom [OF assms(2)] show ?thesis
    by (simp add: predict_from_json_def predict_proba_def sigmoid_def m row_vector_def)
qed

section \<open>The evaluation\<close>

lemma predict_rows_parity:
  assumes "list_all sk_tree_ok (sk_estimators clf)" and "\<forall>r \<in> set df. set FEATURE_COLS \<subseteq> dom (row_features r)"
  shows "\<exists>ds. predict_rows expf (export_model lg clf) df = Some (Inr ds) \<and> map det_row ds = df
    \<and> (\<forall>d \<in> set ds. predict_proba expf (row_vector (row_features (det_row d))) (export_model lg clf) = Some (Inr (predicted_p d)))"
  using assms(2)
proof (induction df)
  case (Cons r df)
  obtain p where "predict_from_json expf (row_features r) (export_model lg clf) = Some (Inr p)"
    "predict_proba expf (row_vector (row_features r)) (export_model lg clf) = Some (Inr p)"
    using predict_parity [OF assms(1)] Cons.prems by (metis list.set_intros(1))
  with Cons show ?case by auto
qed simp

lemma marked_keys:
  assumes "K \<subseteq> det_key ` set cs"
  shows "det_key ` {c \<in> set (map (\<lambda>c. c\<lparr>det_selected := (det_key c \<in> K)\<rparr>) cs). det_selected c} = K"
proof -
  let ?mark = "\<lambda>c. c\<lparr>det_selected := (det_key c \<in> K)\<rparr>"
  have "map det_key (filter det_selected (map ?mark cs)) = filter (\<lambda>k. k \<in> K) (map det_key cs)" by (induction cs) auto
  then have "det_key ` {c \<in> set (map ?mark cs). det_selected c} = {k \<in> det_key ` set cs. k \<in> K}"
    by (metis set_filter set_map)
  with assms show ?thesis by blast
qed

definition query_benefits :: "string \<Rightarrow> detail list \<Rightarrow> f64 list" where
  "query_benefits q cs = map (row_benefit \<circ> det_row) (filter (\<lambda>c. det_selected c \<and> row_query (det_row c) = q) cs)"

lemma add_benefits:
  "fold add_benefit cs acc q =
    (if query_benefits q cs = [] then acc q
     else Some (foldl fadd (case acc q of None \<Rightarrow> fzero | Some s \<Rightarrow> s) (query_benefits q cs)))"
  by (induction cs arbitrary: acc) (auto simp: query_benefits_def add_benefit_def)

section \<open>Properties\<close>


text \<open>A tree with one split on the estimated cardinality.\<close>

definition stump :: sk_tree where
  "stump = \<lparr>node_count = 3, sk_feature = [0, - 2, - 2], sk_threshold = [flit 1000, flit (- 2), flit (- 2)],
     children_left = [1, - 1, - 1], children_right = [2, - 1, - 1], sk_value = [fzero, flit (- 1), flit 1]\<rparr>"

definition stumps :: sk_classifier where
  "stumps = \<lparr>sk_n_estimators = 1, sk_learning_rate = flit (1 / 10), class_prior = flit (1 / 2), sk_estimators = [stump]\<rparr>"

lemma stumps_ok: "list_all sk_tree_ok (sk_estimators stumps)"
  by (auto simp: stumps_def stump_def sk_tree_ok_def FEATURE_COLS_def less_Suc_eq numeral_3_eq_3)




end
