(* ===== verification/Spec2Isabelle.thy ===== *)
theory Spec2Isabelle
  imports RuleProps Pipeline MemoryProps StatsProps HashJoinPlans HashJoinPartitions MlScripts
begin

text \<open>
  A verification development for model-guided predicate transfer in the DataFusion query
  engine, and for the parts of the engine it rests on. Paths below are relative to
  \<open>src/datafusion/datafusion/\<close>, those that start with \<open>ml/\<close> to \<open>src/\<close>.

  \<^bold>\<open>The program.\<close> A query is a tree of operators. The rule \<open>BloomFilterTransfer\<close> rewrites the
  tree after planning: for the inner hash joins it wraps the build input in an operator that
  computes a Bloom filter of the keys it passes on, and the probe input in an operator that
  drops the rows whose key the filter rules out; the two are connected by a channel. One
  policy wraps every join edge. The other asks a gradient-boosted model for the probability
  that a filter pays off and selects filters under a memory budget with a knapsack. The model
  is trained and exported by a Python script, which has the same inference and the same
  knapsack, and a second script evaluates the policy. The rule \<open>JoinSelection\<close> picks the
  build side and the partition mode of the joins. A hash join collects its build side under a
  memory reservation, into a chained hash table or an array indexed by the key, streams its
  probe side against it, and coalesces the output into batches.

  \<^bold>\<open>Theories and sources.\<close>

  \<^item> \<open>Prelude\<close>: errors and results (\<open>DataFusionError\<close>; a panic is a value too), \<open>usize\<close>
    arithmetic with its wrap-around, text formatting, shared lemmas. \<open>F64\<close>: IEEE doubles,
    exact, with round-to-nearest-even, infinities, signed zeros and NaN.
  \<^item> \<open>JoinType\<close>: \<open>common/src/join_type.rs\<close>. \<open>Plan\<close>: physical plans, their schemas and their
    reconstruction, from \<open>physical-plan/src/joins/hash_join/exec.rs\<close> (the builder) and
    \<open>joins/utils.rs\<close> (join schemas). An operator that is not modelled is a record of
    functions: what it computes, its schema, and whether it can be rebuilt.
  \<^item> \<open>BloomExec\<close>, \<open>Knapsack\<close>, \<open>BloomTransfer\<close>: \<open>physical-optimizer/src/bloom_filter_transfer.rs\<close>.
    The first has both operators with their metrics, the second the budget policy, the third
    the rule. \<open>BfModel\<close>: \<open>physical-optimizer/src/bf_model.rs\<close>. \<open>RuleProps\<close> has what the rule
    does to a plan, \<open>Pipeline\<close> what plans compute and that the rule preserves it.
  \<^item> \<open>MlKnapsack\<close>: \<open>ml/knapsack.py\<close>. \<open>MlScripts\<close>: \<open>ml/bf_model.py\<close> and \<open>ml/evaluation.py\<close>.
  \<^item> \<open>MemoryPool\<close>, \<open>MemoryProps\<close>: \<open>execution/src/memory_pool\<close>, the pools, consumers and
    reservations, and sequences of operations on them. \<open>Stats\<close>, \<open>StatsProps\<close>:
    \<open>common/src/stats.rs\<close> and \<open>common/src/utils/aggregate.rs\<close>.
  \<^item> \<open>JoinHashMap\<close>: \<open>joins/join_hash_map.rs\<close> and \<open>joins/chain.rs\<close>. \<open>ArrayMap\<close>:
    \<open>joins/array_map.rs\<close>. \<open>JoinIndices\<close>: the functions of \<open>joins/utils.rs\<close> on pairs of row
    indices. \<open>BatchCoalescer\<close>: \<open>physical-plan/src/coalesce/mod.rs\<close>.
  \<^item> \<open>HashJoinBuild\<close>: collecting the build side in \<open>joins/hash_join/exec.rs\<close>.
    \<open>HashJoinStream\<close>: \<open>joins/hash_join/stream.rs\<close> and \<open>HashJoinExec::execute\<close>. The state of
    the stream is a record with the fields of the struct; \<open>poll_turn\<close> is one turn of the loop
    of \<open>poll_next_impl\<close>, \<open>run_stream\<close> the items up to the end or the first error.
  \<^item> \<open>JoinSpec\<close>: the specification of joins, which does not follow the code: the rows of each
    join type as list comprehensions over the rows of the inputs, and SQL's \<open>NOT IN\<close>.
    \<open>HashJoinOutput\<close>, \<open>HashJoinLookup\<close>, \<open>HashJoinChunk\<close>, \<open>HashJoinProps\<close>, \<open>HashJoinSound\<close>:
    the stream refines it. \<open>HashJoinNotIn\<close>: the null-aware anti join. \<open>HashJoinErrors\<close>: failures
    of the build side.
  \<^item> \<open>HashJoinShared\<close>: the streams of a collected join, which share the build side, its bitmap and
    its counter of probe threads. \<open>HashJoinInterleave\<close>, \<open>HashJoinCollected\<close>,
    \<open>HashJoinPartitions\<close>: all interleavings of their turns.
  \<^item> \<open>JoinSelection\<close>: \<open>physical-optimizer/src/join_selection.rs\<close>, with swapping the inputs of
    hash, nested loop and cross joins, column projections and the planner's check of schemas.
    \<open>JoinSwap\<close>, \<open>JoinSelectionProps\<close>, \<open>JoinSelectionSound\<close>, \<open>JoinSelectionModes\<close>: its
    properties. \<open>HashJoinPlans\<close>: the streams of a hash join against its plan node.

  \<^bold>\<open>How the code is modelled.\<close> Structs are records, enums datatypes, trait objects and
  third-party code records of functions. State is passed explicitly. A \<open>Result\<close> is a sum; a
  function that may not return has type \<open>option\<close> around it and is a partial function, so that
  \<open>None\<close> means it runs for ever: the walk of a tree, the loops over the chains of the hash
  table, and the run of a stream. No fuel is used. The claims about these functions say that
  they return. Streams of batches are lists of items, and a polled future is ready. Bytes and
  counts are natural numbers below \<open>usize_mod\<close>; where the code can wrap the model does.

  \<^bold>\<open>What is shown.\<close> The stream of a hash join yields the specified join for all ten join
  types, for both tables, all cuts into batches and chunks, and both modes; so do together the
  streams of a collected join, under every interleaving, and all of them end under every fair
  one; the null-aware join computes \<open>NOT IN\<close>; a failing build side or a refused reservation is the only item. Both
  lookup tables find exactly the matching pairs. Predicate transfer keeps the result of every
  plan that satisfies conditions on its key columns, and two theorems show that the conditions
  are needed. The rule always returns a valid plan, with one build and one probe per channel,
  on exactly the edges the policy selected. The knapsack is optimal over doubles in kilobytes
  (and can exceed the budget in bytes). Python and Rust agree on inference and selection.
  Picking build sides keeps the fields and, up to order, the rows of a plan, resolves every
  mode and builds on the smaller side (and can change schema metadata, which the planner
  rejects). Memory pools account for exactly what live reservations hold. Statistics claim
  exactness only of true values, apart from one case that is exhibited.

  \<^bold>\<open>Interfaces.\<close> The locale \<open>precision_op\<close> states what an operation on precisions promises,
  \<open>memory_pool\<close> what a pool promises its reservations, \<open>join_map\<close> what a lookup table promises
  the stream, \<open>turn_logic\<close> what the proofs about a stream need of a predicate on its states (one
  instance follows a stream to its end, the other to the end of its probe side); each is
  interpreted on the code's own definitions.

  \<^bold>\<open>Assumptions on other code\<close> are hypotheses with names: \<open>bloom_spec\<close> (a Bloom filter has no
  false negatives), \<open>filter_spec\<close> and \<open>kernels_spec\<close> (Arrow's kernels), \<open>coalescer_spec\<close>
  (Arrow's coalescer), \<open>plan_env_ok\<close> (statistics are available and downcasts find the joins the
  rule made), \<open>sk_tree_ok\<close> (the layout of scikit-learn's trees). Each is shown to be satisfiable
  by an instance. Hash functions and the exponential function are arbitrary.

  \<^bold>\<open>Not modelled.\<close> Plan properties (ordering, partitioning, equivalences), display, metrics of
  joins and tracing, which do not change results. Dynamic filters
  (\<open>joins/hash_join/shared_bounds.rs\<close>, \<open>inlist_builder.rs\<close>): the stream only waits for the
  outcome of a report, which is an argument. The streams of nested loop, cross, symmetric and
  sort-merge joins: their nodes compute the specification. The field metadata of a schema. The
  null-aware join, fetch limits and errors when several streams share a build side: these are
  shown for one stream over its build side. Pending polls: a stream that is polled answers, a
  turn of a stream and a pool's method are one step each, and atomics are sequentially
  consistent. In \<open>ml/\<close>, training, plots, the operations of pandas and the write-up are
  calls of libraries. The other crates (SQL, logical optimizer, data sources, functions,
  generated protocol code) are independent of predicate transfer.
\<close>

end
